(* ===== verification/Laconic_Prelude.thy ===== *)
theory Laconic_Prelude
  imports Main "HOL-Library.Multiset" "HOL-Library.Monad_Syntax"
begin

text \<open>
  Shared vocabulary of the development.

  C++ code reads and writes vectors by index and has no defined behaviour outside their
  bounds, so every fallible operation of the model returns an option: \<^term>\<open>None\<close> stands for a
  run with no defined result (an access out of range, an overflowing signed operation, a
  failed \<open>assert\<close>, an erase at \<open>end()\<close>, a loop that never ends).  A theorem that a function
  equals \<^term>\<open>Some r\<close> therefore also says that the run is free of all of these.

  Vertex identifiers and offsets are \<^typ>\<open>int\<close>; where a machine width matters the conversion
  (\<open>to_i32\<close>, \<open>to_u32\<close>) or the overflow check (\<open>i32_arith\<close>) is written out.
  The counting loop \<open>for (i = lo; i < hi; i++)\<close> is \<open>for_range\<close>, with its total-correctness
  rule \<open>for_range_rule\<close>.
\<close>

declare nat_int_add [simp]

named_theorems vec_simps \<open>facts that evaluate the indexed accesses\<close>

type_synonym graph = "int list list"

subsection \<open>Indexed access\<close>

definition vec_at :: "'a list \<Rightarrow> int \<Rightarrow> 'a option" where
  "vec_at xs i = (if 0 \<le> i \<and> i < int (length xs) then Some (xs ! nat i) else None)"

definition vec_set :: "'a list \<Rightarrow> int \<Rightarrow> 'a \<Rightarrow> 'a list option" where
  "vec_set xs i x = (if 0 \<le> i \<and> i < int (length xs) then Some (xs[nat i := x]) else None)"

text \<open>\<open>graph[v].push_back(x)\<close>.\<close>

definition push_at :: "'a list list \<Rightarrow> int \<Rightarrow> 'a \<Rightarrow> 'a list list option" where
  "push_at g v x = do { row \<leftarrow> vec_at g v; vec_set g v (row @ [x]) }"

lemma vec_at_Some [vec_simps]: "0 \<le> i \<Longrightarrow> i < int (length xs) \<Longrightarrow> vec_at xs i = Some (xs ! nat i)"
  by (simp add: vec_at_def)

lemma vec_at_nat [vec_simps]: "k < length xs \<Longrightarrow> vec_at xs (int k) = Some (xs ! k)"
  by (simp add: vec_at_def)

lemma vec_at_None: "vec_at xs i = None \<longleftrightarrow> i < 0 \<or> int (length xs) \<le> i"
  by (auto simp: vec_at_def)

lemma vec_at_eq_Some_iff:
  "vec_at xs i = Some x \<longleftrightarrow> 0 \<le> i \<and> i < int (length xs) \<and> xs ! nat i = x"
  by (auto simp: vec_at_def)

lemma vec_set_Some [vec_simps]:
  "0 \<le> i \<Longrightarrow> i < int (length xs) \<Longrightarrow> vec_set xs i x = Some (xs[nat i := x])"
  by (simp add: vec_set_def)

lemma vec_set_nat [vec_simps]: "k < length xs \<Longrightarrow> vec_set xs (int k) x = Some (xs[k := x])"
  by (simp add: vec_set_def)

lemma vec_set_append: "length pre = k \<Longrightarrow> vec_set (pre @ x # post) (int k) y = Some (pre @ y # post)"
  by (auto simp: vec_set_def)

lemma vec_at_append: "length pre = k \<Longrightarrow> vec_at (pre @ x # post) (int k) = Some x"
  by (auto simp: vec_at_def)

lemma vec_set_eq_Some_iff:
  "vec_set xs i x = Some ys \<longleftrightarrow> 0 \<le> i \<and> i < int (length xs) \<and> ys = xs[nat i := x]"
  by (auto simp: vec_set_def)

lemma vec_set_length: "vec_set xs i x = Some ys \<Longrightarrow> length ys = length xs"
  by (auto simp: vec_set_eq_Some_iff)

lemma push_at_Some [vec_simps]:
  "0 \<le> v \<Longrightarrow> v < int (length g) \<Longrightarrow> push_at g v x = Some (g[nat v := g ! nat v @ [x]])"
  by (simp add: push_at_def vec_simps)

subsection \<open>Machine integers\<close>

text \<open>
  Conversion to \<open>int\<close> and to \<open>uint32_t\<close> (two's complement), and the result of a signed
  32-bit operation, which has no defined value when it overflows.
\<close>

definition to_i32 :: "int \<Rightarrow> int" where
  "to_i32 x = (x + 2 ^ 31) mod 2 ^ 32 - 2 ^ 31"

definition to_u32 :: "int \<Rightarrow> int" where
  "to_u32 x = x mod 2 ^ 32"

definition to_u64 :: "int \<Rightarrow> int" where
  "to_u64 x = x mod 2 ^ 64"

definition i32_arith :: "int \<Rightarrow> int option" where
  "i32_arith x = (if - (2 ^ 31) \<le> x \<and> x < 2 ^ 31 then Some x else None)"

lemma to_i32_id [simp]: "- (2 ^ 31) \<le> x \<Longrightarrow> x < 2 ^ 31 \<Longrightarrow> to_i32 x = x"
  by (simp add: to_i32_def)

lemma to_u32_id [simp]: "0 \<le> x \<Longrightarrow> x < 2 ^ 32 \<Longrightarrow> to_u32 x = x"
  by (simp add: to_u32_def)

lemma to_u64_id [simp]: "0 \<le> x \<Longrightarrow> x < 2 ^ 64 \<Longrightarrow> to_u64 x = x"
  by (simp add: to_u64_def)

lemma i32_arith_Some [simp]: "- (2 ^ 31) \<le> x \<Longrightarrow> x < 2 ^ 31 \<Longrightarrow> i32_arith x = Some x"
  by (simp add: i32_arith_def)

lemma i32_arith_eq_Some_iff: "i32_arith x = Some y \<longleftrightarrow> - (2 ^ 31) \<le> x \<and> x < 2 ^ 31 \<and> y = x"
  by (auto simp: i32_arith_def)

subsection \<open>Counting loops\<close>

function for_range :: "int \<Rightarrow> int \<Rightarrow> (int \<Rightarrow> 's \<Rightarrow> 's option) \<Rightarrow> 's \<Rightarrow> 's option" where
  "for_range i n f s =
     (if i < n then case f i s of None \<Rightarrow> None | Some s' \<Rightarrow> for_range (i + 1) n f s' else Some s)"
  by pat_completeness auto
termination
  by (relation "measure (\<lambda>(i, n, f, s). nat (n - i))") auto

declare for_range.simps [simp del]

lemma for_range_done [simp]: "n \<le> i \<Longrightarrow> for_range i n f s = Some s"
  by (simp add: for_range.simps)

lemma for_range_step:
  "i < n \<Longrightarrow> for_range i n f s = (case f i s of None \<Rightarrow> None | Some s' \<Rightarrow> for_range (i + 1) n f s')"
  by (simp add: for_range.simps)

text \<open>
  The rule for total correctness: an invariant indexed by the counter that the body keeps,
  with the body defined whenever the invariant holds.
\<close>

lemma for_range_rule:
  assumes "lo \<le> hi" and "I lo s"
    and "\<And>i s. lo \<le> i \<Longrightarrow> i < hi \<Longrightarrow> I i s \<Longrightarrow> \<exists>s'. f i s = Some s' \<and> I (i + 1) s'"
  shows "\<exists>s'. for_range lo hi f s = Some s' \<and> I hi s'"
  using assms
proof (induction lo hi f s rule: for_range.induct)
  case (1 i n f s)
  show ?case
  proof (cases "i < n")
    case True
    then obtain s' where s': "f i s = Some s'" "I (i + 1) s'"
      using "1.prems" by blast
    have "\<exists>s''. for_range (i + 1) n f s' = Some s'' \<and> I n s''"
      using "1.IH" [OF True s'(1)] s'(2) True "1.prems"(3) by fastforce
    with True s'(1) show ?thesis
      by (simp add: for_range_step)
  next
    case False
    with "1.prems" show ?thesis by simp
  qed
qed

text \<open>The same when the successive states are known in closed form.\<close>

lemma for_range_eq:
  assumes "lo \<le> hi" and "\<And>i. lo \<le> i \<Longrightarrow> i < hi \<Longrightarrow> f i (S i) = Some (S (i + 1))"
  shows "for_range lo hi f (S lo) = Some (S hi)"
  using for_range_rule [where I = "\<lambda>i s. s = S i", OF assms(1) refl] assms(2) by fastforce

text \<open>Both rules for the frequent loops \<open>for (i = 0; i < k; i++)\<close>, with the counter read as a natural.\<close>

lemma for_range_nat_rule:
  assumes "I 0 s" and "\<And>j s. j < k \<Longrightarrow> I j s \<Longrightarrow> \<exists>s'. f (int j) s = Some s' \<and> I (Suc j) s'"
  shows "\<exists>s'. for_range 0 (int k) f s = Some s' \<and> I k s'"
proof -
  have "\<exists>s'. for_range 0 (int k) f s = Some s' \<and> I (nat (int k)) s'"
  proof (rule for_range_rule [where I = "\<lambda>i. I (nat i)"])
    fix i s assume "0 \<le> i" "i < int k" "I (nat i) s"
    then show "\<exists>s'. f i s = Some s' \<and> I (nat (i + 1)) s'"
      using assms(2) [of "nat i" s] by (simp add: nat_add_distrib)
  qed (use assms(1) in simp_all)
  then show ?thesis by simp
qed

lemma for_range_nat_eq:
  assumes "\<And>j. j < k \<Longrightarrow> f (int j) (S j) = Some (S (Suc j))"
  shows "for_range 0 (int k) f (S 0) = Some (S k)"
  using for_range_nat_rule [where I = "\<lambda>i s. s = S i", of "S 0" k f] assms by fastforce

lemma for_range_from_eq:
  assumes "lo \<le> hi" and "\<And>j. lo \<le> j \<Longrightarrow> j < hi \<Longrightarrow> f (int j) (S j) = Some (S (Suc j))"
  shows "for_range (int lo) (int hi) f (S lo) = Some (S hi)"
proof -
  have "for_range (int lo) (int hi) f (S (nat (int lo))) = Some (S (nat (int hi)))"
  proof (rule for_range_eq [where S = "\<lambda>i. S (nat i)"])
    fix i assume i: "int lo \<le> i" "i < int hi"
    then have "lo \<le> nat i" "nat i < hi" by auto
    then show "f i (S (nat i)) = Some (S (nat (i + 1)))"
      using assms(2) [of "nat i"] i by (simp add: nat_add_distrib)
  qed (use assms in simp)
  then show ?thesis by simp
qed

lemma for_range_from_rule:
  assumes "lo \<le> hi" "I lo s"
    and "\<And>j s. lo \<le> j \<Longrightarrow> j < hi \<Longrightarrow> I j s \<Longrightarrow> \<exists>s'. f (int j) s = Some s' \<and> I (Suc j) s'"
  shows "\<exists>s'. for_range (int lo) (int hi) f s = Some s' \<and> I hi s'"
proof -
  have "\<exists>s'. for_range (int lo) (int hi) f s = Some s' \<and> I (nat (int hi)) s'"
  proof (rule for_range_rule [where I = "\<lambda>i. I (nat i)"])
    fix i s assume i: "int lo \<le> i" "i < int hi" and "I (nat i) s"
    moreover have "lo \<le> nat i" "nat i < hi" using i by auto
    ultimately show "\<exists>s'. f i s = Some s' \<and> I (nat (i + 1)) s'"
      using assms(3) [of "nat i" s] by (simp add: nat_add_distrib)
  qed (use assms(1,2) in simp_all)
  then show ?thesis by simp
qed

lemma for_range_mono_Some:
  assumes "for_range lo hi f s = Some s'" and "I lo s" and "lo \<le> hi"
    and "\<And>i s s'. lo \<le> i \<Longrightarrow> i < hi \<Longrightarrow> I i s \<Longrightarrow> f i s = Some s' \<Longrightarrow> I (i + 1) s'"
  shows "I hi s'"
  using assms
proof (induction lo hi f s rule: for_range.induct)
  case (1 i n f s)
  show ?case
  proof (cases "i < n")
    case True
    then obtain t where t: "f i s = Some t" "for_range (i + 1) n f t = Some s'"
      using "1.prems"(1) by (auto simp: for_range_step split: option.splits)
    have "I (i + 1) t" using "1.prems" t(1) True by blast
    then show ?thesis
      using "1.IH" [OF True t(1) t(2)] True "1.prems"(4) by fastforce
  next
    case False
    with "1.prems" show ?thesis by simp
  qed
qed

text \<open>
  The loop \<open>for (i = 0; i < v.size(); i++) { x = v[i]; \<dots> }\<close> over a vector that its body does not
  change.
\<close>

primrec for_each :: "('a \<Rightarrow> 's \<Rightarrow> 's option) \<Rightarrow> 'a list \<Rightarrow> 's \<Rightarrow> 's option" where
  "for_each f [] s = Some s"
| "for_each f (x # xs) s = do { s' \<leftarrow> f x s; for_each f xs s' }"

lemma for_each_rule:
  assumes "I [] s"
    and "\<And>pre x post s. xs = pre @ x # post \<Longrightarrow> I pre s \<Longrightarrow> \<exists>s'. f x s = Some s' \<and> I (pre @ [x]) s'"
  shows "\<exists>s'. for_each f xs s = Some s' \<and> I xs s'"
proof -
  have "\<exists>s'. for_each f ys s = Some s' \<and> I (pre @ ys) s'" if "xs = pre @ ys" "I pre s" for ys pre s
    using that
  proof (induction ys arbitrary: pre s)
    case (Cons y ys)
    then obtain t where t: "f y s = Some t" "I (pre @ [y]) t" using assms(2) by blast
    then show ?case using Cons.IH [of "pre @ [y]" t] Cons.prems by simp
  qed simp
  from this [of "[]"] show ?thesis using assms(1) by simp
qed

subsection \<open>Lists\<close>

text \<open>The slice \<open>[lo, hi)\<close> of a list, as the iterator pairs of the source denote it.\<close>

definition slice :: "nat \<Rightarrow> nat \<Rightarrow> 'a list \<Rightarrow> 'a list" where
  "slice lo hi xs = take (hi - lo) (drop lo xs)"

lemma slice_empty [simp]: "hi \<le> lo \<Longrightarrow> slice lo hi xs = []"
  by (simp add: slice_def)

lemma slice_Suc: "lo \<le> k \<Longrightarrow> k < length xs \<Longrightarrow> slice lo (Suc k) xs = slice lo k xs @ [xs ! k]"
  by (simp add: slice_def Suc_diff_le take_Suc_conv_app_nth)

lemma length_slice [simp]: "length (slice lo hi xs) = min (hi - lo) (length xs - lo)"
  by (simp add: slice_def)

lemma set_slice: "set (slice lo hi xs) \<subseteq> set xs"
  unfolding slice_def by (meson in_set_dropD in_set_takeD subsetI)

lemma slice_append: "lo \<le> mid \<Longrightarrow> mid \<le> hi \<Longrightarrow> slice lo mid xs @ slice mid hi xs = slice lo hi xs"
proof -
  assume le: "lo \<le> mid" "mid \<le> hi"
  then have "hi - lo = (mid - lo) + (hi - mid)" by simp
  then have "slice lo hi xs = take (mid - lo) (drop lo xs) @ take (hi - mid) (drop (mid - lo) (drop lo xs))"
    unfolding slice_def by (simp only: take_add)
  then show ?thesis using le by (simp add: slice_def)
qed

lemma slice_full [simp]: "slice 0 (length xs) xs = xs"
  by (simp add: slice_def)

lemma slice_nth: "lo + k < hi \<Longrightarrow> lo + k < length xs \<Longrightarrow> slice lo hi xs ! k = xs ! (lo + k)"
  by (simp add: slice_def)

lemma count_list_concat: "count_list (concat xss) x = sum_list (map (\<lambda>xs. count_list xs x) xss)"
  by (induction xss) auto

lemma count_list_eq_mset: "count_list xs x = count (mset xs) x"
  by (induction xs) auto

lemma slice_Cons: "lo < hi \<Longrightarrow> lo < length xs \<Longrightarrow> slice lo hi xs = xs ! lo # slice (Suc lo) hi xs"
  by (simp add: slice_def take_Cons' Cons_nth_drop_Suc [symmetric])

lemma drop_slice: "drop k (slice lo hi xs) = slice (lo + k) hi xs"
  by (simp add: slice_def drop_take add.commute)

text \<open>A loop that appends the elements \<open>xs[lo], \<dots>, xs[hi - 1]\<close> one by one to a vector.\<close>

lemma append_range:
  assumes "lo \<le> hi" "hi \<le> length xs"
  shows "for_range (int lo) (int hi) (\<lambda>e out. do { x \<leftarrow> vec_at xs e; Some (out @ [x]) }) out
    = Some (out @ slice lo hi xs)"
proof -
  have "for_range (int lo) (int hi) (\<lambda>e out. do { x \<leftarrow> vec_at xs e; Some (out @ [x]) }) (out @ slice lo lo xs)
    = Some (out @ slice lo hi xs)"
    using assms by (intro for_range_from_eq [where S = "\<lambda>e. out @ slice lo e xs"])
      (auto simp: vec_at_nat slice_Suc)
  then show ?thesis by simp
qed

text \<open>
  A loop that appends the elements \<open>xs[lo], \<dots>, xs[hi - 1]\<close> one by one to row \<open>v\<close>.
\<close>

lemma push_range:
  assumes "0 \<le> v" "v < int (length g)" "0 \<le> lo" "lo \<le> hi" "hi \<le> int (length xs)"
  shows "for_range lo hi (\<lambda>e g. do { x \<leftarrow> vec_at xs e; push_at g v x }) g
    = Some (g[nat v := g ! nat v @ slice (nat lo) (nat hi) xs])"
proof -
  let ?S = "\<lambda>e. g[nat v := g ! nat v @ slice (nat lo) (nat e) xs]"
  have "for_range lo hi (\<lambda>e g. do { x \<leftarrow> vec_at xs e; push_at g v x }) (?S lo) = Some (?S hi)"
  proof (rule for_range_eq [OF \<open>lo \<le> hi\<close>])
    fix e assume e: "lo \<le> e" "e < hi"
    then have "slice (nat lo) (nat (e + 1)) xs = slice (nat lo) (nat e) xs @ [xs ! nat e]"
      using assms slice_Suc [of "nat lo" "nat e" xs] by (simp add: nat_add_distrib)
    then show "do { x \<leftarrow> vec_at xs e; push_at (?S e) v x } = Some (?S (e + 1))"
      using e assms by (simp add: vec_simps)
  qed
  then show ?thesis using assms by simp
qed

text \<open>The same when the elements are translated on the way.\<close>

lemma push_range_map:
  assumes "v < length g" "lo \<le> hi" "hi \<le> length xs"
    and h: "\<And>x. x \<in> set (slice lo hi xs) \<Longrightarrow> h x = Some (f x)"
  shows "for_range (int lo) (int hi) (\<lambda>e g. do { x \<leftarrow> vec_at xs e; y \<leftarrow> h x; push_at g (int v) y }) g
    = Some (g[v := g ! v @ map f (slice lo hi xs)])"
proof -
  let ?S = "\<lambda>e. g[v := g ! v @ map f (slice lo e xs)]"
  have "for_range (int lo) (int hi) (\<lambda>e g. do { x \<leftarrow> vec_at xs e; y \<leftarrow> h x; push_at g (int v) y }) (?S lo)
    = Some (?S hi)"
  proof (rule for_range_from_eq [OF assms(2)])
    fix e assume e: "lo \<le> e" "e < hi"
    have "slice lo hi xs ! (e - lo) = xs ! e" using slice_nth [of lo "e - lo" hi xs] e assms by simp
    then have "xs ! e \<in> set (slice lo hi xs)"
      using e assms nth_mem [of "e - lo" "slice lo hi xs"] by (simp add: diff_less_mono)
    then have "h (xs ! e) = Some (f (xs ! e))" by (rule h)
    then show "do { x \<leftarrow> vec_at xs (int e); y \<leftarrow> h x; push_at (?S e) (int v) y } = Some (?S (Suc e))"
      using e assms slice_Suc [of lo e xs] by (simp add: vec_simps)
  qed
  then show ?thesis using assms by simp
qed

text \<open>A loop that appends to the empty rows \<open>base\<close>, \<open>base + 1\<close>, \<open>\<dots>\<close> in turn.\<close>

lemma for_range_fill_rows:
  assumes "base + m \<le> length g" "\<And>i. i < m \<Longrightarrow> g ! (base + i) = []"
    and body: "\<And>i h. i < m \<Longrightarrow> length h = length g \<Longrightarrow>
      f (int i) h = Some (h[base + i := h ! (base + i) @ R i])"
  shows "for_range 0 (int m) f g
    = Some (map (\<lambda>x. if base \<le> x \<and> x < base + m then R (x - base) else g ! x) [0..<length g])"
proof -
  let ?S = "\<lambda>j. map (\<lambda>x. if base \<le> x \<and> x < base + j then R (x - base) else g ! x) [0..<length g]"
  have "for_range 0 (int m) f (?S 0) = Some (?S m)"
  proof (rule for_range_nat_eq)
    fix j assume j: "j < m"
    have "(?S j)[base + j := ?S j ! (base + j) @ R j] = ?S (Suc j)"
      using j assms(1,2) by (intro nth_equalityI) (auto simp: nth_list_update less_Suc_eq)
    then show "f (int j) (?S j) = Some (?S (Suc j))" using body [OF j, of "?S j"] by simp
  qed
  moreover have "?S 0 = g" by (intro nth_equalityI) auto
  ultimately show ?thesis by simp
qed

text \<open>Loops over a stretch of a vector as loops over its elements.\<close>

lemma for_range_slice:
  assumes "lo \<le> hi" "hi \<le> length xs"
  shows "for_range (int lo) (int hi) (\<lambda>e s. do { x \<leftarrow> vec_at xs e; f x s }) s = for_each f (slice lo hi xs) s"
  using assms
proof (induction "hi - lo" arbitrary: lo s)
  case (Suc k)
  then have lt: "lo < hi" "lo < length xs" by auto
  have "for_range (int (Suc lo)) (int hi) (\<lambda>e s. do { x \<leftarrow> vec_at xs e; f x s }) s' = for_each f (slice (Suc lo) hi xs) s'" for s'
    using Suc.hyps(2) Suc.prems by (intro Suc.hyps(1)) auto
  then show ?case
    using lt by (subst for_range_step) (simp_all add: vec_at_nat slice_Cons add.commute split: option.split)
qed simp

lemma for_each_append: "for_each f (xs @ ys) s = do { s' \<leftarrow> for_each f xs s; for_each f ys s' }"
  by (induction xs arbitrary: s) (auto simp: Option.bind_assoc)

lemma for_each_concat:
  "(\<And>x s. x \<in> set xs \<Longrightarrow> h x s = for_each f (r x) s) \<Longrightarrow> for_each h xs s = for_each f (concat (map r xs)) s"
  by (induction xs arbitrary: s) (auto simp: for_each_append)

lemma for_range_for_each: "for_range (int lo) (int hi) f s = for_each (\<lambda>j. f (int j)) [lo..<hi] s"
proof (induction "hi - lo" arbitrary: lo s)
  case (Suc k)
  then have lt: "lo < hi" by simp
  have "for_range (int (Suc lo)) (int hi) f s' = for_each (\<lambda>j. f (int j)) [Suc lo..<hi] s'" for s'
    using Suc.hyps(2) by (intro Suc.hyps(1)) auto
  then show ?case
    using lt by (subst for_range_step) (simp_all add: upt_conv_Cons add.commute split: option.split)
qed simp

lemma for_range_concat:
  assumes "\<And>j s. j < k \<Longrightarrow> body (int j) s = for_each f (r j) s"
  shows "for_range 0 (int k) body s = for_each f (concat (map r [0..<k])) s"
  using for_range_for_each [of 0 k body s] for_each_concat [of "[0..<k]" "\<lambda>j. body (int j)" f r s] assms by simp

end
