(* ===== verification/Grammar.thy ===== *)
theory Grammar
  imports Laconic_Prelude
begin

text \<open>
  What a compressed graph means.  A compressed graph has \<open>n\<close> vertices, numbered below \<open>n\<close>, and
  rules, numbered from \<open>n\<close>; the row of a vertex lists its neighbours with some runs of them
  replaced by a rule, and the row of a rule is what the rule stands for.  \<open>expand R n x\<close> is the
  list of vertices that symbol \<open>x\<close> stands for when \<open>R\<close> gives the rows.

  The rules that Re-Pair makes only refer to older symbols (\<open>ordered\<close>), so the
  recursion of \<open>expand\<close> is on the symbol's number; the guard \<open>y < x\<close> in its equation is true of
  every symbol of an ordered grammar (\<open>expand_rule\<close>).
\<close>

function expand :: "(int \<Rightarrow> int list) \<Rightarrow> int \<Rightarrow> int \<Rightarrow> int list" where
  "expand R n x =
     (if x < n then [x] else concat (map (\<lambda>y. if y < x then expand R n y else []) (R x)))"
  by pat_completeness auto
termination
  by (relation "measure (\<lambda>(R, n, x). nat (x - n + 1))") auto

declare expand.simps [simp del]

abbreviation expand_row :: "(int \<Rightarrow> int list) \<Rightarrow> int \<Rightarrow> int list \<Rightarrow> int list" where
  "expand_row R n row \<equiv> concat (map (expand R n) row)"

abbreviation rows :: "graph \<Rightarrow> int \<Rightarrow> int list" where
  "rows g \<equiv> (\<lambda>x. g ! nat x)"

definition ordered :: "(int \<Rightarrow> int list) \<Rightarrow> int \<Rightarrow> int \<Rightarrow> bool" where
  "ordered R n m \<longleftrightarrow> (\<forall>x. n \<le> x \<and> x < m \<longrightarrow> (\<forall>y\<in>set (R x). 0 \<le> y \<and> y < x))"

lemma orderedD:
  assumes "ordered R n m" "n \<le> x" "x < m" "y \<in> set (R x)"
  shows "0 \<le> y" "y < x" "y < m" "nat y < nat x"
  using assms by (fastforce simp: ordered_def)+

lemma expand_vertex [simp]: "x < n \<Longrightarrow> expand R n x = [x]"
  by (simp add: expand.simps)

lemma expand_rule:
  assumes "ordered R n m" "n \<le> x" "x < m"
  shows "expand R n x = expand_row R n (R x)"
proof -
  have "map (\<lambda>y. if y < x then expand R n y else []) (R x) = map (expand R n) (R x)"
    using orderedD(2) [OF assms] by (intro map_cong) auto
  then show ?thesis using assms(2) by (subst expand.simps) (simp only: not_less [symmetric] if_False)
qed

text \<open>Any function that satisfies the two equations of \<open>expand\<close> is \<open>expand\<close>.\<close>

lemma expand_unique:
  assumes ord: "ordered R n m"
    and vertex: "\<And>x. 0 \<le> x \<Longrightarrow> x < n \<Longrightarrow> E x = [x]"
    and rule: "\<And>x. n \<le> x \<Longrightarrow> x < m \<Longrightarrow> E x = concat (map E (R x))"
    and "0 \<le> x" "x < m"
  shows "expand R n x = E x"
  using \<open>0 \<le> x\<close> \<open>x < m\<close>
proof (induction "nat x" arbitrary: x rule: less_induct)
  case less
  show ?case
  proof (cases "x < n")
    case True
    then show ?thesis using vertex less.prems by simp
  next
    case False
    have "map (expand R n) (R x) = map E (R x)"
    proof (rule map_cong [OF refl])
      fix y assume "y \<in> set (R x)"
      with False less.prems show "expand R n y = E y"
        using orderedD [OF ord, of x y] by (intro less.hyps) auto
    qed
    then have "expand_row R n (R x) = concat (map E (R x))" by (simp only:)
    then show ?thesis
      using expand_rule [OF ord, of x] rule [of x] False less.prems by (simp only: not_less)
  qed
qed

lemma expand_cong:
  assumes "ordered R n m" and "\<And>x. n \<le> x \<Longrightarrow> x < m \<Longrightarrow> R' x = R x" and "0 \<le> x" "x < m"
  shows "expand R' n x = expand R n x"
proof -
  have "ordered R' n m" using assms(1,2) by (auto simp: ordered_def)
  then show ?thesis
    by (rule expand_unique [OF _ expand_vertex]) (simp_all only: assms expand_rule [OF assms(1)])
qed

text \<open>
  Rewriting the rows without changing what they expand to changes no expansion.  This is
  what every inlining of a rule is shown to be.
\<close>

lemma expand_rewrite:
  assumes ord: "ordered R n m" and ord': "ordered R' n m"
    and same: "\<And>x. n \<le> x \<Longrightarrow> x < m \<Longrightarrow> expand_row R n (R' x) = expand_row R n (R x)"
    and "0 \<le> x" "x < m"
  shows "expand R' n x = expand R n x"
  by (rule expand_unique [OF ord' expand_vertex]) (simp_all only: assms expand_rule [OF ord])

lemma expand_nonempty:
  assumes "ordered R n m" and "\<And>x. n \<le> x \<Longrightarrow> x < m \<Longrightarrow> R x \<noteq> []" and "0 \<le> x" "x < m"
  shows "expand R n x \<noteq> []"
  using assms(3,4)
proof (induction "nat x" arbitrary: x rule: less_induct)
  case less
  show ?case
  proof (cases "x < n")
    case False
    then obtain y where y: "y \<in> set (R x)"
      using assms(2) less.prems by (metis list.set_sel(1) not_less)
    then have "expand R n y \<noteq> []"
      using orderedD [OF assms(1), of x y] less.prems False by (intro less.hyps) auto
    then show ?thesis
      using expand_rule [OF assms(1), of x] False less.prems y by auto
  qed simp
qed

lemma expand_set:
  assumes "ordered R n m" and "0 \<le> x" "x < m" and "y \<in> set (expand R n x)"
  shows "0 \<le> y \<and> y < n"
  using assms(2-)
proof (induction "nat x" arbitrary: x rule: less_induct)
  case less
  show ?case
  proof (cases "x < n")
    case False
    then obtain z where "z \<in> set (R x)" "y \<in> set (expand R n z)"
      using less.prems expand_rule [OF assms(1), of x] by auto
    then show ?thesis
      using orderedD [OF assms(1), of x z] less.prems False by (intro less.hyps [of z]) auto
  qed (use less.prems in simp)
qed

text \<open>Replacing the first occurrence of a symbol by its row keeps the expansion of the row.\<close>

lemma expand_row_inline:
  assumes "expand R n x = expand_row R n (R x)"
  shows "expand_row R n (us @ R x @ vs) = expand_row R n (us @ x # vs)"
  using assms by simp

text \<open>The rows of a compressed graph with \<open>n\<close> vertices.\<close>

definition wf_grammar :: "graph \<Rightarrow> int \<Rightarrow> bool" where
  "wf_grammar g n \<longleftrightarrow> 0 \<le> n \<and> n \<le> int (length g) \<and> ordered (rows g) n (int (length g)) \<and>
     (\<forall>row\<in>set g. \<forall>y\<in>set row. 0 \<le> y \<and> y < int (length g))"

lemma wf_grammar_ordered: "wf_grammar g n \<Longrightarrow> ordered (rows g) n (int (length g))"
  by (simp add: wf_grammar_def)

lemma wf_grammar_row:
  "wf_grammar g n \<Longrightarrow> i < length g \<Longrightarrow> y \<in> set (g ! i) \<Longrightarrow> 0 \<le> y \<and> y < int (length g)"
  by (auto simp: wf_grammar_def)

lemma wf_grammarI:
  assumes "0 \<le> n" "n \<le> int (length g)"
    and "\<And>i y. n \<le> int i \<Longrightarrow> i < length g \<Longrightarrow> y \<in> set (g ! i) \<Longrightarrow> y < int i"
    and "\<And>i y. i < length g \<Longrightarrow> y \<in> set (g ! i) \<Longrightarrow> 0 \<le> y \<and> y < int (length g)"
  shows "wf_grammar g n"
  unfolding wf_grammar_def ordered_def
proof (intro conjI allI impI ballI)
  fix x y assume "n \<le> x \<and> x < int (length g)" "y \<in> set (g ! nat x)"
  then show "0 \<le> y" "y < x"
    using assms(1) assms(3) [of "nat x" y] assms(4) [of "nat x" y] by auto
next
  fix row y assume "row \<in> set g" "y \<in> set row"
  then show "0 \<le> y" "y < int (length g)"
    using assms(4) by (metis in_set_conv_nth)+
qed (use assms in auto)

lemma wf_grammar_code [code]:
  "wf_grammar g n \<longleftrightarrow> 0 \<le> n \<and> n \<le> int (length g) \<and>
     list_all (\<lambda>i. list_all (\<lambda>y. 0 \<le> y \<and> y < int (length g) \<and> (n \<le> int i \<longrightarrow> y < int i)) (g ! i))
       [0..<length g]" (is "_ \<longleftrightarrow> ?code")
proof
  assume wf: "wf_grammar g n"
  have "y < int i" if "n \<le> int i" "i < length g" "y \<in> set (g ! i)" for i y
    using orderedD(2) [OF wf_grammar_ordered [OF wf], of "int i" y] that by simp
  with wf wf_grammar_row [OF wf] show ?code by (auto simp: list_all_iff wf_grammar_def)
next
  assume ?code
  then show "wf_grammar g n" by (intro wf_grammarI) (auto simp: list_all_iff)
qed

text \<open>The adjacency list that row \<open>v\<close> of a compressed graph stands for.\<close>

definition neighbours :: "graph \<Rightarrow> int \<Rightarrow> nat \<Rightarrow> int list" where
  "neighbours g n v = expand_row (rows g) n (g ! v)"

lemma neighbours_set:
  assumes "wf_grammar g n" "v < length g" "y \<in> set (neighbours g n v)"
  shows "0 \<le> y \<and> y < n"
proof -
  obtain z where "z \<in> set (g ! v)" "y \<in> set (expand (rows g) n z)"
    using assms(3) by (auto simp: neighbours_def)
  then show ?thesis
    using expand_set [OF wf_grammar_ordered [OF assms(1)]] wf_grammar_row [OF assms(1,2)] by blast
qed

subsection \<open>Dropping rules that no row mentions\<close>

text \<open>
  \<open>keep\<close> tells which rows stay.  They are numbered in their old order, and the symbols in
  them are renamed to the new numbers.
\<close>

definition kept_index :: "(nat \<Rightarrow> bool) \<Rightarrow> nat \<Rightarrow> nat" where
  "kept_index keep i = length (filter keep [0..<i])"

definition renumber :: "(nat \<Rightarrow> bool) \<Rightarrow> int \<Rightarrow> int" where
  "renumber keep x = int (kept_index keep (nat x))"

definition drop_rows :: "(nat \<Rightarrow> bool) \<Rightarrow> graph \<Rightarrow> nat \<Rightarrow> graph" where
  "drop_rows keep g k = map (\<lambda>i. map (renumber keep) (g ! i)) (filter keep [0..<k])"

lemma kept_index_0 [simp]: "kept_index keep 0 = 0"
  by (simp add: kept_index_def)

lemma kept_index_Suc: "kept_index keep (Suc i) = kept_index keep i + (if keep i then 1 else 0)"
  by (simp add: kept_index_def)

lemma kept_index_mono: "i \<le> j \<Longrightarrow> kept_index keep i \<le> kept_index keep j"
  by (induction j rule: dec_induct) (auto simp: kept_index_Suc)

lemma kept_index_less: "keep i \<Longrightarrow> i < j \<Longrightarrow> kept_index keep i < kept_index keep j"
  using kept_index_mono [of "Suc i" j keep] by (simp add: kept_index_Suc)

lemma kept_index_all: "(\<And>j. j < i \<Longrightarrow> keep j) \<Longrightarrow> kept_index keep i = i"
  by (simp add: kept_index_def filter_id_conv)

lemma length_drop_rows [simp]: "length (drop_rows keep g k) = kept_index keep k"
  by (simp add: drop_rows_def kept_index_def)

lemma drop_rows_0 [simp]: "drop_rows keep g 0 = []"
  by (simp add: drop_rows_def)

lemma drop_rows_Suc:
  "drop_rows keep g (Suc i) = drop_rows keep g i @ (if keep i then [map (renumber keep) (g ! i)] else [])"
  by (simp add: drop_rows_def)

lemma drop_rows_nth:
  assumes "keep i" "i < k"
  shows "drop_rows keep g k ! kept_index keep i = map (renumber keep) (g ! i)"
proof -
  have "[0..<k] = [0..<i] @ i # [Suc i..<k]"
    using assms upt_add_eq_append [of 0 i "k - i"] by (simp add: upt_conv_Cons)
  then show ?thesis using assms by (simp add: drop_rows_def kept_index_def nth_append)
qed

lemma kept_index_inverse:
  assumes "j < kept_index keep k"
  shows "\<exists>i<k. keep i \<and> kept_index keep i = j"
  using assms
proof (induction k)
  case (Suc k)
  then show ?case
    by (cases "j < kept_index keep k") (auto simp: kept_index_Suc less_Suc_eq split: if_splits)
qed simp

definition drops_unused :: "graph \<Rightarrow> nat \<Rightarrow> (nat \<Rightarrow> bool) \<Rightarrow> bool" where
  "drops_unused g n keep \<longleftrightarrow> wf_grammar g (int n) \<and> (\<forall>i<n. keep i) \<and>
     (\<forall>i<length g. keep i \<longrightarrow> (\<forall>y\<in>set (g ! i). keep (nat y)))"

lemma drops_unusedD:
  assumes "drops_unused g n keep"
  shows "wf_grammar g (int n)" "\<And>i. i < n \<Longrightarrow> keep i" "n \<le> length g"
    "\<And>i y. i < length g \<Longrightarrow> keep i \<Longrightarrow> y \<in> set (g ! i) \<Longrightarrow> keep (nat y)"
  using assms by (auto simp: drops_unused_def wf_grammar_def)

lemma renumber_vertex: "drops_unused g n keep \<Longrightarrow> 0 \<le> x \<Longrightarrow> x < int n \<Longrightarrow> renumber keep x = x"
  using kept_index_all [of "nat x" keep] by (simp add: renumber_def drops_unused_def)

lemma renumber_rule: "drops_unused g n keep \<Longrightarrow> int n \<le> x \<Longrightarrow> int n \<le> renumber keep x"
  using kept_index_mono [of n "nat x" keep] kept_index_all [of n keep]
  by (simp add: renumber_def drops_unused_def)

lemma renumber_row:
  "keep i \<Longrightarrow> i < k \<Longrightarrow> rows (drop_rows keep g k) (renumber keep (int i)) = map (renumber keep) (g ! i)"
  by (simp add: renumber_def drop_rows_nth)

lemma drop_rows_inverse:
  assumes "0 \<le> z" "z < int (length (drop_rows keep g k))"
  obtains i where "keep i" "i < k" "z = renumber keep (int i)"
    "rows (drop_rows keep g k) z = map (renumber keep) (g ! i)"
  using kept_index_inverse [of "nat z" keep k] assms renumber_row
  by (fastforce simp: renumber_def)

lemma renumber_less:
  "keep (nat y) \<Longrightarrow> 0 \<le> y \<Longrightarrow> y < int i \<Longrightarrow> renumber keep y < int (kept_index keep i)"
  using kept_index_less [of keep "nat y" i] by (simp add: renumber_def nat_less_iff)

lemma wf_dropped:
  assumes D: "drops_unused g n keep"
  shows "wf_grammar (drop_rows keep g (length g)) (int n)" (is "wf_grammar ?g' _")
  unfolding wf_grammar_def
proof (intro conjI ballI)
  note wf = drops_unusedD(1) [OF D] and keep_vertex = drops_unusedD(2) [OF D]
    and n_le = drops_unusedD(3) [OF D] and closed = drops_unusedD(4) [OF D]
  show "int n \<le> int (length ?g')"
    using kept_index_mono [OF n_le, of keep] kept_index_all [of n keep] keep_vertex by simp
  show "ordered (rows ?g') (int n) (int (length ?g'))"
    unfolding ordered_def
  proof (intro allI impI ballI)
    fix z w assume z: "int n \<le> z \<and> z < int (length ?g')" and w: "w \<in> set (rows ?g' z)"
    then obtain i where i: "keep i" "i < length g" "z = renumber keep (int i)"
      "rows ?g' z = map (renumber keep) (g ! i)"
      using drop_rows_inverse [of z keep g] by auto
    have "n \<le> i" using z i(3) renumber_vertex [OF D, of "int i"] by (cases "n \<le> i") auto
    obtain y where y: "y \<in> set (g ! i)" "w = renumber keep y" using w i(4) by auto
    then have "0 \<le> y" "y < int i"
      using orderedD [OF wf_grammar_ordered [OF wf], of "int i" y] \<open>n \<le> i\<close> i by auto
    then show "0 \<le> w \<and> w < z"
      using closed [OF i(2,1) y(1)] renumber_less [of keep y i] y i(3) by (simp add: renumber_def)
  qed
  fix row w assume "row \<in> set ?g'" "w \<in> set row"
  then obtain i y where i: "keep i" "i < length g" "y \<in> set (g ! i)" "w = renumber keep y"
    by (auto simp: drop_rows_def)
  then show "0 \<le> w" by (simp add: renumber_def)
  show "w < int (length ?g')"
    using i closed [OF i(2,1,3)] wf_grammar_row [OF wf i(2,3)] renumber_less [of keep y "length g"] by simp
qed simp

lemma expand_dropped:
  assumes D: "drops_unused g n keep" and "keep (nat x)" "0 \<le> x" "x < int (length g)"
  shows "expand (rows (drop_rows keep g (length g))) (int n) (renumber keep x) = expand (rows g) (int n) x"
    (is "expand (rows ?g') _ _ = _")
  using assms(2-)
proof (induction "nat x" arbitrary: x rule: less_induct)
  case less
  note wf = drops_unusedD(1) [OF D] and closed = drops_unusedD(4) [OF D]
  show ?case
  proof (cases "x < int n")
    case True
    then show ?thesis using renumber_vertex [OF D] less.prems by simp
  next
    case False
    have row: "rows ?g' (renumber keep x) = map (renumber keep) (g ! nat x)"
      using renumber_row [of keep "nat x" "length g" g] less.prems by simp
    have "concat (map (expand (rows ?g') (int n) \<circ> renumber keep) (g ! nat x))
      = expand_row (rows g) (int n) (g ! nat x)"
    proof (intro arg_cong [of _ _ concat] map_cong refl)
      fix y assume y: "y \<in> set (g ! nat x)"
      then show "(expand (rows ?g') (int n) \<circ> renumber keep) y = expand (rows g) (int n) y"
        using orderedD [OF wf_grammar_ordered [OF wf], of x y] False less.prems
          closed [of "nat x" y] unfolding o_def by (intro less.hyps) auto
    qed
    moreover have "renumber keep x < int (length ?g')"
      using renumber_less [of keep x "length g"] less.prems by simp
    ultimately show ?thesis
      using expand_rule [OF wf_grammar_ordered [OF wf_dropped [OF D]], of "renumber keep x"] row
        renumber_rule [OF D, of x] False
        expand_rule [OF wf_grammar_ordered [OF wf], of x] less.prems by simp
  qed
qed

lemma neighbours_dropped:
  assumes D: "drops_unused g n keep" and "v < n"
  shows "neighbours (drop_rows keep g (length g)) (int n) v = neighbours g (int n) v"
    (is "neighbours ?g' _ _ = _")
proof -
  note wf = drops_unusedD(1) [OF D] and keep_vertex = drops_unusedD(2) [OF D]
    and n_le = drops_unusedD(3) [OF D] and closed = drops_unusedD(4) [OF D]
  have v: "v < length g" "keep v" using assms n_le keep_vertex by auto
  have "rows ?g' (int v) = map (renumber keep) (g ! v)"
    using renumber_row [of keep v "length g" g] v renumber_vertex [OF D, of "int v"] assms by simp
  moreover have "concat (map (expand (rows ?g') (int n) \<circ> renumber keep) (g ! v))
    = expand_row (rows g) (int n) (g ! v)"
    using expand_dropped [OF D] closed [OF v] wf_grammar_row [OF wf v(1)]
    by (intro arg_cong [of _ _ concat] map_cong) auto
  ultimately show ?thesis by (simp add: neighbours_def)
qed

end
