(* ===== verification/Csr.thy ===== *)
theory Csr
  imports Grammar
begin

text \<open>
  The graph helpers of \<open>compress_op/util.h\<close>: reading a graph in compressed sparse row form
  (\<open>vlist\<close>, the row offsets, and \<open>elist\<close>, the rows one after the other) or in coordinate
  form into a vector of adjacency lists, transposing it, laying the rows out with separators
  for Re-Pair, and writing a graph back after some of its rules were merged away.
\<close>

subsection \<open>Reading a graph\<close>

definition csr_convert :: "graph \<Rightarrow> int list \<Rightarrow> int list \<Rightarrow> int \<Rightarrow> graph option" where
  "csr_convert graph vlist elist vertex_cnt =
     for_range 0 vertex_cnt (\<lambda>v graph. do {
       start \<leftarrow> vec_at vlist v;
       end \<leftarrow> vec_at vlist (v + 1);
       for_range start end (\<lambda>e graph. do { x \<leftarrow> vec_at elist e; push_at graph v x }) graph
     }) graph"

definition csr_convert_idx :: "graph \<Rightarrow> int list \<Rightarrow> int list \<Rightarrow> int \<Rightarrow> graph option" where
  "csr_convert_idx graph vlist elist vertex_cnt =
     for_range 0 vertex_cnt (\<lambda>v graph. do {
       start \<leftarrow> vec_at vlist v;
       end \<leftarrow> vec_at vlist (v + 1);
       for_range start end (\<lambda>e graph. do { x \<leftarrow> vec_at elist e; push_at graph x v }) graph
     }) graph"

text \<open>
  \<open>coo_convert\<close> runs one iteration per thread in parallel.  Each fills a graph of its own from
  its block of edges and then, holding the mutex, appends it to the result, so a run is
  determined by the order in which the threads take the mutex: \<open>order\<close>.
\<close>

definition coo_block :: "int list \<Rightarrow> int list \<Rightarrow> int \<Rightarrow> int \<Rightarrow> int \<Rightarrow> int \<Rightarrow> graph option" where
  "coo_block src dst vertex_cnt edge_cnt block_size t =
     for_range (to_u32 (t * block_size)) (min (to_u32 ((t + 1) * block_size)) edge_cnt)
       (\<lambda>e local_graph. do { s \<leftarrow> vec_at src e; d \<leftarrow> vec_at dst e; push_at local_graph s d })
       (replicate (nat vertex_cnt) [])"

definition append_graph :: "graph \<Rightarrow> graph \<Rightarrow> int \<Rightarrow> graph option" where
  "append_graph graph local_graph vertex_cnt =
     for_range 0 vertex_cnt (\<lambda>i graph. do {
       row \<leftarrow> vec_at graph i;
       local_row \<leftarrow> vec_at local_graph i;
       vec_set graph i (row @ local_row)
     }) graph"

fun coo_threads :: "int list \<Rightarrow> int list \<Rightarrow> int \<Rightarrow> int \<Rightarrow> int \<Rightarrow> int list \<Rightarrow> graph \<Rightarrow> graph option" where
  "coo_threads src dst vertex_cnt edge_cnt block_size [] graph = Some graph"
| "coo_threads src dst vertex_cnt edge_cnt block_size (t # ts) graph = do {
     local_graph \<leftarrow> coo_block src dst vertex_cnt edge_cnt block_size t;
     graph' \<leftarrow> append_graph graph local_graph vertex_cnt;
     coo_threads src dst vertex_cnt edge_cnt block_size ts graph'
   }"

definition coo_convert :: "int \<Rightarrow> int list \<Rightarrow> graph \<Rightarrow> int list \<Rightarrow> int list \<Rightarrow> int \<Rightarrow> graph option" where
  "coo_convert num_thread order graph src dst vertex_cnt =
     (if length src \<noteq> length dst then None
      else let edge_cnt = int (length src);
               block_size = to_u32 ((edge_cnt + num_thread - 1) div num_thread)
           in coo_threads src dst vertex_cnt edge_cnt block_size order graph)"

subsection \<open>The text for Re-Pair\<close>

text \<open>
  Every row is followed by a separator of its own, \<open>max_symbol\<close>, \<open>max_symbol + 1\<close>, \<open>\<dots>\<close>, so that
  no pair of neighbouring symbols repeats across the end of a row.
\<close>

definition insert_spliter :: "int list \<Rightarrow> int list \<Rightarrow> int list \<Rightarrow> int \<Rightarrow> int list option" where
  "insert_spliter vlist elist re max_symbol =
     (if vlist = [] then Some re
      else map_option fst (for_range 0 (int (length vlist) - 1) (\<lambda>v (re, cur). do {
        start \<leftarrow> vec_at vlist v;
        end \<leftarrow> vec_at vlist (v + 1);
        re' \<leftarrow> for_range start end (\<lambda>e re. do { x \<leftarrow> vec_at elist e; Some (re @ [x]) }) re;
        cur' \<leftarrow> i32_arith (cur + 1);
        Some (re' @ [cur], cur')
      }) (re, max_symbol)))"

subsection \<open>Writing a graph whose merged rules are dropped\<close>

definition genNewIdForRule ::
  "int list \<Rightarrow> bool list \<Rightarrow> int \<Rightarrow> int \<Rightarrow> (int list \<times> int) option" where
  "genNewIdForRule newRuleId merge_flag vertex_cnt rule_cnt =
     map_option (\<lambda>(ids, cur). (ids, cur - vertex_cnt))
       (for_range 0 rule_cnt (\<lambda>i (ids, cur). do {
          ids' \<leftarrow> vec_set ids i cur;
          flag \<leftarrow> vec_at merge_flag i;
          Some (ids', if flag = False then cur + 1 else cur)
        }) (newRuleId, vertex_cnt))"

text \<open>The renamed identifier of a symbol, \<open>dstID >= vertex_cnt ? newRuleId[dstID - vertex_cnt] : dstID\<close>.\<close>

definition new_id :: "int list \<Rightarrow> int \<Rightarrow> int \<Rightarrow> int option" where
  "new_id newRuleId vertex_cnt dstID =
     (if vertex_cnt \<le> dstID then vec_at newRuleId (dstID - vertex_cnt) else Some dstID)"

text \<open>The test \<open>srcID >= vertex_cnt && merge_flag[srcID - vertex_cnt] == true\<close>.\<close>

definition is_merged :: "bool list \<Rightarrow> int \<Rightarrow> int \<Rightarrow> bool option" where
  "is_merged merge_flag vertex_cnt srcID =
     (if vertex_cnt \<le> srcID then vec_at merge_flag (srcID - vertex_cnt) else Some False)"

definition genNewGraphCOO ::
  "int list \<Rightarrow> int list \<Rightarrow> graph \<Rightarrow> int list \<Rightarrow> bool list \<Rightarrow> int \<Rightarrow> (int list \<times> int list) option" where
  "genNewGraphCOO src dst graph newRuleId merge_flag vertex_cnt =
     for_range 0 (int (length graph)) (\<lambda>v (src, dst). do {
       row \<leftarrow> vec_at graph v;
       n_srcID \<leftarrow> new_id newRuleId vertex_cnt v;
       merged \<leftarrow> is_merged merge_flag vertex_cnt v;
       if merged then Some (src, dst)
       else for_range 0 (int (length row)) (\<lambda>e (src, dst). do {
         dstID \<leftarrow> vec_at row e;
         n_dstID \<leftarrow> new_id newRuleId vertex_cnt dstID;
         Some (src @ [n_srcID], dst @ [n_dstID])
       }) (src, dst)
     }) (src, dst)"

definition genNewGraphCSR ::
  "int list \<Rightarrow> int list \<Rightarrow> graph \<Rightarrow> int list \<Rightarrow> bool list \<Rightarrow> int \<Rightarrow> (int list \<times> int list) option" where
  "genNewGraphCSR vlist elist graph newRuleId merge_flag vertex_cnt =
     for_range 0 (int (length graph)) (\<lambda>v (vlist, elist). do {
       row \<leftarrow> vec_at graph v;
       merged \<leftarrow> is_merged merge_flag vertex_cnt v;
       if merged then Some (vlist, elist)
       else do {
         elist' \<leftarrow> for_range 0 (int (length row)) (\<lambda>e elist. do {
           dstID \<leftarrow> vec_at row e;
           n_dstID \<leftarrow> new_id newRuleId vertex_cnt dstID;
           Some (elist @ [n_dstID])
         }) elist;
         Some (vlist @ [int (length elist')], elist')
       }
     }) (vlist @ [0], elist)"

subsection \<open>Well-formed graphs in compressed sparse row form\<close>

definition wf_csr :: "nat \<Rightarrow> int list \<Rightarrow> int list \<Rightarrow> bool" where
  "wf_csr n vlist elist \<longleftrightarrow> n < length vlist \<and>
     (\<forall>i<n. 0 \<le> vlist ! i \<and> vlist ! i \<le> vlist ! Suc i \<and> vlist ! Suc i \<le> int (length elist))"

lemma wf_csr_code [code]:
  "wf_csr n vlist elist \<longleftrightarrow> n < length vlist \<and>
     list_all (\<lambda>i. 0 \<le> vlist ! i \<and> vlist ! i \<le> vlist ! Suc i \<and> vlist ! Suc i \<le> int (length elist)) [0..<n]"
  by (auto simp: wf_csr_def list_all_iff)

definition csr_row :: "int list \<Rightarrow> int list \<Rightarrow> nat \<Rightarrow> int list" where
  "csr_row vlist elist i = slice (nat (vlist ! i)) (nat (vlist ! Suc i)) elist"

definition csr_graph :: "nat \<Rightarrow> int list \<Rightarrow> int list \<Rightarrow> graph" where
  "csr_graph n vlist elist = map (csr_row vlist elist) [0..<n]"

lemma length_csr_graph [simp]: "length (csr_graph n vlist elist) = n"
  by (simp add: csr_graph_def)

lemma csr_graph_nth [simp]: "i < n \<Longrightarrow> csr_graph n vlist elist ! i = csr_row vlist elist i"
  by (simp add: csr_graph_def)

lemma csr_graph_Suc:
  "i < n \<Longrightarrow> csr_graph (Suc i) vlist elist = csr_graph i vlist elist @ [csr_row vlist elist i]"
  by (simp add: csr_graph_def)

lemma wf_csr_at:
  assumes "wf_csr n vlist elist" "0 \<le> v" "v < int n"
  shows "vec_at vlist v = Some (vlist ! nat v)" "vec_at vlist (v + 1) = Some (vlist ! Suc (nat v))"
    "0 \<le> vlist ! nat v" "vlist ! nat v \<le> vlist ! Suc (nat v)"
    "vlist ! Suc (nat v) \<le> int (length elist)"
  using assms by (auto simp: wf_csr_def vec_at_def nat_add_distrib)

lemma csr_convert_graph:
  assumes "wf_csr n vlist elist"
  shows "csr_convert (replicate n []) vlist elist (int n) = Some (csr_graph n vlist elist)"
proof -
  let ?S = "\<lambda>v. csr_graph (nat v) vlist elist @ replicate (n - nat v) []"
  let ?f = "\<lambda>v graph. do { start \<leftarrow> vec_at vlist v; end \<leftarrow> vec_at vlist (v + 1);
       for_range start end (\<lambda>e graph. do { x \<leftarrow> vec_at elist e; push_at graph v x }) graph }"
  have "for_range 0 (int n) ?f (?S 0) = Some (?S (int n))"
  proof (rule for_range_eq)
    fix v assume v: "0 \<le> v" "v < int n"
    note at = wf_csr_at [OF assms v]
    have rep: "replicate (n - nat v) [] = [] # replicate (n - Suc (nat v)) []"
      using v by (cases "n - nat v") (auto simp: Suc_diff_Suc [symmetric])
    have S: "(?S v) ! nat v = []" "nat v < length (?S v)"
      using v by (auto simp: rep nth_append)
    have "(?S v)[nat v := csr_row vlist elist (nat v)] = ?S (v + 1)"
      using v by (simp add: rep list_update_append nat_add_distrib csr_graph_Suc [of _ n])
    then show "?f v (?S v) = Some (?S (v + 1))"
      using v at S by (simp add: push_range csr_row_def)
  qed simp
  then show ?thesis by (simp add: csr_convert_def csr_graph_def)
qed

subsection \<open>Transposition\<close>

text \<open>Row \<open>x\<close> of the transposed graph lists every row that mentions \<open>x\<close>, once per occurrence.\<close>

definition transposed_row :: "graph \<Rightarrow> nat \<Rightarrow> int list" where
  "transposed_row g x = concat (map (\<lambda>v. replicate (count_list (g ! v) (int x)) (int v)) [0..<length g])"

lemma count_list_replicate: "count_list (replicate k a) b = (if a = b then k else 0)"
  by (induction k) auto

lemma count_transposed_row:
  "count_list (transposed_row g x) w =
    (if 0 \<le> w \<and> w < int (length g) then count_list (g ! nat w) (int x) else 0)"
proof -
  have "count_list (concat (map (\<lambda>v. replicate (f v) (int v)) [0..<k])) w =
    (if 0 \<le> w \<and> w < int k then f (nat w) else 0)" for f :: "nat \<Rightarrow> nat" and k
    by (induction k) (auto simp: count_list_replicate)
  then show ?thesis by (simp add: transposed_row_def)
qed

lemma push_range_idx:
  assumes "0 \<le> lo" "lo \<le> hi" "hi \<le> int (length xs)"
    and "\<And>x. x \<in> set (slice (nat lo) (nat hi) xs) \<Longrightarrow> 0 \<le> x \<and> x < int (length g)"
  shows "\<exists>g'. for_range lo hi (\<lambda>e g. do { x \<leftarrow> vec_at xs e; push_at g x v }) g = Some g' \<and>
    length g' = length g \<and>
    (\<forall>x<length g. g' ! x = g ! x @ replicate (count_list (slice (nat lo) (nat hi) xs) (int x)) v)"
    (is "\<exists>g'. ?loop = Some g' \<and> ?post hi g'")
proof (rule for_range_rule [OF assms(2), of ?post])
  show "?post lo g" by simp
next
  fix e h assume e: "lo \<le> e" "e < hi" and post: "?post e h"
  have "nat (e + 1) = Suc (nat e)" using e assms(1) by simp
  then have ext: "slice (nat lo) (nat (e + 1)) xs = slice (nat lo) (nat e) xs @ [xs ! nat e]"
    using e assms by (simp add: slice_Suc)
  have "slice (nat lo) (nat hi) xs = slice (nat lo) (nat (e + 1)) xs @ slice (nat (e + 1)) (nat hi) xs"
    using e assms by (intro slice_append [symmetric]) auto
  then have "xs ! nat e \<in> set (slice (nat lo) (nat hi) xs)" by (simp add: ext)
  then have x: "0 \<le> xs ! nat e" "xs ! nat e < int (length g)" using assms(4) by auto
  let ?x = "nat (xs ! nat e)"
  have "?post (e + 1) (h[?x := h ! ?x @ [v]])"
    using post x by (auto simp: ext nth_list_update replicate_append_same nat_eq_iff)
  moreover have "do { x \<leftarrow> vec_at xs e; push_at h x v } = Some (h[?x := h ! ?x @ [v]])"
    using e x assms post by (simp add: vec_simps)
  ultimately show "\<exists>h'. do { x \<leftarrow> vec_at xs e; push_at h x v } = Some h' \<and> ?post (e + 1) h'"
    by blast
qed

lemma csr_convert_idx_graph:
  assumes wf: "wf_csr n vlist elist"
    and range: "\<And>i x. i < n \<Longrightarrow> x \<in> set (csr_row vlist elist i) \<Longrightarrow> 0 \<le> x \<and> x < int m"
  shows "csr_convert_idx (replicate m []) vlist elist (int n)
    = Some (map (transposed_row (csr_graph n vlist elist)) [0..<m])"
proof -
  let ?row = "\<lambda>v x. replicate (count_list (csr_row vlist elist v) (int x)) (int v)"
  let ?I = "\<lambda>v h. length h = m \<and> (\<forall>x<m. h ! x = concat (map (\<lambda>v. ?row v x) [0..<nat v]))"
  have "\<exists>h. csr_convert_idx (replicate m []) vlist elist (int n) = Some h \<and> ?I (int n) h"
    unfolding csr_convert_idx_def
  proof (rule for_range_rule)
    fix v h assume v: "0 \<le> v" "v < int n" and I: "?I v h"
    note at = wf_csr_at [OF wf v]
    obtain h' where h': "for_range (vlist ! nat v) (vlist ! Suc (nat v))
        (\<lambda>e g. do { x \<leftarrow> vec_at elist e; push_at g x v }) h = Some h'" "length h' = length h"
      "\<forall>x<length h. h' ! x = h ! x @ ?row (nat v) x"
      using push_range_idx [of "vlist ! nat v" "vlist ! Suc (nat v)" elist h v] at range [of "nat v"] v I
      by (auto simp: csr_row_def)
    have "[0..<nat (v + 1)] = [0..<nat v] @ [nat v]" using v by (simp add: nat_add_distrib)
    then have "?I (v + 1) h'" using h' I by simp
    then show "\<exists>h'. do { start \<leftarrow> vec_at vlist v; end \<leftarrow> vec_at vlist (v + 1);
         for_range start end (\<lambda>e graph. do { x \<leftarrow> vec_at elist e; push_at graph x v }) h } = Some h' \<and>
         ?I (v + 1) h'"
      using h'(1) at by auto
  qed auto
  then obtain h where h: "csr_convert_idx (replicate m []) vlist elist (int n) = Some h" "?I (int n) h"
    by blast
  have "transposed_row (csr_graph n vlist elist) x = concat (map (\<lambda>v. ?row v x) [0..<n])" for x
    unfolding transposed_row_def by (intro arg_cong [of _ _ concat] map_cong) auto
  then have "h = map (transposed_row (csr_graph n vlist elist)) [0..<m]"
    using h(2) by (intro nth_equalityI) (simp_all only: length_map length_upt nth_map nth_upt, simp_all)
  with h(1) show ?thesis by simp
qed

subsection \<open>Writing rows back\<close>

text \<open>The row offsets of a list of rows, and the round trip through them.\<close>

definition offsets :: "graph \<Rightarrow> int list" where
  "offsets g = map (\<lambda>i. int (length (concat (take i g)))) [0..<Suc (length g)]"

lemma length_offsets [simp]: "length (offsets g) = Suc (length g)"
  by (simp add: offsets_def)

lemma offsets_Nil [simp]: "offsets [] = [0]"
  by (simp add: offsets_def)

lemma offsets_snoc: "offsets (g @ [row]) = offsets g @ [int (length (concat (g @ [row])))]"
proof -
  have "offsets (g @ [row]) = map (\<lambda>i. int (length (concat (take i (g @ [row]))))) [0..<Suc (length g)]
      @ [int (length (concat (g @ [row])))]"
    unfolding offsets_def by simp
  moreover have "map (\<lambda>i. int (length (concat (take i (g @ [row]))))) [0..<Suc (length g)] = offsets g"
    unfolding offsets_def by (rule map_cong [OF refl]) auto
  ultimately show ?thesis by simp
qed

lemma offsets_nth: "i \<le> length g \<Longrightarrow> offsets g ! i = int (length (concat (take i g)))"
  unfolding offsets_def by (simp add: nth_map_upt del: upt_Suc)

lemma length_concat_take: "length (concat (take i g)) \<le> length (concat g)"
  using arg_cong [OF concat_append [of "take i g" "drop i g"], of length] by simp

lemma wf_offsets: "wf_csr (length g) (offsets g) (concat g)"
proof -
  have "length (concat (take i g)) \<le> length (concat (take (Suc i) g))" if "i < length g" for i
    using that by (simp add: take_Suc_conv_app_nth)
  then show ?thesis
    using length_concat_take by (auto simp: wf_csr_def offsets_nth)
qed

lemma csr_row_offsets:
  assumes "i < length g"
  shows "csr_row (offsets g) (concat g) i = g ! i"
proof -
  have "concat g = concat (take i g) @ g ! i @ concat (drop (Suc i) g)"
    using id_take_nth_drop [OF assms] by (metis concat.simps(2) concat_append)
  moreover have "concat (take (Suc i) g) = concat (take i g) @ g ! i"
    using assms by (simp add: take_Suc_conv_app_nth)
  ultimately show ?thesis
    using assms by (simp add: csr_row_def offsets_nth slice_def)
qed

lemma csr_graph_offsets: "csr_graph (length g) (offsets g) (concat g) = g"
  by (rule nth_equalityI) (simp_all add: csr_row_offsets)

text \<open>Which rows \<open>genNewIdForRule\<close> and \<open>genNewGraphCSR\<close> keep: the vertices and the unflagged rules.\<close>

definition keeps :: "nat \<Rightarrow> bool list \<Rightarrow> nat \<Rightarrow> bool" where
  "keeps n merge_flag i \<longleftrightarrow> i < n \<or> \<not> merge_flag ! (i - n)"

lemma keeps_vertex [simp]: "i < n \<Longrightarrow> keeps n merge_flag i"
  by (simp add: keeps_def)

lemma kept_index_keeps_vertex [simp]: "i \<le> n \<Longrightarrow> kept_index (keeps n merge_flag) i = i"
  by (rule kept_index_all) simp

lemma genNewIdForRule_ids:
  assumes "length ids = k" "length merge_flag = k"
  shows "genNewIdForRule ids merge_flag (int n) (int k) =
    Some (map (\<lambda>i. int (kept_index (keeps n merge_flag) (n + i))) [0..<k],
      int (kept_index (keeps n merge_flag) (n + k)) - int n)"
proof -
  let ?ren = "\<lambda>i. int (kept_index (keeps n merge_flag) (n + i))"
  let ?S = "\<lambda>j. (map ?ren [0..<j] @ drop j ids, ?ren j)"
  let ?f = "\<lambda>i (ids, cur). do { ids' \<leftarrow> vec_set ids i cur; flag \<leftarrow> vec_at merge_flag i;
      Some (ids', if flag = False then cur + 1 else cur) }"
  have "for_range 0 (int k) ?f (?S 0) = Some (?S k)"
  proof (rule for_range_nat_eq)
    fix j assume j: "j < k"
    have "drop j ids = ids ! j # drop (Suc j) ids" using j assms by (simp add: Cons_nth_drop_Suc)
    then have upd: "(map ?ren [0..<j] @ drop j ids)[j := ?ren j] = map ?ren [0..<Suc j] @ drop (Suc j) ids"
      by (simp add: list_update_append)
    have "?ren (Suc j) = (if merge_flag ! j = False then ?ren j + 1 else ?ren j)"
      by (simp add: kept_index_Suc keeps_def)
    then show "?f (int j) (?S j) = Some (?S (Suc j))"
      using j assms upd by (simp add: vec_simps del: upt_Suc)
  qed
  then show ?thesis
    using assms by (simp add: genNewIdForRule_def)
qed

lemma new_id_renumber:
  assumes "length merge_flag = k" "0 \<le> x" "x < int (n + k)"
  shows "new_id (map (\<lambda>i. int (kept_index (keeps n merge_flag) (n + i))) [0..<k]) (int n) x
    = Some (renumber (keeps n merge_flag) x)"
proof (cases "int n \<le> x")
  case True
  then have "n + nat (x - int n) = nat x" "nat (x - int n) < k" using assms by auto
  with True assms show ?thesis by (simp add: new_id_def renumber_def vec_simps)
next
  case False
  with assms show ?thesis by (simp add: new_id_def renumber_def)
qed

lemma append_renamed:
  assumes "\<And>x. x \<in> set row \<Longrightarrow> h x = Some (f x)"
  shows "for_range 0 (int (length row)) (\<lambda>e out. do { d \<leftarrow> vec_at row e; d' \<leftarrow> h d; Some (out @ [d']) }) out
    = Some (out @ map f row)"
proof -
  have "for_range 0 (int (length row)) (\<lambda>e out. do { d \<leftarrow> vec_at row e; d' \<leftarrow> h d; Some (out @ [d']) })
    (out @ map f (take 0 row)) = Some (out @ map f (take (length row) row))"
    by (rule for_range_nat_eq [where S = "\<lambda>j. out @ map f (take j row)"])
      (simp add: vec_simps assms take_Suc_conv_app_nth)
  then show ?thesis by simp
qed

lemma is_merged_keeps:
  assumes "i < n + length merge_flag"
  shows "is_merged merge_flag (int n) (int i) = Some (\<not> keeps n merge_flag i)"
proof (cases "n \<le> i")
  case True
  have "nat (int i - int n) = i - n" by arith
  with True assms show ?thesis by (auto simp: is_merged_def keeps_def vec_at_def)
qed (simp add: is_merged_def)

lemma genNewGraphCSR_rows:
  assumes "length graph = n + k" "length merge_flag = k"
    and range: "\<And>row y. row \<in> set graph \<Longrightarrow> y \<in> set row \<Longrightarrow> 0 \<le> y \<and> y < int (length graph)"
    and ids: "newRuleId = map (\<lambda>i. int (kept_index (keeps n merge_flag) (n + i))) [0..<k]"
  defines "g' \<equiv> drop_rows (keeps n merge_flag) graph (length graph)"
  shows "genNewGraphCSR [] [] graph newRuleId merge_flag (int n) = Some (offsets g', concat g')"
proof -
  let ?keep = "keeps n merge_flag"
  let ?g = "drop_rows ?keep graph"
  let ?S = "\<lambda>j. (offsets (?g j), concat (?g j))"
  let ?inner = "\<lambda>row. for_range 0 (int (length row)) (\<lambda>e elist. do { dstID \<leftarrow> vec_at row e;
      n_dstID \<leftarrow> new_id newRuleId (int n) dstID; Some (elist @ [n_dstID]) })"
  let ?f = "\<lambda>v (vlist, elist). do { row \<leftarrow> vec_at graph v; merged \<leftarrow> is_merged merge_flag (int n) v;
      if merged then Some (vlist, elist)
      else do { elist' \<leftarrow> ?inner row elist; Some (vlist @ [int (length elist')], elist') } }"
  have "for_range 0 (int (length graph)) ?f (?S 0) = Some (?S (length graph))"
  proof (rule for_range_nat_eq)
    fix j assume j: "j < length graph"
    have "new_id newRuleId (int n) x = Some (renumber ?keep x)" if "x \<in> set (graph ! j)" for x
      unfolding ids using range [of "graph ! j" x] that j assms(1,2) by (intro new_id_renumber) auto
    then have "?inner (graph ! j) out = Some (out @ map (renumber ?keep) (graph ! j))" for out
      by (rule append_renamed)
    then show "?f (int j) (?S j) = Some (?S (Suc j))"
      using j assms(1,2) by (simp add: vec_simps is_merged_keeps drop_rows_Suc offsets_snoc)
  qed
  then show ?thesis
    by (simp add: genNewGraphCSR_def g'_def)
qed

subsection \<open>Graphs in coordinate form\<close>

definition coo_row :: "int list \<Rightarrow> int list \<Rightarrow> int \<Rightarrow> int list" where
  "coo_row src dst v = map snd (filter (\<lambda>(s, d). s = v) (zip src dst))"

definition coo_graph :: "nat \<Rightarrow> int list \<Rightarrow> int list \<Rightarrow> graph" where
  "coo_graph n src dst = map (\<lambda>v. coo_row src dst (int v)) [0..<n]"

lemma length_coo_graph [simp]: "length (coo_graph n src dst) = n"
  by (simp add: coo_graph_def)

lemma coo_row_append:
  "length src1 = length dst1 \<Longrightarrow>
    coo_row (src1 @ src2) (dst1 @ dst2) v = coo_row src1 dst1 v @ coo_row src2 dst2 v"
  by (simp add: coo_row_def)

lemma coo_graph_snoc:
  assumes "length src = length dst" "0 \<le> s" "s < int n"
  shows "coo_graph n (src @ [s]) (dst @ [d]) =
    (coo_graph n src dst)[nat s := coo_graph n src dst ! nat s @ [d]]"
  using assms by (intro nth_equalityI) (auto simp: coo_graph_def coo_row_append coo_row_def nth_list_update)

lemma push_coo_range:
  assumes "length src = length dst" "\<And>s. s \<in> set src \<Longrightarrow> 0 \<le> s \<and> s < int n"
    and "lo \<le> hi" "hi \<le> length src"
  shows "for_range (int lo) (int hi)
      (\<lambda>e g. do { s \<leftarrow> vec_at src e; d \<leftarrow> vec_at dst e; push_at g s d }) (replicate n [])
    = Some (coo_graph n (slice lo hi src) (slice lo hi dst))"
proof -
  let ?S = "\<lambda>e. coo_graph n (slice lo (nat e) src) (slice lo (nat e) dst)"
  have "for_range (int lo) (int hi)
      (\<lambda>e g. do { s \<leftarrow> vec_at src e; d \<leftarrow> vec_at dst e; push_at g s d }) (?S (int lo)) = Some (?S (int hi))"
  proof (rule for_range_eq)
    fix e assume "int lo \<le> e" "e < int hi"
    then obtain j where j: "e = int j" "lo \<le> j" "j < length src" "nat (e + 1) = Suc j"
      using assms(4) by (metis nat_int nat_le_iff nonneg_int_cases of_nat_0_le_iff of_nat_Suc
          of_nat_le_iff of_nat_less_iff order_less_le_trans order_trans add.commute)
    then show "do { s \<leftarrow> vec_at src e; d \<leftarrow> vec_at dst e; push_at (?S e) s d } = Some (?S (e + 1))"
      using assms(1) assms(2) [of "src ! j"]
      by (simp add: vec_simps slice_Suc coo_graph_snoc)
  qed (use assms in simp)
  moreover have "coo_graph n [] [] = replicate n []"
    by (simp add: coo_graph_def coo_row_def map_replicate_const)
  ultimately show ?thesis by simp
qed

lemma append_graph_rows:
  assumes "length g = n" "length h = n"
  shows "append_graph g h (int n) = Some (map2 (@) g h)"
proof -
  let ?S = "\<lambda>j. map2 (@) (take j g) (take j h) @ drop j g"
  have "append_graph g h (int n) = Some (?S n)"
    unfolding append_graph_def
  proof (rule for_range_nat_eq [where S = ?S, simplified])
    fix j assume j: "j < n"
    then have "drop j g = g ! j # drop (Suc j) g" using assms by (simp add: Cons_nth_drop_Suc)
    then show "do { row \<leftarrow> vec_at (?S j) (int j); local_row \<leftarrow> vec_at h (int j);
        vec_set (?S j) (int j) (row @ local_row) } = Some (?S (Suc j))"
      using j assms by (simp add: vec_simps nth_append list_update_append take_Suc_conv_app_nth)
  qed
  then show ?thesis using assms by simp
qed

text \<open>Two graphs whose rows agree up to the order of their entries.\<close>

definition same_rows :: "graph \<Rightarrow> graph \<Rightarrow> bool" where
  "same_rows g h \<longleftrightarrow> length g = length h \<and> (\<forall>i<length g. mset (g ! i) = mset (h ! i))"

lemma same_rows_refl [simp]: "same_rows g g"
  by (simp add: same_rows_def)

lemma same_rowsD: "same_rows g h \<Longrightarrow> i < length h \<Longrightarrow> mset (g ! i) = mset (h ! i)"
  by (simp add: same_rows_def)

lemma same_rows_length: "same_rows g h \<Longrightarrow> length g = length h"
  by (simp add: same_rows_def)

text \<open>The edges of thread \<open>t\<close>, and what a sequence of threads adds to each row.\<close>

definition edge_block :: "nat \<Rightarrow> 'a list \<Rightarrow> nat \<Rightarrow> 'a list" where
  "edge_block b xs t = slice (t * b) (Suc t * b) xs"

lemma concat_edge_blocks: "concat (map (edge_block b xs) [0..<k]) = take (k * b) xs"
proof (induction k)
  case (Suc k)
  have "take (k * b) xs = slice 0 (k * b) xs" by (simp add: slice_def)
  then show ?case
    using Suc slice_append [of 0 "k * b" "Suc k * b" xs] by (simp add: edge_block_def slice_def)
qed simp

lemma coo_block_rows:
  assumes "length src = length dst" "\<And>s. s \<in> set src \<Longrightarrow> 0 \<le> s \<and> s < int n"
    and fits: "Suc t * b < 2 ^ 32"
  shows "coo_block src dst (int n) (int (length src)) (int b) (int t) =
    Some (coo_graph n (edge_block b src t) (edge_block b dst t))"
proof -
  have le: "t * b \<le> Suc t * b" by simp
  then have "t * b < 2 ^ 32" using fits by linarith
  then have bounds: "to_u32 (int t * int b) = int (t * b)"
    "to_u32 ((int t + 1) * int b) = int (Suc t * b)"
    using fits of_nat_less_iff [of "t * b" "2 ^ 32", where ?'a = int]
      of_nat_less_iff [of "Suc t * b" "2 ^ 32", where ?'a = int]
    by (simp_all add: algebra_simps)
  let ?hi = "min (Suc t * b) (length src)"
  show ?thesis
  proof (cases "t * b \<le> ?hi")
    case True
    have "slice (t * b) ?hi xs = edge_block b xs t" if "length xs = length src" for xs :: "int list"
      using that by (auto simp: edge_block_def slice_def min_def)
    then show ?thesis
      using push_coo_range [of src dst n "t * b" ?hi] True assms bounds
      by (simp add: coo_block_def of_nat_min)
  next
    case False
    then have "length src < t * b" using le by linarith
    moreover from this have "edge_block b src t = []" "edge_block b dst t = []"
      using assms(1) by (simp_all add: edge_block_def slice_def)
    moreover have "coo_graph n [] [] = replicate n []"
      by (simp add: coo_graph_def coo_row_def map_replicate_const)
    moreover from \<open>length src < t * b\<close>
    have "min (int (Suc t * b)) (int (length src)) \<le> int (t * b)" by linarith
    ultimately show ?thesis
      using bounds by (simp only: coo_block_def) simp
  qed
qed

lemma coo_threads_rows:
  assumes "length src = length dst" "\<And>s. s \<in> set src \<Longrightarrow> 0 \<le> s \<and> s < int n"
    and "\<And>t. t \<in> set ts \<Longrightarrow> Suc t * b < 2 ^ 32" and "length g = n"
  shows "\<exists>h. coo_threads src dst (int n) (int (length src)) (int b) (map int ts) g = Some h \<and>
    length h = n \<and>
    (\<forall>v<n. h ! v = g ! v @ concat (map (\<lambda>t. coo_row (edge_block b src t) (edge_block b dst t) (int v)) ts))"
  using assms(3,4)
proof (induction ts arbitrary: g)
  case (Cons t ts)
  let ?l = "coo_graph n (edge_block b src t) (edge_block b dst t)"
  have step: "coo_block src dst (int n) (int (length src)) (int b) (int t) = Some ?l"
    using Cons.prems assms(1,2) by (intro coo_block_rows) auto
  have app: "append_graph g ?l (int n) = Some (map2 (@) g ?l)"
    using Cons.prems by (intro append_graph_rows) auto
  obtain h where h: "coo_threads src dst (int n) (int (length src)) (int b) (map int ts) (map2 (@) g ?l) = Some h"
    "length h = n" "\<forall>v<n. h ! v = map2 (@) g ?l ! v @
      concat (map (\<lambda>t. coo_row (edge_block b src t) (edge_block b dst t) (int v)) ts)"
    using Cons.IH [of "map2 (@) g ?l"] Cons.prems by auto
  then show ?case using step app Cons.prems by (auto simp: coo_graph_def)
qed simp

definition coo_schedule :: "nat \<Rightarrow> int list \<Rightarrow> bool" where
  "coo_schedule num_thread order \<longleftrightarrow> 0 < num_thread \<and> mset order = mset (map int [0..<num_thread])"

definition wf_coo :: "nat \<Rightarrow> nat \<Rightarrow> int list \<Rightarrow> int list \<Rightarrow> bool" where
  "wf_coo num_thread n src dst \<longleftrightarrow> length src = length dst \<and> length src + num_thread < 2 ^ 32 \<and>
     (\<forall>s\<in>set src. 0 \<le> s \<and> s < int n)"

lemma concat_coo_rows:
  assumes "length src = length dst"
  shows "concat (map (\<lambda>t. coo_row (edge_block b src t) (edge_block b dst t) v) [0..<k])
    = coo_row (take (k * b) src) (take (k * b) dst) v"
proof (induction k)
  case 0
  then show ?case by (simp add: coo_row_def)
next
  case (Suc k)
  have app: "take (Suc k * b) xs = take (k * b) xs @ edge_block b xs k" for xs :: "int list"
    using concat_edge_blocks [of b xs "Suc k"] concat_edge_blocks [of b xs k] by simp
  show ?case
    using Suc assms by (simp only: app) (simp add: coo_row_append)
qed

lemma mset_concat_perm: "mset xs = mset ys \<Longrightarrow> mset (concat (map f xs)) = mset (concat (map f ys))"
  by (simp add: mset_concat flip: sum_mset_sum_list)

lemma coo_convert_rows:
  assumes sched: "coo_schedule num_thread order" and wf: "wf_coo num_thread n src dst"
  shows "\<exists>h. coo_convert (int num_thread) order (replicate n []) src dst (int n) = Some h \<and>
    same_rows h (coo_graph n src dst)"
proof -
  define E b where "E = length src" and "b = (E + num_thread - 1) div num_thread"
  have nt: "0 < num_thread" using sched by (simp add: coo_schedule_def)
  have "E + num_thread - 1 < num_thread + num_thread * b"
    using dividend_less_times_div [OF nt] by (simp add: b_def)
  then have covers: "E \<le> num_thread * b" using nt by linarith
  have "num_thread * b \<le> E + num_thread - 1"
    unfolding b_def by (simp add: mult.commute)
  then have fits: "Suc t * b < 2 ^ 32" if "t < num_thread" for t
    using wf mult_le_mono1 [of "Suc t" num_thread b] that unfolding wf_coo_def E_def by linarith
  define ts where "ts = map nat order"
  have "set order = int ` {..<num_thread}"
    using sched by (metis coo_schedule_def atLeast0LessThan set_map set_mset_mset set_upt)
  then have "map (int \<circ> nat) order = map id order" by (intro map_cong) auto
  then have order: "order = map int ts" by (simp add: ts_def)
  have "mset ts = mset (map nat (map int [0..<num_thread]))"
    using sched unfolding ts_def coo_schedule_def by (metis mset_map)
  then have ts: "mset ts = mset [0..<num_thread]" by (simp add: comp_def)
  have "int b = (int E + int num_thread - 1) div int num_thread"
    using nt by (simp add: b_def zdiv_int of_nat_diff)
  moreover have "b < 2 ^ 32" using fits [of 0] nt by simp
  ultimately have block: "to_u32 ((int E + int num_thread - 1) div int num_thread) = int b"
    by (metis of_nat_0_le_iff of_nat_less_iff of_nat_numeral of_nat_power to_u32_id)
  obtain h where h: "coo_threads src dst (int n) (int E) (int b) (map int ts) (replicate n []) = Some h"
    "length h = n" "\<forall>v<n. h ! v = concat (map (\<lambda>t. coo_row (edge_block b src t) (edge_block b dst t) (int v)) ts)"
    using coo_threads_rows [of src dst n ts b "replicate n []"] wf fits mset_eq_setD [OF ts]
    unfolding wf_coo_def E_def by auto
  have "mset (h ! v) = mset (coo_graph n src dst ! v)" if "v < n" for v
    using that h(3) concat_coo_rows [of src dst b "int v" num_thread] wf covers
      mset_concat_perm [OF ts, of "\<lambda>t. coo_row (edge_block b src t) (edge_block b dst t) (int v)"]
    by (simp add: coo_graph_def wf_coo_def E_def)
  then have "same_rows h (coo_graph n src dst)"
    using h(2) by (simp add: same_rows_def)
  moreover have "coo_convert (int num_thread) order (replicate n []) src dst (int n) = Some h"
    using h(1) wf block by (simp add: coo_convert_def wf_coo_def E_def order Let_def)
  ultimately show ?thesis by blast
qed

subsection \<open>Loops over the rows\<close>

lemma csr_row_loop:
  assumes wf: "wf_csr n vlist elist" and "v < n"
  shows "do { start \<leftarrow> vec_at vlist (int v); end \<leftarrow> vec_at vlist (int v + 1);
      for_range start end (\<lambda>e s. do { x \<leftarrow> vec_at elist e; f x s }) s } = for_each f (csr_row vlist elist v) s"
proof -
  have "vec_at vlist (int v) = Some (int (nat (vlist ! v)))" "vec_at vlist (int v + 1) = Some (int (nat (vlist ! Suc v)))"
    "nat (vlist ! v) \<le> nat (vlist ! Suc v)" "nat (vlist ! Suc v) \<le> length elist"
    using wf_csr_at [OF wf, of "int v"] assms(2) by auto
  then show ?thesis
    using for_range_slice [of "nat (vlist ! v)" "nat (vlist ! Suc v)" elist f s] by (simp add: csr_row_def)
qed

lemma int_min_diff: "0 \<le> a \<Longrightarrow> a \<le> b \<Longrightarrow> b \<le> int k \<Longrightarrow> int (min (nat b - nat a) (k - nat a)) = b - a"
  by linarith

lemma length_csr_row:
  assumes "wf_csr n vlist elist" "v < n"
  shows "int (length (csr_row vlist elist v)) = vlist ! Suc v - vlist ! v"
  using wf_csr_at(3-5) [OF assms(1), of "int v"] assms(2) by (simp add: csr_row_def int_min_diff)

text \<open>The offsets cover the whole edge array.\<close>

definition full_csr :: "nat \<Rightarrow> int list \<Rightarrow> int list \<Rightarrow> bool" where
  "full_csr n vlist elist \<longleftrightarrow> wf_csr n vlist elist \<and> vlist ! 0 = 0 \<and> vlist ! n = int (length elist)"

lemma full_csrD: "full_csr n vlist elist \<Longrightarrow> wf_csr n vlist elist"
  by (simp add: full_csr_def)

lemma full_csr_concat:
  assumes "full_csr n vlist elist"
  shows "concat (csr_graph n vlist elist) = elist"
proof -
  have wf: "wf_csr n vlist elist" using assms by (rule full_csrD)
  have "concat (csr_graph i vlist elist) = slice 0 (nat (vlist ! i)) elist \<and> (i \<le> n \<longrightarrow> 0 \<le> vlist ! i)" if "i \<le> n" for i
    using that
  proof (induction i)
    case 0
    then show ?case using assms by (simp add: full_csr_def csr_graph_def)
  next
    case (Suc i)
    then have "0 \<le> vlist ! i" "vlist ! i \<le> vlist ! Suc i" using wf by (auto simp: wf_csr_def)
    moreover have "csr_graph (Suc i) vlist elist = csr_graph i vlist elist @ [csr_row vlist elist i]"
      by (simp add: csr_graph_def)
    ultimately show ?case
      using Suc slice_append [of 0 "nat (vlist ! i)" "nat (vlist ! Suc i)" elist] by (simp add: csr_row_def)
  qed
  from this [of n] show ?thesis using assms by (simp add: full_csr_def)
qed

end
