(* ===== verification/Check.thy ===== *)
theory Check
  imports Csr
begin

text \<open>
  The self-check of the compressor, \<open>compress_op/check.h\<close>: for every vertex, the neighbours
  in the original graph are compared, as sorted lists, with what the compressed row expands
  to.  The expansion is computed with an explicit stack of pending rules, which ends only
  because the rules are not recursive.

  \<open>graph_loader\<close> is what the check needs of the code that reads the two graphs; it holds of
  both \<open>csr_convert\<close> and \<open>coo_convert\<close>.
\<close>

definition get_ori_successors :: "graph \<Rightarrow> int \<Rightarrow> int list option" where
  "get_ori_successors gp vertexID = do {
     row \<leftarrow> vec_at gp vertexID;
     for_range 0 (int (length row)) (\<lambda>i re. do { x \<leftarrow> vec_at row i; Some (re @ [x]) }) []
   }"

text \<open>The stack \<open>PQ\<close> is a list with its top first.\<close>

definition push_row :: "int list \<Rightarrow> int \<Rightarrow> int list \<times> int list \<Rightarrow> (int list \<times> int list) option" where
  "push_row row vertex_cnt st =
     for_range 0 (int (length row)) (\<lambda>i (PQ, result). do {
       dst \<leftarrow> vec_at row i;
       Some (if vertex_cnt \<le> dst then (dst # PQ, result) else (PQ, result @ [dst]))
     }) st"

partial_function (option) push_successors ::
  "int list \<Rightarrow> graph \<Rightarrow> int list \<Rightarrow> int \<Rightarrow> int list option" where
  "push_successors result cg PQ vertex_cnt =
     (case PQ of
        [] \<Rightarrow> Some result
      | ruleID # PQ' \<Rightarrow> do {
          row \<leftarrow> vec_at cg ruleID;
          st \<leftarrow> push_row row vertex_cnt (PQ', result);
          push_successors (snd st) cg (fst st) vertex_cnt
        })"

definition get_compress_successors :: "graph \<Rightarrow> int \<Rightarrow> int \<Rightarrow> int list option" where
  "get_compress_successors cg vertexID vertex_cnt = do {
     row \<leftarrow> vec_at cg vertexID;
     for_range 0 (int (length row)) (\<lambda>i re. do {
       dst \<leftarrow> vec_at row i;
       if vertex_cnt \<le> dst then push_successors re cg [dst] vertex_cnt
       else Some (re @ [dst])
     }) []
   }"

definition compare :: "int list \<Rightarrow> int list \<Rightarrow> bool" where
  "compare a b \<longleftrightarrow> sort a = sort b"

text \<open>
  The loop over the vertices that \<open>check_coo\<close> and \<open>check_csr\<close> share, with its early
  \<open>return false\<close>; \<open>count\<close> is never incremented.
\<close>

function check_vertices :: "graph \<Rightarrow> graph \<Rightarrow> int \<Rightarrow> int \<Rightarrow> bool option" where
  "check_vertices graph cg vertex_cnt v =
     (if v < vertex_cnt then do {
        ori_successors \<leftarrow> get_ori_successors graph v;
        compress_successors \<leftarrow> get_compress_successors cg v vertex_cnt;
        if compare ori_successors compress_successors \<noteq> True then Some False
        else check_vertices graph cg vertex_cnt (v + 1)
      } else Some True)"
  by pat_completeness auto
termination
  by (relation "measure (\<lambda>(graph, cg, n, v). nat (n - v))") auto

declare check_vertices.simps [simp del]

definition check_csr :: "int list \<Rightarrow> int list \<Rightarrow> int list \<Rightarrow> int list \<Rightarrow> int \<Rightarrow> int \<Rightarrow> bool option" where
  "check_csr vlist elist compress_vlist compress_elist vertex_cnt rule_cnt = do {
     graph \<leftarrow> csr_convert (replicate (nat vertex_cnt) []) vlist elist vertex_cnt;
     compressed_graph \<leftarrow> csr_convert (replicate (nat (vertex_cnt + rule_cnt)) [])
       compress_vlist compress_elist (vertex_cnt + rule_cnt);
     check_vertices graph compressed_graph vertex_cnt 0
   }"

text \<open>
  \<open>check_coo\<close> reads both graphs with \<open>coo_convert\<close>; the two lists are the orders in which the
  threads of the two calls take the mutex.
\<close>

definition check_coo ::
  "int \<Rightarrow> int list \<Rightarrow> int list \<Rightarrow> int list \<Rightarrow> int list \<Rightarrow> int list \<Rightarrow> int list \<Rightarrow> int \<Rightarrow> int \<Rightarrow> bool option" where
  "check_coo num_thread order compress_order src dst compress_src compress_dst vertex_cnt rule_cnt = do {
     graph \<leftarrow> coo_convert num_thread order (replicate (nat vertex_cnt) []) src dst vertex_cnt;
     compressed_graph \<leftarrow> coo_convert num_thread compress_order
       (replicate (nat (vertex_cnt + rule_cnt)) []) compress_src compress_dst (vertex_cnt + rule_cnt);
     check_vertices graph compressed_graph vertex_cnt 0
   }"

subsection \<open>The expansion by an explicit stack\<close>

lemma get_ori_successors_row: "v < length gp \<Longrightarrow> get_ori_successors gp (int v) = Some (gp ! v)"
  using append_renamed [of "gp ! v" Some id "[]"] by (simp add: get_ori_successors_def vec_simps)

lemma push_row_eq:
  "push_row row n (PQ, result) =
    Some (rev (filter (\<lambda>x. n \<le> x) row) @ PQ, result @ filter (\<lambda>x. \<not> n \<le> x) row)"
proof -
  let ?S = "\<lambda>j. (rev (filter (\<lambda>x. n \<le> x) (take j row)) @ PQ, result @ filter (\<lambda>x. \<not> n \<le> x) (take j row))"
  have "push_row row n (?S 0) = Some (?S (length row))"
    unfolding push_row_def
    by (rule for_range_nat_eq) (auto simp: vec_simps take_Suc_conv_app_nth)
  then show ?thesis by simp
qed

text \<open>The number of rule nodes in the derivation tree of a symbol bounds the pops of the stack.\<close>

function tree_size :: "(int \<Rightarrow> int list) \<Rightarrow> int \<Rightarrow> int \<Rightarrow> nat" where
  "tree_size R n x =
     (if x < n then 0 else Suc (sum_list (map (\<lambda>y. if y < x then tree_size R n y else 0) (R x))))"
  by pat_completeness auto
termination
  by (relation "measure (\<lambda>(R, n, x). nat (x - n + 1))") auto

declare tree_size.simps [simp del]

lemma tree_size_vertex [simp]: "x < n \<Longrightarrow> tree_size R n x = 0"
  by (simp add: tree_size.simps)

lemma tree_size_rule:
  assumes "ordered R n m" "n \<le> x" "x < m"
  shows "tree_size R n x = Suc (sum_list (map (tree_size R n) (R x)))"
proof -
  have "map (\<lambda>y. if y < x then tree_size R n y else 0) (R x) = map (tree_size R n) (R x)"
    using orderedD(2) [OF assms] by (intro map_cong) auto
  then show ?thesis using assms(2) by (subst tree_size.simps) (simp only: not_less [symmetric] if_False)
qed

lemma sum_list_filter_0: "(\<And>x. x \<in> set xs \<Longrightarrow> \<not> P x \<Longrightarrow> f x = (0::nat)) \<Longrightarrow>
    sum_list (map f (filter P xs)) = sum_list (map f xs)"
  by (induction xs) auto

lemma mset_expand_split:
  "mset (expand_row R n xs) =
    mset (expand_row R n (filter (\<lambda>x. n \<le> x) xs)) + mset (filter (\<lambda>x. \<not> n \<le> x) xs)"
  by (induction xs) auto

lemma mset_concat_rev: "mset (concat (map f (rev xs))) = mset (concat (map f xs))"
  by (induction xs) auto

lemma push_successors_expand:
  assumes wf: "wf_grammar g n"
    and "\<And>x. x \<in> set PQ \<Longrightarrow> n \<le> x \<and> x < int (length g)"
  shows "\<exists>r. push_successors result g PQ n = Some r \<and>
    mset r = mset result + mset (expand_row (rows g) n PQ)"
  using assms(2)
proof (induction "sum_list (map (tree_size (rows g) n) PQ)" arbitrary: PQ result rule: less_induct)
  case less
  note ord = wf_grammar_ordered [OF wf]
  show ?case
  proof (cases PQ)
    case Nil
    then show ?thesis by (simp add: push_successors.simps)
  next
    case (Cons x PQ')
    then have x: "n \<le> x" "x < int (length g)" using less.prems by auto
    have "0 \<le> x" using x wf by (simp add: wf_grammar_def)
    let ?row = "g ! nat x"
    let ?big = "filter (\<lambda>x. n \<le> x) ?row"
    let ?PQ = "rev ?big @ PQ'" and ?res = "result @ filter (\<lambda>x. \<not> n \<le> x) ?row"
    have range: "y \<in> set ?PQ \<Longrightarrow> n \<le> y \<and> y < int (length g)" for y
      using less.prems Cons orderedD [OF ord x] x by fastforce
    have "sum_list (map (tree_size (rows g) n) ?big) = sum_list (map (tree_size (rows g) n) ?row)"
      by (rule sum_list_filter_0) auto
    then have "sum_list (map (tree_size (rows g) n) ?PQ) < sum_list (map (tree_size (rows g) n) PQ)"
      using Cons tree_size_rule [OF ord x] by (simp add: rev_map [symmetric])
    then obtain r where r: "push_successors ?res g ?PQ n = Some r"
      "mset r = mset ?res + mset (expand_row (rows g) n ?PQ)"
      using less.hyps [of ?PQ ?res] range by blast
    have "mset r = mset result + mset (expand_row (rows g) n PQ)"
      using r(2) Cons expand_rule [OF ord x] mset_expand_split [of "rows g" n ?row]
      by (simp add: mset_concat_rev ac_simps)
    moreover have "push_successors result g PQ n = Some r"
      using r(1) Cons x \<open>0 \<le> x\<close> by (subst push_successors.simps) (simp add: vec_simps push_row_eq)
    ultimately show ?thesis by blast
  qed
qed

lemma get_compress_successors_neighbours:
  assumes wf: "wf_grammar g n" and v: "v < length g"
  shows "\<exists>r. get_compress_successors g (int v) n = Some r \<and> mset r = mset (neighbours g n v)"
proof -
  let ?row = "g ! v"
  let ?I = "\<lambda>j r. mset r = mset (expand_row (rows g) n (take j ?row))"
  let ?f = "\<lambda>i re. do { dst \<leftarrow> vec_at ?row i;
       if n \<le> dst then push_successors re g [dst] n else Some (re @ [dst]) }"
  have "\<exists>r. for_range 0 (int (length ?row)) ?f [] = Some r \<and> ?I (length ?row) r"
  proof (rule for_range_nat_rule)
    fix j r assume j: "j < length ?row" and I: "?I j r"
    have "?row ! j < int (length g)" using wf_grammar_row [OF wf v] j by simp
    then show "\<exists>r'. ?f (int j) r = Some r' \<and> ?I (Suc j) r'"
      using push_successors_expand [OF wf, of "[?row ! j]" r] j I
      by (cases "n \<le> ?row ! j") (auto simp: vec_simps take_Suc_conv_app_nth)
  qed simp
  then show ?thesis using v by (simp add: get_compress_successors_def vec_simps neighbours_def)
qed

lemma compare_iff_mset: "compare a b \<longleftrightarrow> mset a = mset b"
  unfolding compare_def by (metis mset_sort properties_for_sort sorted_sort)

lemma check_vertices_correct:
  assumes wf: "wf_grammar cg (int n)" and "length g = n" and "v \<le> n"
  shows "check_vertices g cg (int n) (int v) =
    Some (\<forall>i. v \<le> i \<and> i < n \<longrightarrow> mset (g ! i) = mset (neighbours cg (int n) i))"
  using \<open>v \<le> n\<close>
proof (induction "n - v" arbitrary: v)
  case 0
  then have "v = n" by simp
  then show ?case by (auto simp: check_vertices.simps)
next
  case (Suc k)
  then have v: "v < n" "v < length cg" using wf by (auto simp: wf_grammar_def)
  have IH: "check_vertices g cg (int n) (int v + 1) =
      Some (\<forall>i. Suc v \<le> i \<and> i < n \<longrightarrow> mset (g ! i) = mset (neighbours cg (int n) i))"
    using Suc.hyps(1) [of "Suc v"] Suc.hyps(2) v by (simp add: add.commute)
  have split: "(\<forall>i. v \<le> i \<and> i < n \<longrightarrow> P i) \<longleftrightarrow> P v \<and> (\<forall>i. Suc v \<le> i \<and> i < n \<longrightarrow> P i)" for P
    using v by (metis Suc_le_eq le_neq_implies_less le_refl Suc_leD)
  obtain r where r: "get_compress_successors cg (int v) (int n) = Some r"
    "mset r = mset (neighbours cg (int n) v)"
    using get_compress_successors_neighbours [OF wf v(2)] by blast
  have "check_vertices g cg (int n) (int v) =
      (if mset (g ! v) = mset (neighbours cg (int n) v) then check_vertices g cg (int n) (int v + 1)
       else Some False)"
    using v r assms(2) by (subst check_vertices.simps) (simp add: get_ori_successors_row compare_iff_mset)
  then show ?case using IH split [of "\<lambda>i. mset (g ! i) = mset (neighbours cg (int n) i)"] by simp
qed

subsection \<open>Reading the two graphs\<close>

text \<open>The order of the entries in the rows does not matter for what a symbol expands to, as a multiset.\<close>

lemma wf_grammar_same_rows:
  assumes "same_rows g h" "wf_grammar h n"
  shows "wf_grammar g n"
proof -
  have "set (g ! i) = set (h ! i)" if "i < length h" for i
    using same_rowsD [OF assms(1) that] by (rule mset_eq_setD)
  then show ?thesis
    using assms(2) same_rows_length [OF assms(1)] wf_grammar_row [OF assms(2)]
      orderedD(2) [OF wf_grammar_ordered [OF assms(2)]]
    by (intro wf_grammarI) (auto simp: wf_grammar_def)
qed

lemma mset_concat_cong:
  assumes "mset xs = mset ys" "\<And>x. x \<in> set ys \<Longrightarrow> mset (f x) = mset (g x)"
  shows "mset (concat (map f xs)) = mset (concat (map g ys))"
proof -
  have "mset (concat (map f ys)) = mset (concat (map g ys))"
    using assms(2) by (induction ys) auto
  then show ?thesis using mset_concat_perm [OF assms(1), of f] by simp
qed

lemma mset_expand_same_rows:
  assumes same: "same_rows g h" and wf: "wf_grammar h n" and "0 \<le> x" "x < int (length h)"
  shows "mset (expand (rows g) n x) = mset (expand (rows h) n x)"
  using assms(3,4)
proof (induction "nat x" arbitrary: x rule: less_induct)
  case less
  note ord = wf_grammar_ordered [OF wf]
  note ord' = wf_grammar_ordered [OF wf_grammar_same_rows [OF same wf]]
  show ?case
  proof (cases "x < n")
    case False
    have "mset (expand_row (rows g) n (g ! nat x)) = mset (expand_row (rows h) n (h ! nat x))"
    proof (rule mset_concat_cong)
      fix y assume "y \<in> set (h ! nat x)"
      then show "mset (expand (rows g) n y) = mset (expand (rows h) n y)"
        using less.prems False orderedD [OF ord, of x y] by (intro less.hyps) auto
    qed (use less.prems same_rowsD [OF same, of "nat x"] in auto)
    then show ?thesis
      using expand_rule [OF ord, of x] expand_rule [OF ord', of x] False less.prems
        same_rows_length [OF same] by simp
  qed simp
qed

lemma mset_neighbours_same_rows:
  assumes same: "same_rows g h" and wf: "wf_grammar h n" and v: "v < length h"
  shows "mset (neighbours g n v) = mset (neighbours h n v)"
  unfolding neighbours_def
  by (rule mset_concat_cong [OF same_rowsD [OF same v] mset_expand_same_rows [OF same wf]])
    (use wf_grammar_row [OF wf v] in auto)

text \<open>
  What the check needs of the code that reads a graph: on a valid input it returns the rows
  of the graph that the input denotes, in some order.
\<close>

locale graph_loader =
  fixes load :: "'f \<Rightarrow> nat \<Rightarrow> graph option"
    and valid :: "'f \<Rightarrow> nat \<Rightarrow> bool"
    and view :: "'f \<Rightarrow> nat \<Rightarrow> graph"
  assumes load_view: "valid f n \<Longrightarrow> \<exists>g. load f n = Some g \<and> same_rows g (view f n)"
    and length_view: "length (view f n) = n"
begin

lemma check_loaded:
  assumes "valid f n" "valid cf m" "wf_grammar (view cf m) (int n)"
  shows "do { g \<leftarrow> load f n; cg \<leftarrow> load cf m; check_vertices g cg (int n) 0 }
    = Some (\<forall>v<n. mset (view f n ! v) = mset (neighbours (view cf m) (int n) v))"
proof -
  obtain g cg where g: "load f n = Some g" "same_rows g (view f n)"
    and cg: "load cf m = Some cg" "same_rows cg (view cf m)"
    using load_view assms(1,2) by blast
  have "n \<le> m" using assms(3) by (simp add: wf_grammar_def length_view)
  have len: "length g = n" using same_rows_length [OF g(2)] by (simp add: length_view)
  have "mset (g ! v) = mset (view f n ! v)"
    "mset (neighbours cg (int n) v) = mset (neighbours (view cf m) (int n) v)" if "v < n" for v
    using that same_rowsD [OF g(2)] mset_neighbours_same_rows [OF cg(2) assms(3)] \<open>n \<le> m\<close>
    by (simp_all add: length_view)
  then show ?thesis
    using check_vertices_correct [OF wf_grammar_same_rows [OF cg(2) assms(3)] len, of 0] g(1) cg(1)
    by simp
qed

end

interpretation csr: graph_loader
  "\<lambda>(vlist, elist) n. csr_convert (replicate n []) vlist elist (int n)"
  "\<lambda>(vlist, elist) n. wf_csr n vlist elist"
  "\<lambda>(vlist, elist) n. csr_graph n vlist elist"
  by unfold_locales (auto simp: csr_convert_graph)

interpretation coo: graph_loader
  "\<lambda>(num_thread, order, src, dst) n. coo_convert (int num_thread) order (replicate n []) src dst (int n)"
  "\<lambda>(num_thread, order, src, dst) n. coo_schedule num_thread order \<and> wf_coo num_thread n src dst"
  "\<lambda>(num_thread, order, src, dst) n. coo_graph n src dst"
  by unfold_locales (auto intro: coo_convert_rows)

subsection \<open>The check decides whether the compressed graph is the graph\<close>

text \<open>
  Property C1. On a well-formed graph and a well-formed compressed graph \<open>check_csr\<close>
  terminates without an access out of range, and returns \<open>true\<close> exactly when every vertex has
  the same neighbours, with the same multiplicities, in the graph and in what its compressed
  row expands to.
\<close>

theorem check_csr_decides:
  assumes "wf_csr n vlist elist" and "wf_csr (n + r) cvlist celist"
    and "wf_grammar (csr_graph (n + r) cvlist celist) (int n)"
  shows "check_csr vlist elist cvlist celist (int n) (int r) =
    Some (\<forall>v<n. mset (csr_row vlist elist v)
      = mset (neighbours (csr_graph (n + r) cvlist celist) (int n) v))"
  using csr.check_loaded [of "(vlist, elist)" n "(cvlist, celist)" "n + r"] assms
  by (simp add: check_csr_def)

theorem check_csr_decides_witness:
  "check_csr [0, 3, 6] [0, 1, 1, 0, 1, 0] [0, 2, 4, 6] [2, 1, 2, 0, 0, 1] 2 1 = Some True"
proof -
  let ?cg = "csr_graph (2 + 1) [0, 2, 4, 6] [2, 1, 2, 0, 0, 1]"
  have "wf_csr 2 [0, 3, 6] [0, 1, 1, 0, 1, 0]" "wf_csr (2 + 1) [0, 2, 4, 6] [2, 1, 2, 0, 0, 1]"
    "wf_grammar ?cg (int 2)"
    by code_simp+
  note check_csr_decides [OF this]
  moreover have "mset (csr_row [0, 3, 6] [0, 1, 1, 0, 1, 0] v) = mset (neighbours ?cg (int 2) v)"
    if "v = 0 \<or> v = 1" for v
    using that by (elim disjE; hypsubst; code_simp)
  ultimately show ?thesis by (simp add: less_2_cases_iff)
qed

text \<open>
  Property C2. The same for the coordinate form, whatever the number of threads and the order
  in which they take the mutex in the two calls of \<open>coo_convert\<close>.
\<close>

theorem check_coo_decides:
  assumes "coo_schedule nt order" and "coo_schedule nt corder"
    and "wf_coo nt n src dst" and "wf_coo nt (n + r) csrc cdst"
    and "wf_grammar (coo_graph (n + r) csrc cdst) (int n)"
  shows "check_coo (int nt) order corder src dst csrc cdst (int n) (int r) =
    Some (\<forall>v<n. mset (coo_row src dst (int v))
      = mset (neighbours (coo_graph (n + r) csrc cdst) (int n) v))"
  using coo.check_loaded [of "(nt, order, src, dst)" n "(nt, corder, csrc, cdst)" "n + r"] assms
  by (simp add: check_coo_def nat_int_add coo_graph_def)

theorem check_coo_decides_witness:
  "check_coo 2 [1, 0] [0, 1] [0, 0, 1] [0, 1, 1] [0, 1, 2, 2] [2, 1, 0, 1] 2 1 = Some True"
proof -
  let ?cg = "coo_graph (2 + 1) [0, 1, 2, 2] [2, 1, 0, 1]"
  have "coo_schedule 2 [1, 0]" "coo_schedule 2 [0, 1]"
    by (simp_all add: coo_schedule_def numeral_2_eq_2)
  moreover have "wf_coo 2 2 [0, 0, 1] [0, 1, 1]" "wf_coo 2 (2 + 1) [0, 1, 2, 2] [2, 1, 0, 1]"
    by (simp_all add: wf_coo_def)
  moreover have "wf_grammar ?cg (int 2)" by code_simp
  ultimately have "check_coo (int 2) [1, 0] [0, 1] [0, 0, 1] [0, 1, 1] [0, 1, 2, 2] [2, 1, 0, 1] (int 2) (int 1) =
    Some (\<forall>v<2. mset (coo_row [0, 0, 1] [0, 1, 1] (int v)) = mset (neighbours ?cg (int 2) v))"
    by (rule check_coo_decides)
  moreover have "mset (coo_row [0, 0, 1] [0, 1, 1] (int v)) = mset (neighbours ?cg (int 2) v)"
    if "v = 0 \<or> v = 1" for v
    using that by (elim disjE; hypsubst; code_simp)
  ultimately show ?thesis by (simp add: less_2_cases_iff)
qed

end
