(* ===== verification/Inlining.thy ===== *)
theory Inlining
  imports Csr
begin

text \<open>
  Merging a rule away.  \<open>mergeRule\<close>, in its several variants, replaces the occurrences of a
  rule in the rows that mention it by the rule's own row, and keeps the transposed graph in
  step.  This theory has the list operation it is made of, the invariant that ties the graph
  to its transpose while some rules are merged already, and the interface \<open>rule_merger\<close> that
  the variants implement.
\<close>

subsection \<open>Replacing an occurrence\<close>

text \<open>
  \<open>it = find(row.begin(), row.end(), a); pos = row.erase(it); row.insert(pos, ins.begin(), ins.end())\<close>.
  Erasing at \<open>end()\<close> has no defined behaviour.
\<close>

fun splice_first :: "'a \<Rightarrow> 'a list \<Rightarrow> 'a list \<Rightarrow> 'a list option" where
  "splice_first a ins [] = None"
| "splice_first a ins (x # xs) =
     (if x = a then Some (ins @ xs) else map_option ((#) x) (splice_first a ins xs))"

text \<open>The first \<open>k\<close> occurrences of \<open>a\<close> replaced.\<close>

fun inline_n :: "nat \<Rightarrow> 'a \<Rightarrow> 'a list \<Rightarrow> 'a list \<Rightarrow> 'a list" where
  "inline_n 0 a ins row = row"
| "inline_n (Suc k) a ins [] = []"
| "inline_n (Suc k) a ins (x # xs) =
     (if x = a then ins @ inline_n k a ins xs else x # inline_n (Suc k) a ins xs)"

lemma inline_n_Cons_neq [simp]: "x \<noteq> a \<Longrightarrow> inline_n k a ins (x # xs) = x # inline_n k a ins xs"
  by (cases k) auto

lemma splice_first_append:
  "a \<notin> set us \<Longrightarrow> splice_first a ins (us @ vs) = map_option ((@) us) (splice_first a ins vs)"
  by (cases "splice_first a ins vs"; induction us) auto

lemma splice_first_inline_n:
  "a \<notin> set ins \<Longrightarrow> k < count_list row a \<Longrightarrow>
    splice_first a ins (inline_n k a ins row) = Some (inline_n (Suc k) a ins row)"
proof (induction k a ins row rule: inline_n.induct)
  case (1 a ins row)
  then show ?case
    by (induction row) (auto split: if_splits)
next
  case (3 k a ins x xs)
  then show ?case by (auto simp: splice_first_append)
qed simp

lemma inline_n_id: "a \<notin> set row \<Longrightarrow> inline_n k a ins row = row"
  by (induction k a ins row rule: inline_n.induct) auto

lemma length_inline_n:
  "k \<le> count_list row a \<Longrightarrow>
    int (length (inline_n k a ins row)) = int (length row) + int k * (int (length ins) - 1)"
  by (induction k a ins row rule: inline_n.induct) (auto simp: algebra_simps)

lemma count_inline_n:
  "k = count_list row a \<Longrightarrow> count_list ins a = 0 \<Longrightarrow>
    count_list (inline_n k a ins row) y =
      (if y = a then 0 else count_list row y + k * count_list ins y)"
  by (induction k a ins row rule: inline_n.induct) auto

lemma set_inline_n: "set (inline_n k a ins row) \<subseteq> set row \<union> set ins"
  by (induction k a ins row rule: inline_n.induct) auto

lemma inline_n_nonempty: "ins \<noteq> [] \<Longrightarrow> row \<noteq> [] \<Longrightarrow> inline_n k a ins row \<noteq> []"
  by (induction k a ins row rule: inline_n.induct) auto

lemma expand_row_inline_n:
  "expand R n a = expand_row R n ins \<Longrightarrow> expand_row R n (inline_n k a ins row) = expand_row R n row"
  by (induction k a ins row rule: inline_n.induct) auto

lemma count_list_notin [simp]: "x \<notin> set xs \<Longrightarrow> count_list xs x = 0"
  by (simp add: count_list_0_iff)

text \<open>All occurrences of rule \<open>ID\<close> replaced in every row, as one pass over the graph.\<close>

definition inline_rule :: "nat \<Rightarrow> graph \<Rightarrow> graph \<Rightarrow> graph" where
  "inline_rule ID g t =
     map (\<lambda>w. inline_n (count_list (t ! ID) (int w)) (int ID) (g ! ID) (g ! w)) [0..<length g]"

lemma length_inline_rule [simp]: "length (inline_rule ID g t) = length g"
  by (simp add: inline_rule_def)

lemma inline_rule_nth:
  "w < length g \<Longrightarrow>
    inline_rule ID g t ! w = inline_n (count_list (t ! ID) (int w)) (int ID) (g ! ID) (g ! w)"
  by (simp add: inline_rule_def)

subsection \<open>The graph and its transpose while rules are merged\<close>

text \<open>
  \<open>D\<close> is the set of the rules merged so far.  Their rows stay in the graph but are no longer
  reachable; the transposed graph lists only rows that are still alive.
\<close>

definition transposes :: "graph \<Rightarrow> graph \<Rightarrow> nat set \<Rightarrow> bool" where
  "transposes g t D \<longleftrightarrow> length t = length g \<and>
     (\<forall>x<length g. x \<notin> D \<longrightarrow> (\<forall>w. count_list (t ! x) w =
        (if 0 \<le> w \<and> w < int (length g) \<and> nat w \<notin> D then count_list (g ! nat w) (int x) else 0)))"

definition merged_away :: "nat \<Rightarrow> graph \<Rightarrow> graph \<Rightarrow> graph \<Rightarrow> nat set \<Rightarrow> bool" where
  "merged_away n g0 g t D \<longleftrightarrow> wf_grammar g (int n) \<and> length g = length g0 \<and> transposes g t D \<and>
     D \<subseteq> {n..<length g} \<and>
     (\<forall>w<length g. w \<notin> D \<longrightarrow> (\<forall>d\<in>D. int d \<notin> set (g ! w))) \<and>
     (\<forall>x. n \<le> x \<and> x < length g \<longrightarrow> g ! x \<noteq> []) \<and>
     (\<forall>x. n \<le> x \<and> x < length g \<and> x \<notin> D \<longrightarrow> t ! x \<noteq> []) \<and>
     (\<forall>w<length g. expand_row (rows g0) (int n) (g ! w) = expand_row (rows g0) (int n) (g0 ! w))"

lemma transposesD:
  assumes "transposes g t D" "x < length g" "x \<notin> D"
  shows "0 \<le> w \<Longrightarrow> w < int (length g) \<Longrightarrow> nat w \<notin> D \<Longrightarrow> count_list (t ! x) w = count_list (g ! nat w) (int x)"
    and "\<not> (0 \<le> w \<and> w < int (length g) \<and> nat w \<notin> D) \<Longrightarrow> count_list (t ! x) w = 0"
  using assms by (auto simp: transposes_def)

lemma transposes_count:
  assumes "transposes g t D" "x < length g" "x \<notin> D" "w < length g" "w \<notin> D"
  shows "count_list (t ! x) (int w) = count_list (g ! w) (int x)"
  using transposesD(1) [OF assms(1-3), of "int w"] assms by simp

lemma merged_awayD:
  assumes "merged_away n g0 g t D"
  shows "wf_grammar g (int n)" "length g = length g0" "transposes g t D" "D \<subseteq> {n..<length g}"
    "\<And>w d. w < length g \<Longrightarrow> w \<notin> D \<Longrightarrow> d \<in> D \<Longrightarrow> int d \<notin> set (g ! w)"
    "\<And>x. n \<le> x \<Longrightarrow> x < length g \<Longrightarrow> g ! x \<noteq> []"
    "\<And>x. n \<le> x \<Longrightarrow> x < length g \<Longrightarrow> x \<notin> D \<Longrightarrow> t ! x \<noteq> []"
    "\<And>w. w < length g \<Longrightarrow> expand_row (rows g0) (int n) (g ! w) = expand_row (rows g0) (int n) (g0 ! w)"
    "length t = length g"
  using assms unfolding merged_away_def transposes_def by auto

lemma transposes_inline:
  assumes tr: "transposes g t D" and ID: "ID < length g" "ID \<notin> D" and self: "int ID \<notin> set (g ! ID)"
  shows "transposes (inline_rule ID g t) (inline_rule ID t g) (insert ID D)"
  unfolding transposes_def
proof (intro conjI allI impI)
  have len: "length t = length g" using tr by (simp add: transposes_def)
  then show "length (inline_rule ID t g) = length (inline_rule ID g t)" by simp
  fix x w assume "x < length (inline_rule ID g t)" "x \<notin> insert ID D"
  then have x: "x < length g" "x \<noteq> ID" "x \<notin> D" by auto
  have tID: "count_list (t ! ID) (int ID) = 0"
    using transposes_count [OF tr ID ID] self by simp
  have kx: "count_list (g ! ID) (int x) = count_list (t ! x) (int ID)"
    using transposes_count [OF tr x(1,3) ID] by simp
  have L: "count_list (inline_rule ID t g ! x) w =
      (if w = int ID then 0 else count_list (t ! x) w + count_list (g ! ID) (int x) * count_list (t ! ID) w)"
    using count_inline_n [of _ "t ! x" "int ID" "t ! ID" w] x len kx tID by (simp add: inline_rule_nth)
  show "count_list (inline_rule ID t g ! x) w =
      (if 0 \<le> w \<and> w < int (length (inline_rule ID g t)) \<and> nat w \<notin> insert ID D
       then count_list (inline_rule ID g t ! nat w) (int x) else 0)"
  proof (cases "0 \<le> w \<and> w < int (length g) \<and> nat w \<notin> D")
    case True
    have "count_list (t ! ID) w = count_list (g ! nat w) (int ID)"
      "count_list (t ! x) w = count_list (g ! nat w) (int x)"
      using True transposesD(1) [OF tr ID] transposesD(1) [OF tr x(1,3)] by auto
    moreover have "w = int ID \<longleftrightarrow> nat w = ID" using True by auto
    moreover have "inline_rule ID g t ! nat w = inline_n (count_list (t ! ID) w) (int ID) (g ! ID) (g ! nat w)"
      using inline_rule_nth [of "nat w" g ID t] True by (simp add: nat_less_iff)
    ultimately show ?thesis
      using L True x self count_inline_n [of _ "g ! nat w" "int ID" "g ! ID" "int x"]
      by (auto simp: inline_rule_nth mult.commute)
  next
    case False
    then have "count_list (t ! ID) w = 0" "count_list (t ! x) w = 0"
      using transposesD(2) [OF tr ID] transposesD(2) [OF tr x(1,3)] by auto
    then show ?thesis using L False by auto
  qed
qed

lemma merged_away_self:
  assumes "merged_away n g0 g t D" "n \<le> ID" "ID < length g"
  shows "int ID \<notin> set (g ! ID)"
  using orderedD(2) [OF wf_grammar_ordered [OF merged_awayD(1) [OF assms(1)]], of "int ID" "int ID"] assms
  by auto

lemma wf_inline:
  assumes M: "merged_away n g0 g t D" and ID: "n \<le> ID" "ID < length g" "ID \<notin> D"
  shows "wf_grammar (inline_rule ID g t) (int n)"
proof (rule wf_grammarI)
  note wf = merged_awayD(1) [OF M] and tr = merged_awayD(3) [OF M]
  show "0 \<le> int n" by simp
  show "int n \<le> int (length (inline_rule ID g t))" using wf by (simp add: wf_grammar_def)
  fix i y assume "i < length (inline_rule ID g t)" and y: "y \<in> set (inline_rule ID g t ! i)"
  then have i: "i < length g" by simp
  then have y': "y \<in> set (g ! i) \<or> y \<in> set (g ! ID)"
    using y set_inline_n by (fastforce simp: inline_rule_nth)
  then show "0 \<le> y \<and> y < int (length (inline_rule ID g t))"
    using wf_grammar_row [OF wf i] wf_grammar_row [OF wf ID(2)] by auto
  assume ni: "int n \<le> int i"
  note ord = wf_grammar_ordered [OF wf]
  show "y < int i"
  proof (cases "y \<in> set (g ! i)")
    case True
    then show ?thesis using orderedD(2) [OF ord, of "int i" y] ni i by simp
  next
    case False
    then have "count_list (t ! ID) (int i) \<noteq> 0"
      using y i by (auto simp: inline_rule_nth intro: ccontr)
    then have "int ID \<in> set (g ! i)"
      using transposesD [OF tr ID(2,3), of "int i"] i by (metis count_list_notin nat_int of_nat_0_le_iff)
    then have "int ID < int i" using orderedD(2) [OF ord, of "int i" "int ID"] ni i by simp
    moreover have "y < int ID" using y' False orderedD(2) [OF ord, of "int ID" y] ID by simp
    ultimately show ?thesis by simp
  qed
qed

lemma merged_away_inline:
  assumes M: "merged_away n g0 g t D" and wf0: "wf_grammar g0 (int n)"
    and ID: "n \<le> ID" "ID < length g" "ID \<notin> D"
  shows "merged_away n g0 (inline_rule ID g t) (inline_rule ID t g) (insert ID D)"
  unfolding merged_away_def
proof (intro conjI allI impI ballI)
  note [simp] = merged_awayD(2,9) [OF M] and self = merged_away_self [OF M ID(1,2)]
  note tr = merged_awayD(3) [OF M]
  show "wf_grammar (inline_rule ID g t) (int n)" by (rule wf_inline [OF M ID])
  show "transposes (inline_rule ID g t) (inline_rule ID t g) (insert ID D)"
    by (rule transposes_inline [OF tr ID(2,3) self])
  show "insert ID D \<subseteq> {n..<length (inline_rule ID g t)}" using merged_awayD(4) [OF M] ID by auto
  show "inline_rule ID g t ! x \<noteq> []" if "n \<le> x \<and> x < length (inline_rule ID g t)" for x
    using that merged_awayD(6) [OF M] ID by (simp add: inline_rule_nth inline_n_nonempty)
  show "inline_rule ID t g ! x \<noteq> []"
    if "n \<le> x \<and> x < length (inline_rule ID g t) \<and> x \<notin> insert ID D" for x
    using that merged_awayD(7) [OF M] ID by (simp add: inline_rule_nth inline_n_nonempty)
next
  fix w d assume w: "w < length (inline_rule ID g t)" "w \<notin> insert ID D" and d: "d \<in> insert ID D"
  have len: "w < length g" using w by simp
  have self: "int ID \<notin> set (g ! ID)" by (rule merged_away_self [OF M ID(1,2)])
  show "int d \<notin> set (inline_rule ID g t ! w)"
  proof (cases "d = ID")
    case True
    have "count_list (inline_rule ID g t ! w) (int ID) = 0"
      using count_inline_n [of _ "g ! w" "int ID" "g ! ID" "int ID"] w len self
        transposes_count [OF merged_awayD(3) [OF M] ID(2,3) len] by (simp add: inline_rule_nth)
    then show ?thesis using True by (simp add: count_list_0_iff)
  next
    case False
    then have "int d \<notin> set (g ! w)" "int d \<notin> set (g ! ID)"
      using merged_awayD(5) [OF M] w len d ID by auto
    then show ?thesis using set_inline_n len by (fastforce simp: inline_rule_nth)
  qed
next
  fix w assume "w < length (inline_rule ID g t)"
  then have w: "w < length g" by simp
  have "expand (rows g0) (int n) (int ID) = expand_row (rows g0) (int n) (g0 ! ID)"
    using expand_rule [OF wf_grammar_ordered [OF wf0], of "int ID"] ID merged_awayD(2) [OF M] by simp
  also have "\<dots> = expand_row (rows g0) (int n) (g ! ID)" using merged_awayD(8) [OF M] ID by simp
  finally show "expand_row (rows g0) (int n) (inline_rule ID g t ! w) = expand_row (rows g0) (int n) (g0 ! w)"
    using merged_awayD(8) [OF M w] w by (simp add: inline_rule_nth expand_row_inline_n)
qed (use merged_awayD(2) [OF M] in simp)

text \<open>The rules that Re-Pair makes: none is empty, and each is used somewhere.\<close>

definition sound_rules :: "nat \<Rightarrow> graph \<Rightarrow> bool" where
  "sound_rules n g \<longleftrightarrow> wf_grammar g (int n) \<and>
     (\<forall>x. n \<le> x \<and> x < length g \<longrightarrow> g ! x \<noteq> [] \<and> (\<exists>w<length g. int x \<in> set (g ! w)))"

lemma sound_rules_code [code]:
  "sound_rules n g \<longleftrightarrow> wf_grammar g (int n) \<and>
     list_all (\<lambda>x. g ! x \<noteq> [] \<and> list_ex (\<lambda>row. int x \<in> set row) g) [n..<length g]"
  by (auto simp: sound_rules_def list_all_iff list_ex_length)

definition transposed :: "graph \<Rightarrow> graph" where
  "transposed g = map (transposed_row g) [0..<length g]"

lemma merged_away_start:
  assumes "sound_rules n g"
  shows "merged_away n g g (transposed g) {}"
proof -
  have "transposed_row g x \<noteq> []" if "w < length g" "int x \<in> set (g ! w)" for x w
    using that count_transposed_row [of g x "int w"] by (auto simp: count_list_0_iff)
  then show ?thesis
    using assms count_transposed_row
    by (auto simp: merged_away_def transposes_def sound_rules_def transposed_def)
qed

text \<open>
  Sizes that merging cannot exceed: a row is no longer than what it expands to, and a rule
  occurs no more often than there are vertices in all the expanded rows.
\<close>

definition total_expansion :: "nat \<Rightarrow> graph \<Rightarrow> nat" where
  "total_expansion n g = sum_list (map (\<lambda>row. length (expand_row (rows g) (int n) row)) g)"

lemma length_expand_row_ge:
  "(\<And>y. y \<in> set row \<Longrightarrow> expand R n y \<noteq> []) \<Longrightarrow> length row \<le> length (expand_row R n row)"
proof (induction row)
  case (Cons y row)
  then have "0 < length (expand R n y)" "length row \<le> length (expand_row R n row)" by simp_all
  then have "Suc (length row) \<le> length (expand R n y) + length (expand_row R n row)" by linarith
  then show ?case by simp
qed simp

lemma merged_row_length:
  assumes M: "merged_away n g0 g t D" and sound: "sound_rules n g0" and w: "w < length g"
  shows "length (g ! w) \<le> length (expand_row (rows g0) (int n) (g0 ! w))"
proof -
  have wf0: "wf_grammar g0 (int n)" using sound by (simp add: sound_rules_def)
  have "g0 ! nat x \<noteq> []" if "int n \<le> x" "x < int (length g0)" for x
    using sound that unfolding sound_rules_def by (auto simp: nat_less_iff le_nat_iff)
  then have "expand (rows g0) (int n) y \<noteq> []" if "y \<in> set (g ! w)" for y
    using that wf_grammar_row [OF merged_awayD(1) [OF M] w] merged_awayD(2) [OF M]
    by (intro expand_nonempty [OF wf_grammar_ordered [OF wf0]]) auto
  then have "length (g ! w) \<le> length (expand_row (rows g0) (int n) (g ! w))"
    by (rule length_expand_row_ge)
  then show ?thesis using merged_awayD(8) [OF M w] by simp
qed

lemma merged_total_length:
  assumes M: "merged_away n g0 g t D" and sound: "sound_rules n g0"
  shows "(\<Sum>w<length g. length (g ! w)) \<le> total_expansion n g0"
proof -
  have "(\<Sum>w<length g. length (g ! w)) \<le> (\<Sum>w<length g. length (expand_row (rows g0) (int n) (g0 ! w)))"
    by (rule sum_mono) (use merged_row_length [OF M sound] in simp)
  also have "\<dots> = total_expansion n g0"
    using merged_awayD(2) [OF M]
    by (simp add: total_expansion_def sum_list_sum_nth atLeast0LessThan)
  finally show ?thesis .
qed

lemma transposed_length:
  assumes M: "merged_away n g0 g t D" and x: "x < length g" "x \<notin> D"
  shows "length (t ! x) = (\<Sum>w<length g. if w \<notin> D then count_list (g ! w) (int x) else 0)"
proof -
  note tr = merged_awayD(3) [OF M]
  have "set (t ! x) \<subseteq> int ` {..<length g}"
  proof
    fix w assume "w \<in> set (t ! x)"
    then have "count_list (t ! x) w \<noteq> 0" by (simp add: count_list_0_iff)
    then have "0 \<le> w" "w < int (length g)" using transposesD(2) [OF tr x, of w] by auto
    then show "w \<in> int ` {..<length g}" by (intro image_eqI [of _ _ "nat w"]) auto
  qed
  then have "length (t ! x) = (\<Sum>w<length g. count_list (t ! x) (int w))"
    by (simp add: sum_count_set [of _ "int ` {..<length g}"] sum.reindex flip: sum_count_set)
  also have "\<dots> = (\<Sum>w<length g. if w \<notin> D then count_list (g ! w) (int x) else 0)"
    using transposesD [OF tr x] by (intro sum.cong) auto
  finally show ?thesis .
qed

lemma merged_occurrences:
  assumes M: "merged_away n g0 g t D" and sound: "sound_rules n g0" and x: "x < length g" "x \<notin> D"
  shows "length (t ! x) \<le> total_expansion n g0"
proof -
  have "length (t ! x) \<le> (\<Sum>w<length g. length (g ! w))"
    unfolding transposed_length [OF M x] by (intro sum_mono) (simp add: count_le_length)
  also have "\<dots> \<le> total_expansion n g0" by (rule merged_total_length [OF M sound])
  finally show ?thesis .
qed

subsection \<open>Inlining one occurrence at a time\<close>

text \<open>
  The state of a merging loop after the rows in \<open>pre\<close> were visited: each had one occurrence
  of \<open>ID\<close> replaced per visit.  The loops run over \<open>t ! ID\<close>, and \<open>inline_rule\<close> is where they end.
\<close>

definition inline_upto :: "nat \<Rightarrow> graph \<Rightarrow> int list \<Rightarrow> graph" where
  "inline_upto ID g pre =
     map (\<lambda>w. inline_n (count_list pre (int w)) (int ID) (g ! ID) (g ! w)) [0..<length g]"

lemma length_inline_upto [simp]: "length (inline_upto ID g pre) = length g"
  by (simp add: inline_upto_def)

lemma inline_upto_nth [simp]:
  "w < length g \<Longrightarrow>
    inline_upto ID g pre ! w = inline_n (count_list pre (int w)) (int ID) (g ! ID) (g ! w)"
  by (simp add: inline_upto_def)

lemma inline_upto_Nil: "inline_upto ID g [] = g"
  by (simp add: inline_upto_def map_nth)

lemma inline_upto_all: "inline_upto ID g (t ! ID) = inline_rule ID g t"
  by (simp add: inline_upto_def inline_rule_def)

lemma inline_upto_self:
  "ID < length g \<Longrightarrow> int ID \<notin> set (g ! ID) \<Longrightarrow> inline_upto ID g pre ! ID = g ! ID"
  by (simp add: inline_n_id)

lemma inline_upto_snoc:
  assumes "x < length g" "int ID \<notin> set (g ! ID)" "count_list pre (int x) < count_list (g ! x) (int ID)"
  shows "splice_first (int ID) (g ! ID) (inline_upto ID g pre ! x) = Some (inline_upto ID g (pre @ [int x]) ! x)"
    and "(inline_upto ID g pre)[x := inline_upto ID g (pre @ [int x]) ! x] = inline_upto ID g (pre @ [int x])"
  using assms splice_first_inline_n [of "int ID" "g ! ID" "count_list pre (int x)" "g ! x"]
  by (auto intro!: nth_equalityI simp: nth_list_update)

text \<open>A row on the way is no longer than at the end.\<close>

lemma length_inline_upto_le:
  assumes "x < length g" "g ! ID \<noteq> []" "count_list pre (int x) \<le> count_list all (int x)"
    and "count_list all (int x) \<le> count_list (g ! x) (int ID)"
  shows "length (inline_upto ID g pre ! x) \<le> length (inline_upto ID g all ! x)"
proof -
  have "int (count_list pre (int x)) * (int (length (g ! ID)) - 1)
      \<le> int (count_list all (int x)) * (int (length (g ! ID)) - 1)"
    using assms by (intro mult_right_mono) (auto simp: Suc_le_eq)
  then have "int (length (inline_upto ID g pre ! x)) \<le> int (length (inline_upto ID g all ! x))"
    using assms by (simp add: length_inline_n)
  then show ?thesis by simp
qed

text \<open>
  What a loop over the users (or over the row) of \<open>ID\<close> needs of each element it visits.
\<close>

lemma merged_away_user:
  assumes M: "merged_away n g0 g t D" and ID: "n \<le> ID" "ID < length g" "ID \<notin> D"
    and "t ! ID = pre @ x # post"
  obtains w where "x = int w" "w < length g" "w \<notin> D" "w \<noteq> ID" "n \<le> w \<Longrightarrow> ID < w"
    "count_list (t ! ID) x = count_list (g ! w) (int ID)" "count_list pre x < count_list (g ! w) (int ID)"
proof -
  note tr = merged_awayD(3) [OF M]
  have pos: "0 < count_list (t ! ID) x" using assms(5) by simp
  then have x: "0 \<le> x" "x < int (length g)" "nat x \<notin> D" using transposesD(2) [OF tr ID(2,3), of x] by auto
  have c: "count_list (t ! ID) x = count_list (g ! nat x) (int ID)"
    by (rule transposesD(1) [OF tr ID(2,3) x])
  have mem: "int ID \<in> set (g ! nat x)" using pos c by (metis count_list_notin less_numeral_extra(3))
  have "ID < nat x" if "n \<le> nat x"
    using orderedD(2) [OF wf_grammar_ordered [OF merged_awayD(1) [OF M]], of x "int ID"] that mem x
    by (simp add: le_nat_iff)
  moreover have "nat x \<noteq> ID" using mem merged_away_self [OF M ID(1,2)] by auto
  moreover have "count_list pre x < count_list (t ! ID) x" using assms(5) by simp
  ultimately show ?thesis using that [of "nat x"] x c by simp
qed

lemma merged_away_child:
  assumes M: "merged_away n g0 g t D" and ID: "n \<le> ID" "ID < length g" "ID \<notin> D"
    and "g ! ID = pre @ x # post"
  obtains w where "x = int w" "w < length g" "w \<notin> D" "w < ID"
    "count_list (g ! ID) x = count_list (t ! w) (int ID)" "count_list pre x < count_list (t ! w) (int ID)"
proof -
  have mem: "x \<in> set (g ! ID)" using assms(5) by simp
  have x: "0 \<le> x" "x < int (length g)" using wf_grammar_row [OF merged_awayD(1) [OF M] ID(2) mem] by auto
  have lt: "nat x < ID"
    using orderedD(2) [OF wf_grammar_ordered [OF merged_awayD(1) [OF M]], of "int ID" x] ID mem x
    by (simp add: nat_less_iff)
  have D: "nat x \<notin> D" using merged_awayD(5) [OF M ID(2,3), of "nat x"] mem x by auto
  have "count_list (t ! nat x) (int ID) = count_list (g ! ID) x"
    using transposes_count [OF merged_awayD(3) [OF M] _ D ID(2,3)] x by (simp add: nat_less_iff)
  moreover have "count_list pre x < count_list (g ! ID) x" using assms(5) by simp
  ultimately show ?thesis using that [of "nat x"] x D lt by (simp add: nat_less_iff)
qed

lemma length_splice_first:
  "splice_first a ins row = Some row' \<Longrightarrow> int (length row') = int (length row) + (int (length ins) - 1)"
  by (induction a ins row arbitrary: row' rule: splice_first.induct) (auto split: if_splits)

subsection \<open>The interface of a pass over the rules\<close>

text \<open>
  A pass visits the rules in order.  Its body, \<open>step\<close>, either leaves the two graphs alone or
  inlines the rule it visits; \<open>aux\<close> is what the component keeps besides the graphs, after
  \<open>j\<close> rules were visited and the rules \<open>D\<close> are merged.  The lemma \<open>pass\<close> is all that the callers
  need: the pass returns, and every row still expands to what it did.
\<close>

locale rule_merger =
  fixes graph_of :: "'s \<Rightarrow> graph"
    and graphT_of :: "'s \<Rightarrow> graph"
    and step :: "'c \<Rightarrow> int \<Rightarrow> 's \<Rightarrow> 's option"
    and picks :: "'c \<Rightarrow> nat \<Rightarrow> 's \<Rightarrow> bool"
    and aux :: "'c \<Rightarrow> nat \<Rightarrow> nat \<Rightarrow> graph \<Rightarrow> nat set \<Rightarrow> 's \<Rightarrow> bool"
  assumes merges: "\<lbrakk>merged_away n g0 (graph_of s) (graphT_of s) D; sound_rules n g0; aux c n j g0 D s;
      n + j < length g0; picks c j s\<rbrakk> \<Longrightarrow>
      n + j \<notin> D \<and> (\<exists>s'. step c (int j) s = Some s' \<and>
        graph_of s' = inline_rule (n + j) (graph_of s) (graphT_of s) \<and>
        graphT_of s' = inline_rule (n + j) (graphT_of s) (graph_of s) \<and>
        aux c n (Suc j) g0 (insert (n + j) D) s')"
    and skips: "\<lbrakk>merged_away n g0 (graph_of s) (graphT_of s) D; sound_rules n g0; aux c n j g0 D s;
      n + j < length g0; \<not> picks c j s\<rbrakk> \<Longrightarrow>
      \<exists>s'. step c (int j) s = Some s' \<and> graph_of s' = graph_of s \<and> graphT_of s' = graphT_of s \<and>
        aux c n (Suc j) g0 D s'"
begin

lemma pass:
  assumes "merged_away n g0 (graph_of s) (graphT_of s) D" "sound_rules n g0" "aux c n 0 g0 D s"
    and "length g0 = n + r"
  shows "\<exists>s' D'. for_range 0 (int r) (step c) s = Some s' \<and> D \<subseteq> D' \<and>
    merged_away n g0 (graph_of s') (graphT_of s') D' \<and> aux c n r g0 D' s'"
proof -
  let ?I = "\<lambda>j s. \<exists>D'. D \<subseteq> D' \<and> merged_away n g0 (graph_of s) (graphT_of s) D' \<and> aux c n j g0 D' s"
  have "\<exists>s'. for_range 0 (int r) (step c) s = Some s' \<and> ?I r s'"
  proof (rule for_range_nat_rule)
    fix j s assume j: "j < r" and "?I j s"
    then obtain D' where D': "D \<subseteq> D'" and M: "merged_away n g0 (graph_of s) (graphT_of s) D'"
      and A: "aux c n j g0 D' s" by blast
    have lt: "n + j < length g0" using j assms(4) by simp
    have wf0: "wf_grammar g0 (int n)" using assms(2) by (simp add: sound_rules_def)
    show "\<exists>s'. step c (int j) s = Some s' \<and> ?I (Suc j) s'"
    proof (cases "picks c j s")
      case True
      then obtain s' where notin: "n + j \<notin> D'" and s': "step c (int j) s = Some s'"
        "graph_of s' = inline_rule (n + j) (graph_of s) (graphT_of s)"
        "graphT_of s' = inline_rule (n + j) (graphT_of s) (graph_of s)"
        "aux c n (Suc j) g0 (insert (n + j) D') s'"
        using merges [OF M assms(2) A lt] by blast
      have "merged_away n g0 (graph_of s') (graphT_of s') (insert (n + j) D')"
        using merged_away_inline [OF M wf0, of "n + j"] notin lt merged_awayD(2) [OF M] s' by simp
      then show ?thesis using s' D' by blast
    next
      case False
      then show ?thesis using skips [OF M assms(2) A lt] M D' by (metis (full_types))
    qed
  qed (use assms in blast)
  then show ?thesis by blast
qed

end

lemma merged_away_neighbours:
  assumes M: "merged_away n g0 g t D" and wf0: "wf_grammar g0 (int n)" and v: "v < length g"
  shows "neighbours g (int n) v = neighbours g0 (int n) v"
proof -
  have len: "length g = length g0" by (rule merged_awayD(2) [OF M])
  have "expand (rows g) (int n) x = expand (rows g0) (int n) x" if "0 \<le> x" "x < int (length g)" for x
    using that len merged_awayD(8) [OF M]
    by (intro expand_rewrite [OF wf_grammar_ordered [OF wf0]])
      (auto intro: wf_grammar_ordered [OF merged_awayD(1) [OF M], unfolded len])
  then have "expand_row (rows g) (int n) (g ! v) = expand_row (rows g0) (int n) (g ! v)"
    using wf_grammar_row [OF merged_awayD(1) [OF M] v] by (intro arg_cong [of _ _ concat] map_cong) auto
  then show ?thesis using merged_awayD(8) [OF M v] by (simp add: neighbours_def)
qed

subsection \<open>Dropping the merged rules\<close>

text \<open>The flags mark exactly the merged rules.\<close>

definition flags_merged :: "nat \<Rightarrow> nat set \<Rightarrow> bool list \<Rightarrow> bool" where
  "flags_merged n D flag \<longleftrightarrow> (\<forall>i<length flag. flag ! i \<longleftrightarrow> n + i \<in> D)"

lemma keeps_not_merged:
  assumes "merged_away n g0 g t D" "flags_merged n D flag" "length g = n + length flag" "i < length g"
  shows "keeps n flag i \<longleftrightarrow> i \<notin> D"
proof (cases "i < n")
  case True
  then show ?thesis using merged_awayD(4) [OF assms(1)] by (auto simp: keeps_def)
next
  case False
  then obtain k where "i = n + k" using le_Suc_ex not_less by blast
  then show ?thesis using assms by (simp add: keeps_def flags_merged_def)
qed

lemma merged_drops_unused:
  assumes M: "merged_away n g0 g t D" and F: "flags_merged n D flag" "length g = n + length flag"
  shows "drops_unused g n (keeps n flag)"
  unfolding drops_unused_def
proof (intro conjI allI impI ballI)
  fix i y assume i: "i < length g" "keeps n flag i" and y: "y \<in> set (g ! i)"
  have y_range: "0 \<le> y" "y < int (length g)" using wf_grammar_row [OF merged_awayD(1) [OF M] i(1) y] by auto
  have "nat y \<notin> D"
    using merged_awayD(5) [OF M i(1), of "nat y"] i keeps_not_merged [OF M F i(1)] y y_range by auto
  then show "keeps n flag (nat y)"
    using keeps_not_merged [OF M F, of "nat y"] y_range by (simp add: nat_less_iff)
qed (use merged_awayD(1) [OF M] in simp_all)

lemma length_concat_drop_rows: "length (concat (drop_rows keep g k)) \<le> (\<Sum>w<k. length (g ! w))"
  by (induction k) (auto simp: drop_rows_Suc)

text \<open>What the output of a pass is, as the callers state it.\<close>

lemma merged_output:
  assumes M: "merged_away n g0 g t D" and sound: "sound_rules n g0"
    and F: "flags_merged n D flag" "length g = n + length flag"
  defines "g' \<equiv> drop_rows (keeps n flag) g (length g)"
  shows "wf_grammar g' (int n)" "v < n \<Longrightarrow> neighbours g' (int n) v = neighbours g0 (int n) v"
    "length (concat g') \<le> total_expansion n g0" "n \<le> length g'" "length g' \<le> length g0"
proof -
  note drops = merged_drops_unused [OF M F]
  have wf0: "wf_grammar g0 (int n)" using sound by (simp add: sound_rules_def)
  show wf: "wf_grammar g' (int n)" unfolding g'_def by (rule wf_dropped [OF drops])
  then show "n \<le> length g'" by (simp add: wf_grammar_def)
  show "length g' \<le> length g0"
    using merged_awayD(2) [OF M] length_filter_le [of "keeps n flag" "[0..<length g]"]
    by (simp add: g'_def kept_index_def)
  show "length (concat g') \<le> total_expansion n g0"
    using length_concat_drop_rows [of "keeps n flag" g "length g"] merged_total_length [OF M sound]
    by (simp add: g'_def)
  show "neighbours g' (int n) v = neighbours g0 (int n) v" if "v < n"
    using neighbours_dropped [OF drops that] merged_away_neighbours [OF M wf0, of v] that F(2)
    by (simp add: g'_def)
qed

lemma offsets_bound: "x \<in> set (offsets g) \<Longrightarrow> 0 \<le> x \<and> x \<le> int (length (concat g))"
  using length_concat_take by (auto simp: offsets_def simp del: upt_Suc)

text \<open>The conversion of a result to 32-bit arrays changes nothing while the sizes fit.\<close>

lemma csr_to_i32:
  assumes "wf_grammar g' (int n)" "length (concat g') < 2 ^ 31" "length g' \<le> 2 ^ 31"
  shows "map to_i32 (offsets g') = offsets g'" "map to_i32 (concat g') = concat g'"
proof -
  have c: "int (length (concat g')) < 2 ^ 31" and g: "int (length g') \<le> 2 ^ 31"
    using assms(2,3) by (simp_all only: of_nat_less_numeral_power_cancel_iff of_nat_le_numeral_power_cancel_iff)
  have "to_i32 x = x" if "x \<in> set (offsets g')" for x
    using offsets_bound [OF that] c by (intro to_i32_id) linarith+
  then show "map to_i32 (offsets g') = offsets g'" by (simp add: map_idI)
  have "to_i32 x = x" if x: "x \<in> set (concat g')" for x
  proof -
    obtain i where "i < length g'" "x \<in> set (g' ! i)" using x by (auto simp: in_set_conv_nth [of _ g'])
    then have "0 \<le> x \<and> x < int (length g')" by (rule wf_grammar_row [OF assms(1)])
    then show ?thesis using g by (intro to_i32_id) linarith+
  qed
  then show "map to_i32 (concat g') = concat g'" by (rule map_idI)
qed

text \<open>The occurrences of a kept rule in the output are those the transposed graph lists.\<close>

lemma renumber_inj:
  assumes "keep (nat x)" "keep (nat y)" "0 \<le> x" "0 \<le> y"
  shows "renumber keep x = renumber keep y \<longleftrightarrow> x = y"
proof (cases "nat x" "nat y" rule: linorder_cases)
  case less
  then show ?thesis using kept_index_less [of keep, OF assms(1) less] by (auto simp: renumber_def)
next
  case greater
  then show ?thesis using kept_index_less [of keep, OF assms(2) greater] by (auto simp: renumber_def)
qed (use assms in auto)

lemma count_list_map_inj:
  "(\<And>y. y \<in> set ys \<Longrightarrow> f y = f x \<longleftrightarrow> y = x) \<Longrightarrow> count_list (map f ys) (f x) = count_list ys x"
  by (induction ys) auto

lemma count_drop_rows:
  assumes drops: "drops_unused g n keep" and x: "keep x" and "k \<le> length g"
  shows "count_list (concat (drop_rows keep g k)) (int (kept_index keep x))
    = (\<Sum>w<k. if keep w then count_list (g ! w) (int x) else 0)"
  using assms(3)
proof (induction k)
  case (Suc k)
  have "renumber keep y = renumber keep (int x) \<longleftrightarrow> y = int x" if "keep k" "y \<in> set (g ! k)" for y
    using that drops_unusedD(4) [OF drops, of k y] wf_grammar_row [OF drops_unusedD(1) [OF drops], of k y] Suc.prems x
    by (intro renumber_inj) auto
  then have "keep k \<Longrightarrow> count_list (map (renumber keep) (g ! k)) (renumber keep (int x)) = count_list (g ! k) (int x)"
    by (intro count_list_map_inj) auto
  then show ?case using Suc by (simp add: drop_rows_Suc renumber_def)
qed simp

lemma merged_uses:
  assumes M: "merged_away n g0 g t D" and F: "flags_merged n D flag" "length g = n + length flag"
    and x: "x < length g" "x \<notin> D"
  shows "count_list (concat (drop_rows (keeps n flag) g (length g))) (int (kept_index (keeps n flag) x))
    = length (t ! x)"
proof -
  have "keeps n flag x" using keeps_not_merged [OF M F x(1)] x by simp
  then have "count_list (concat (drop_rows (keeps n flag) g (length g))) (int (kept_index (keeps n flag) x))
      = (\<Sum>w<length g. if keeps n flag w then count_list (g ! w) (int x) else 0)"
    by (rule count_drop_rows [OF merged_drops_unused [OF M F]]) simp
  also have "\<dots> = length (t ! x)"
    unfolding transposed_length [OF M x] using keeps_not_merged [OF M F] by (intro sum.cong) auto
  finally show ?thesis .
qed

text \<open>The two graphs a pass starts from, and the arrays it returns.\<close>

lemma input_graphs:
  assumes wf: "wf_csr (n + r) vlist elist" and sound: "sound_rules n (csr_graph (n + r) vlist elist)"
  shows "csr_convert (replicate (n + r) []) vlist elist (int n + int r) = Some (csr_graph (n + r) vlist elist)"
    and "csr_convert_idx (replicate (n + r) []) vlist elist (int n + int r) = Some (transposed (csr_graph (n + r) vlist elist))"
proof -
  have "wf_grammar (csr_graph (n + r) vlist elist) (int n)" using sound by (simp add: sound_rules_def)
  then have "0 \<le> x \<and> x < int (n + r)" if "i < n + r" "x \<in> set (csr_row vlist elist i)" for i x
    using wf_grammar_row [of _ _ i x] that by fastforce
  then show "csr_convert_idx (replicate (n + r) []) vlist elist (int n + int r) = Some (transposed (csr_graph (n + r) vlist elist))"
    using csr_convert_idx_graph [OF wf, of "n + r"] by (simp add: transposed_def)
qed (use csr_convert_graph [OF wf] in simp)

lemma merged_arrays:
  assumes M: "merged_away n g0 g t D" and sound: "sound_rules n g0"
    and F: "flags_merged n D flag" "length flag = r" "length g = n + r"
    and sizes: "total_expansion n g0 < 2 ^ 31" "n + r < 2 ^ 31"
  defines "g' \<equiv> drop_rows (keeps n flag) g (length g)"
    and "ids \<equiv> map (\<lambda>i. int (kept_index (keeps n flag) (n + i))) [0..<r]"
  shows "genNewIdForRule (replicate r 0) flag (int n) (int r) = Some (ids, int (length g' - n))"
    and "genNewGraphCSR [] [] g ids flag (int n) = Some (offsets g', concat g')"
    and "map to_i32 (offsets g') = offsets g'" "map to_i32 (concat g') = concat g'"
proof -
  have F': "length g = n + length flag" using F by simp
  note out = merged_output [OF M sound F(1) F', folded g'_def]
  have "0 \<le> y \<and> y < int (length g)" if "row \<in> set g" "y \<in> set row" for row y
    using that wf_grammar_row [OF merged_awayD(1) [OF M]] by (metis in_set_conv_nth)
  then show "genNewGraphCSR [] [] g ids flag (int n) = Some (offsets g', concat g')"
    using genNewGraphCSR_rows [of g n r flag] F by (simp add: g'_def ids_def)
  show "genNewIdForRule (replicate r 0) flag (int n) (int r) = Some (ids, int (length g' - n))"
    using genNewIdForRule_ids [of "replicate r 0" r flag n] out(4) F by (simp add: g'_def ids_def of_nat_diff)
  show "map to_i32 (offsets g') = offsets g'" "map to_i32 (concat g') = concat g'"
    using out(1,3,5) sizes merged_awayD(2) [OF M] F by (auto intro!: csr_to_i32)
qed

text \<open>
  The plain merge of a rule, as the loops over its users and over its row do it: the first
  occurrence of \<open>ID\<close> in the row of \<open>node\<close> is replaced by the row of \<open>ID\<close>.
\<close>

definition splice_row :: "int \<Rightarrow> int \<Rightarrow> graph \<Rightarrow> graph option" where
  "splice_row ID node graph = do {
     row \<leftarrow> vec_at graph node;
     sub \<leftarrow> vec_at graph ID;
     row' \<leftarrow> (if node = ID then None else splice_first ID sub row);
     vec_set graph node row'
   }"

lemma splice_row_run:
  assumes self: "ID < length g" "int ID \<notin> set (g ! ID)"
    and visits: "\<And>pre x post. users = pre @ x # post \<Longrightarrow>
      \<exists>w. x = int w \<and> w < length g \<and> w \<noteq> ID \<and> count_list pre x < count_list (g ! w) (int ID)"
  shows "for_each (splice_row (int ID)) users g = Some (inline_upto ID g users)"
proof -
  have "\<exists>g'. for_each (splice_row (int ID)) users g = Some g' \<and> g' = inline_upto ID g users"
  proof (rule for_each_rule [where I = "\<lambda>pre g'. g' = inline_upto ID g pre"])
    fix pre x post g' assume split: "users = pre @ x # post" and I: "g' = inline_upto ID g pre"
    obtain w where w: "x = int w" "w < length g" "w \<noteq> ID" "count_list pre x < count_list (g ! w) (int ID)"
      using visits [OF split] by auto
    then show "\<exists>g''. splice_row (int ID) x g' = Some g'' \<and> g'' = inline_upto ID g (pre @ [x])"
      using inline_upto_snoc [of w g ID pre] inline_upto_self [of ID g pre] I self
      by (simp add: splice_row_def vec_at_nat vec_set_nat)
  qed (simp add: inline_upto_Nil)
  then show ?thesis by simp
qed

lemma splice_users:
  assumes M: "merged_away n g0 g t D" and ID: "n \<le> ID" "ID < length g" "ID \<notin> D"
  shows "for_each (splice_row (int ID)) (t ! ID) g = Some (inline_rule ID g t)"
    and "for_each (splice_row (int ID)) (g ! ID) t = Some (inline_rule ID t g)"
    and "inline_rule ID g t ! ID = g ! ID"
proof -
  note lent [simp] = merged_awayD(9) [OF M] and self = merged_away_self [OF M ID(1,2)]
  have selfT: "int ID \<notin> set (t ! ID)"
    using transposes_count [OF merged_awayD(3) [OF M] ID(2,3) ID(2,3)] self by (simp add: count_list_0_iff)
  show "inline_rule ID g t ! ID = g ! ID"
    using inline_upto_self [OF ID(2) self] by (simp flip: inline_upto_all)
  have "\<exists>w. x = int w \<and> w < length g \<and> w \<noteq> ID \<and> count_list pre x < count_list (g ! w) (int ID)"
    if "t ! ID = pre @ x # post" for pre x post
    using merged_away_user [OF M ID that] by metis
  then show "for_each (splice_row (int ID)) (t ! ID) g = Some (inline_rule ID g t)"
    unfolding inline_upto_all [symmetric] by (rule splice_row_run [OF ID(2) self])
  have "\<exists>w. x = int w \<and> w < length t \<and> w \<noteq> ID \<and> count_list pre x < count_list (t ! w) (int ID)"
    if "g ! ID = pre @ x # post" for pre x post
    using merged_away_child [OF M ID that] by (metis lent less_irrefl)
  then show "for_each (splice_row (int ID)) (g ! ID) t = Some (inline_rule ID t g)"
    unfolding inline_upto_all [symmetric] using ID selfT by (intro splice_row_run) auto
qed

end
