(* ===== verification/Rule_Filter.thy ===== *)
theory Rule_Filter
  imports Inlining
begin

text \<open>
  The rule filter of the serial compressor, \<open>compress_op/filter.h\<close>.  A rule whose use saves too
  little, as \<open>judgeRule\<close> computes from its length and its number of uses, is merged away: its
  row is inlined where it is used and the rule is dropped from the output.  The lengths, uses
  and flags of the remaining rules are updated as rows grow.
\<close>

subsection \<open>The code\<close>

record rule_info =
  len :: int
  freq :: int

text \<open>What the loops of the filter update: \<open>graph\<close>, \<open>graphT\<close>, \<open>rif\<close> and \<open>merge_flag\<close>.\<close>

record filter_state =
  fs_graph :: graph
  fs_graphT :: graph
  fs_rif :: "rule_info list"
  fs_flag :: "bool list"

text \<open>\<open>(freq - 1) * (len - 1) - 1 <= threshold\<close>, in \<open>int\<close> arithmetic.\<close>

definition judgeRule :: "int \<Rightarrow> int \<Rightarrow> int \<Rightarrow> bool option" where
  "judgeRule threshold l f = do {
     a \<leftarrow> i32_arith (f - 1);
     b \<leftarrow> i32_arith (l - 1);
     c \<leftarrow> i32_arith (a * b);
     d \<leftarrow> i32_arith (c - 1);
     Some (d \<le> threshold)
   }"

text \<open>
  One iteration of the first loop of \<open>mergeRule\<close>: the occurrence of \<open>ID\<close> in the row of its
  parent \<open>node\<close> is replaced by the row of \<open>ID\<close>.  Inserting a range of a vector into that same
  vector has no defined behaviour.
\<close>

definition merge_parent :: "int \<Rightarrow> int \<Rightarrow> int \<Rightarrow> int \<Rightarrow> filter_state \<Rightarrow> filter_state option" where
  "merge_parent threshold vertex_cnt ID node st = do {
     row \<leftarrow> vec_at (fs_graph st) node;
     sub \<leftarrow> vec_at (fs_graph st) ID;
     row' \<leftarrow> (if node = ID then None else splice_first ID sub row);
     graph' \<leftarrow> vec_set (fs_graph st) node row';
     if vertex_cnt \<le> node then do {
       info \<leftarrow> vec_at (fs_rif st) (node - vertex_cnt);
       let info' = info\<lparr>len := to_i32 (len info + (int (length sub) - 1))\<rparr>;
       rif' \<leftarrow> vec_set (fs_rif st) (node - vertex_cnt) info';
       flag \<leftarrow> judgeRule threshold (len info') (freq info');
       merge_flag' \<leftarrow> vec_set (fs_flag st) (node - vertex_cnt) flag;
       Some (st\<lparr>fs_graph := graph', fs_rif := rif', fs_flag := merge_flag'\<rparr>)
     } else Some (st\<lparr>fs_graph := graph'\<rparr>)
   }"

text \<open>One iteration of the second loop: the users of \<open>ID\<close> become users of its child.\<close>

definition merge_child :: "int \<Rightarrow> int \<Rightarrow> int \<Rightarrow> int \<Rightarrow> filter_state \<Rightarrow> filter_state option" where
  "merge_child threshold vertex_cnt ID child_id st = do {
     users \<leftarrow> vec_at (fs_graphT st) child_id;
     sup \<leftarrow> vec_at (fs_graphT st) ID;
     users' \<leftarrow> (if child_id = ID then None else splice_first ID sup users);
     graphT' \<leftarrow> vec_set (fs_graphT st) child_id users';
     if vertex_cnt \<le> child_id then do {
       info \<leftarrow> vec_at (fs_rif st) (child_id - vertex_cnt);
       let info' = info\<lparr>freq := to_i32 (int (length users'))\<rparr>;
       rif' \<leftarrow> vec_set (fs_rif st) (child_id - vertex_cnt) info';
       flag \<leftarrow> judgeRule threshold (len info') (freq info');
       merge_flag' \<leftarrow> vec_set (fs_flag st) (child_id - vertex_cnt) flag;
       Some (st\<lparr>fs_graphT := graphT', fs_rif := rif', fs_flag := merge_flag'\<rparr>)
     } else Some (st\<lparr>fs_graphT := graphT'\<rparr>)
   }"

text \<open>
  The first loop does not change \<open>graphT[ID]\<close>, nor the second \<open>graph[ID]\<close>, so each runs over a
  fixed vector.
\<close>

definition mergeRule :: "int \<Rightarrow> int \<Rightarrow> int \<Rightarrow> filter_state \<Rightarrow> filter_state option" where
  "mergeRule threshold vertex_cnt rule_id st = do {
     let ID = rule_id + vertex_cnt;
     parents \<leftarrow> vec_at (fs_graphT st) ID;
     st1 \<leftarrow> for_each (merge_parent threshold vertex_cnt ID) parents st;
     children \<leftarrow> vec_at (fs_graph st1) ID;
     for_each (merge_child threshold vertex_cnt ID) children st1
   }"

definition initInfoForRule :: "int \<Rightarrow> int \<Rightarrow> int \<Rightarrow> filter_state \<Rightarrow> filter_state option" where
  "initInfoForRule threshold vertex_cnt rule_cnt st =
     for_range 0 rule_cnt (\<lambda>i st. do {
       users \<leftarrow> vec_at (fs_graphT st) (i + vertex_cnt);
       row \<leftarrow> vec_at (fs_graph st) (i + vertex_cnt);
       let info = \<lparr>len = to_i32 (int (length row)), freq = to_i32 (int (length users))\<rparr>;
       rif' \<leftarrow> vec_set (fs_rif st) i info;
       flag \<leftarrow> judgeRule threshold (len info) (freq info);
       merge_flag' \<leftarrow> vec_set (fs_flag st) i flag;
       Some (st\<lparr>fs_rif := rif', fs_flag := merge_flag'\<rparr>)
     }) st"

text \<open>The body of the merging loop of \<open>filter_csr\<close>.\<close>

definition filter_step :: "int \<times> int \<Rightarrow> int \<Rightarrow> filter_state \<Rightarrow> filter_state option" where
  "filter_step c i st = do {
     flag \<leftarrow> vec_at (fs_flag st) i;
     if flag = True then mergeRule (fst c) (snd c) i st else Some st
   }"

text \<open>
  The result vectors are returned through \<open>py::array_t<int>\<close>, which converts their 64-bit
  entries to \<open>int\<close>.
\<close>

definition filter_csr ::
  "int list \<Rightarrow> int list \<Rightarrow> int \<Rightarrow> int \<Rightarrow> int \<Rightarrow> (int list \<times> int list \<times> int \<times> int) option" where
  "filter_csr vlist elist vertex_cnt rule_cnt threshold = do {
     let size = nat (vertex_cnt + rule_cnt);
     graph \<leftarrow> csr_convert (replicate size []) vlist elist (vertex_cnt + rule_cnt);
     graphT \<leftarrow> csr_convert_idx (replicate size []) vlist elist (vertex_cnt + rule_cnt);
     st \<leftarrow> initInfoForRule threshold vertex_cnt rule_cnt
       \<lparr>fs_graph = graph, fs_graphT = graphT,
        fs_rif = replicate (nat rule_cnt) \<lparr>len = 0, freq = 0\<rparr>, fs_flag = replicate (nat rule_cnt) False\<rparr>;
     st \<leftarrow> for_range 0 rule_cnt (filter_step (threshold, vertex_cnt)) st;
     (newRuleId, newRule_cnt) \<leftarrow>
       genNewIdForRule (replicate (nat rule_cnt) 0) (fs_flag st) vertex_cnt rule_cnt;
     (new_vlist, new_elist) \<leftarrow> genNewGraphCSR [] [] (fs_graph st) newRuleId (fs_flag st) vertex_cnt;
     Some (map to_i32 new_vlist, map to_i32 new_elist, vertex_cnt, newRule_cnt)
   }"

subsection \<open>Lengths, uses and flags stay in step with the graphs\<close>

definition judges :: "int \<Rightarrow> int \<Rightarrow> int \<Rightarrow> bool" where
  "judges threshold l f \<longleftrightarrow> (f - 1) * (l - 1) - 1 \<le> threshold"

text \<open>Sizes for which \<open>judgeRule\<close> does not overflow.\<close>

definition judge_fits :: "int \<Rightarrow> int \<Rightarrow> bool" where
  "judge_fits l f \<longleftrightarrow> 0 < l \<and> 0 < f \<and> l * f < 2 ^ 31"

lemma judge_fits_mono:
  "judge_fits l f \<Longrightarrow> 0 < l' \<Longrightarrow> l' \<le> l \<Longrightarrow> 0 < f' \<Longrightarrow> f' \<le> f \<Longrightarrow> judge_fits l' f'"
  unfolding judge_fits_def using mult_mono [of l' l f' f] by auto

lemma judge_fits_bounds:
  assumes "judge_fits l f"
  shows "l < 2 ^ 31" "f < 2 ^ 31"
  using judge_fits_mono [OF assms, of l 1] judge_fits_mono [OF assms, of 1 f] assms
  by (auto simp: judge_fits_def)

lemma judgeRule_judges:
  assumes "judge_fits l f"
  shows "judgeRule threshold l f = Some (judges threshold l f)"
proof -
  have "judge_fits (l - 1) (f - 1) \<or> l = 1 \<or> f = 1"
    using judge_fits_mono [OF assms, of "l - 1" "f - 1"] assms by (auto simp: judge_fits_def)
  moreover define p where "p = (f - 1) * (l - 1)"
  ultimately have "0 \<le> p" "p < 2 ^ 31" by (auto simp: judge_fits_def mult.commute)
  then show ?thesis
    using assms judge_fits_bounds [OF assms]
    by (simp add: judgeRule_def judges_def judge_fits_def flip: p_def)
qed

text \<open>
  The rules \<open>D\<close> are merged and flagged; for the others, length, uses and flag are those of
  the graphs.
\<close>

definition info_ok :: "int \<Rightarrow> nat \<Rightarrow> nat set \<Rightarrow> filter_state \<Rightarrow> bool" where
  "info_ok threshold n D st \<longleftrightarrow>
     length (fs_graph st) = n + length (fs_rif st) \<and> length (fs_graphT st) = n + length (fs_rif st) \<and>
     length (fs_flag st) = length (fs_rif st) \<and>
     (\<forall>i<length (fs_rif st). if n + i \<in> D then fs_flag st ! i else
        fs_rif st ! i = \<lparr>len = int (length (fs_graph st ! (n + i))), freq = int (length (fs_graphT st ! (n + i)))\<rparr> \<and>
        fs_flag st ! i = judges threshold (len (fs_rif st ! i)) (freq (fs_rif st ! i)))"

text \<open>The rule numbered \<open>x\<close>, if it is a rule, is in the range that \<open>judgeRule\<close> handles.\<close>

definition rule_fits :: "nat \<Rightarrow> graph \<Rightarrow> graph \<Rightarrow> nat \<Rightarrow> bool" where
  "rule_fits n g t x \<longleftrightarrow> n \<le> x \<longrightarrow> judge_fits (int (length (g ! x))) (int (length (t ! x)))"

lemma merge_parent_ok:
  assumes ok: "info_ok threshold n D st" and w: "w < length (fs_graph st)" "w \<notin> D" "w \<noteq> ID"
    and ID: "ID < length (fs_graph st)"
    and row: "splice_first (int ID) (fs_graph st ! ID) (fs_graph st ! w) = Some row'"
    and fits: "rule_fits n ((fs_graph st)[w := row']) (fs_graphT st) w"
  shows "\<exists>st'. merge_parent threshold (int n) (int ID) (int w) st = Some st' \<and> info_ok threshold n D st' \<and>
    fs_graph st' = (fs_graph st)[w := row'] \<and> fs_graphT st' = fs_graphT st"
proof (cases "n \<le> w")
  case False
  then show ?thesis using assms by (auto simp: merge_parent_def info_ok_def vec_simps)
next
  case True
  then obtain i where i: "w = n + i" using le_Suc_ex by blast
  have lens: "length (fs_graph st) = n + length (fs_rif st)" "length (fs_flag st) = length (fs_rif st)"
    "i < length (fs_rif st)" "length (fs_graphT st) = n + length (fs_rif st)"
    using ok w i by (auto simp: info_ok_def)
  have info: "fs_rif st ! i = \<lparr>len = int (length (fs_graph st ! w)), freq = int (length (fs_graphT st ! w))\<rparr>"
    using ok w lens i by (simp add: info_ok_def)
  have fit: "judge_fits (int (length row')) (int (length (fs_graphT st ! w)))"
    using fits True w by (simp add: rule_fits_def)
  have len': "to_i32 (int (length (fs_graph st ! w)) + (int (length (fs_graph st ! ID)) - 1)) = int (length row')"
    using length_splice_first [OF row] judge_fits_bounds [OF fit] by simp
  let ?st' = "st\<lparr>fs_graph := (fs_graph st)[w := row'],
      fs_rif := (fs_rif st)[i := \<lparr>len = int (length row'), freq = int (length (fs_graphT st ! w))\<rparr>],
      fs_flag := (fs_flag st)[i := judges threshold (int (length row')) (int (length (fs_graphT st ! w)))]\<rparr>"
  have "merge_parent threshold (int n) (int ID) (int w) st = Some ?st'"
    using w ID row lens i info len' judgeRule_judges [OF fit]
    by (simp add: merge_parent_def vec_simps Let_def)
  moreover have "info_ok threshold n D ?st'"
    using ok lens w i by (auto simp: info_ok_def nth_list_update)
  ultimately show ?thesis using lens i by auto
qed

lemma merge_child_ok:
  assumes ok: "info_ok threshold n D st" and w: "w < length (fs_graphT st)" "w \<notin> D" "w \<noteq> ID"
    and ID: "ID < length (fs_graphT st)"
    and row: "splice_first (int ID) (fs_graphT st ! ID) (fs_graphT st ! w) = Some row'"
    and fits: "rule_fits n (fs_graph st) ((fs_graphT st)[w := row']) w"
  shows "\<exists>st'. merge_child threshold (int n) (int ID) (int w) st = Some st' \<and> info_ok threshold n D st' \<and>
    fs_graphT st' = (fs_graphT st)[w := row'] \<and> fs_graph st' = fs_graph st"
proof (cases "n \<le> w")
  case False
  then show ?thesis using assms by (auto simp: merge_child_def info_ok_def vec_simps)
next
  case True
  then obtain i where i: "w = n + i" using le_Suc_ex by blast
  have lens: "length (fs_graph st) = n + length (fs_rif st)" "length (fs_flag st) = length (fs_rif st)"
    "i < length (fs_rif st)" "length (fs_graphT st) = n + length (fs_rif st)"
    using ok w i by (auto simp: info_ok_def)
  have info: "fs_rif st ! i = \<lparr>len = int (length (fs_graph st ! w)), freq = int (length (fs_graphT st ! w))\<rparr>"
    using ok w lens i by (simp add: info_ok_def)
  have fit: "judge_fits (int (length (fs_graph st ! w))) (int (length row'))"
    using fits True w by (simp add: rule_fits_def)
  have freq': "to_i32 (int (length row')) = int (length row')"
    using judge_fits_bounds [OF fit] by simp
  let ?st' = "st\<lparr>fs_graphT := (fs_graphT st)[w := row'],
      fs_rif := (fs_rif st)[i := \<lparr>len = int (length (fs_graph st ! w)), freq = int (length row')\<rparr>],
      fs_flag := (fs_flag st)[i := judges threshold (int (length (fs_graph st ! w))) (int (length row'))]\<rparr>"
  have "merge_child threshold (int n) (int ID) (int w) st = Some ?st'"
    using w ID row lens i info freq' judgeRule_judges [OF fit]
    by (simp add: merge_child_def vec_simps Let_def)
  moreover have "info_ok threshold n D ?st'"
    using ok lens w i by (auto simp: info_ok_def nth_list_update)
  ultimately show ?thesis using lens i by auto
qed

subsection \<open>Merging one rule\<close>

text \<open>
  Sizes for which no \<open>int\<close> of the filter overflows: for every rule, the vertices it expands to
  times the vertices in all the expanded rows.
\<close>

definition filter_sizes :: "nat \<Rightarrow> graph \<Rightarrow> bool" where
  "filter_sizes n g \<longleftrightarrow> length g < 2 ^ 31 \<and> total_expansion n g < 2 ^ 31 \<and>
     (\<forall>x. n \<le> x \<and> x < length g \<longrightarrow>
        length (expand_row (rows g) (int n) (g ! x)) * total_expansion n g < 2 ^ 31)"

lemma merged_rule_fits:
  assumes M: "merged_away n g0 g t D" and sound: "sound_rules n g0" and sizes: "filter_sizes n g0"
    and x: "x < length g" "x \<notin> D"
  shows "rule_fits n g t x"
  unfolding rule_fits_def
proof
  assume "n \<le> x"
  then have "length (expand_row (rows g0) (int n) (g0 ! x)) * total_expansion n g0 < 2 ^ 31"
    using sizes x merged_awayD(2) [OF M] by (simp add: filter_sizes_def)
  moreover have "length (g ! x) * length (t ! x)
      \<le> length (expand_row (rows g0) (int n) (g0 ! x)) * total_expansion n g0"
    by (rule mult_le_mono [OF merged_row_length [OF M sound x(1)] merged_occurrences [OF M sound x]])
  ultimately have "length (g ! x) * length (t ! x) < 2 ^ 31" by linarith
  then have "int (length (g ! x) * length (t ! x)) < 2 ^ 31" by (simp only: of_nat_less_numeral_power_cancel_iff)
  then show "judge_fits (int (length (g ! x))) (int (length (t ! x)))"
    using merged_awayD(6,7) [OF M \<open>n \<le> x\<close> x(1)] x(2) by (simp add: judge_fits_def)
qed

lemma rule_fits_le:
  assumes "rule_fits n g1 t1 x" "g ! x \<noteq> []" "t ! x \<noteq> []"
    and "length (g ! x) \<le> length (g1 ! x)" "length (t ! x) \<le> length (t1 ! x)"
  shows "rule_fits n g t x"
  using assms unfolding rule_fits_def by (auto intro: judge_fits_mono)

lemma rule_fits_midway:
  assumes M: "merged_away n g0 g t D" and sound: "sound_rules n g0" and sizes: "filter_sizes n g0"
    and ID: "n \<le> ID" "ID < length g" "ID \<notin> D" and w: "w < length g" "w \<notin> D" "w \<noteq> ID"
    and pre: "count_list pre1 (int w) \<le> count_list (t ! ID) (int w)"
      "count_list pre2 (int w) \<le> count_list (g ! ID) (int w)"
  shows "rule_fits n (inline_upto ID g pre1) (inline_upto ID t pre2) w"
proof (cases "n \<le> w")
  case True
  note tr = merged_awayD(3) [OF M] and lent [simp] = merged_awayD(9) [OF M]
  have wf0: "wf_grammar g0 (int n)" using sound by (simp add: sound_rules_def)
  have "rule_fits n (inline_upto ID g (t ! ID)) (inline_upto ID t (g ! ID)) w"
    unfolding inline_upto_all
    using merged_rule_fits [OF merged_away_inline [OF M wf0 ID] sound sizes] w by simp
  moreover have ne: "g ! ID \<noteq> []" "t ! ID \<noteq> []" "g ! w \<noteq> []" "t ! w \<noteq> []"
    using merged_awayD(6) [OF M] merged_awayD(7) [OF M] ID w True by simp_all
  then have "inline_upto ID g pre1 ! w \<noteq> []" "inline_upto ID t pre2 ! w \<noteq> []"
    using w by (simp_all add: inline_n_nonempty)
  moreover have "length (inline_upto ID g pre1 ! w) \<le> length (inline_upto ID g (t ! ID) ! w)"
    using w ne pre transposes_count [OF tr ID(2,3) w(1,2)] by (intro length_inline_upto_le) simp_all
  moreover have "length (inline_upto ID t pre2 ! w) \<le> length (inline_upto ID t (g ! ID) ! w)"
    using w ne pre transposes_count [OF tr w(1,2) ID(2,3)] by (intro length_inline_upto_le) simp_all
  ultimately show ?thesis by (rule rule_fits_le)
qed (simp add: rule_fits_def)

lemma mergeRule_ok:
  assumes M: "merged_away n g0 (fs_graph st) (fs_graphT st) D" and sound: "sound_rules n g0"
    and sizes: "filter_sizes n g0" and ok: "info_ok threshold n D st"
    and j: "n + j < length g0" "n + j \<notin> D"
  shows "\<exists>st'. mergeRule threshold (int n) (int j) st = Some st' \<and> info_ok threshold n D st' \<and>
    fs_graph st' = inline_rule (n + j) (fs_graph st) (fs_graphT st) \<and>
    fs_graphT st' = inline_rule (n + j) (fs_graphT st) (fs_graph st)"
proof -
  define ID g t where "ID = n + j" and "g = fs_graph st" and "t = fs_graphT st"
  have M': "merged_away n g0 g t D" using M by (simp add: g_def t_def)
  have ID: "n \<le> ID" "ID < length g" "ID \<notin> D" using j merged_awayD(2) [OF M'] by (auto simp: ID_def)
  note lent [simp] = merged_awayD(9) [OF M'] and self = merged_away_self [OF M' ID(1,2)]
  have selfT: "int ID \<notin> set (t ! ID)"
    using transposes_count [OF merged_awayD(3) [OF M'] ID(2,3) ID(2,3)] self
    by (simp add: count_list_0_iff)
  note fits = rule_fits_midway [OF M' sound sizes ID]
  let ?I1 = "\<lambda>pre st. info_ok threshold n D st \<and> fs_graph st = inline_upto ID g pre \<and> fs_graphT st = t"
  have "\<exists>st1. for_each (merge_parent threshold (int n) (int ID)) (t ! ID) st = Some st1 \<and> ?I1 (t ! ID) st1"
  proof (rule for_each_rule [where I = ?I1])
    show "?I1 [] st" using ok by (simp add: inline_upto_Nil g_def t_def)
    fix pre x post s assume split: "t ! ID = pre @ x # post" and I: "?I1 pre s"
    obtain w where w: "x = int w" "w < length g" "w \<notin> D" "w \<noteq> ID"
      "count_list (t ! ID) x = count_list (g ! w) (int ID)" "count_list pre x < count_list (g ! w) (int ID)"
      by (rule merged_away_user [OF M' ID split])
    have "rule_fits n (inline_upto ID g (pre @ [x])) t w"
      using fits [of w "pre @ [x]" "[]"] w by (simp add: inline_upto_Nil)
    then show "\<exists>s'. merge_parent threshold (int n) (int ID) x s = Some s' \<and> ?I1 (pre @ [x]) s'"
      using merge_parent_ok [of threshold n D s w ID "inline_upto ID g (pre @ [x]) ! w"]
        inline_upto_snoc [of w g ID pre] inline_upto_self [of ID g pre] I w ID self by simp
  qed
  then obtain st1 where st1: "for_each (merge_parent threshold (int n) (int ID)) (t ! ID) st = Some st1"
    "info_ok threshold n D st1" "fs_graph st1 = inline_rule ID g t" "fs_graphT st1 = t"
    by (auto simp: inline_upto_all)
  have row: "inline_rule ID g t ! ID = g ! ID"
    using inline_upto_self [OF ID(2) self] by (simp flip: inline_upto_all)
  let ?I2 = "\<lambda>pre st. info_ok threshold n D st \<and> fs_graphT st = inline_upto ID t pre \<and>
      fs_graph st = inline_rule ID g t"
  have "\<exists>st2. for_each (merge_child threshold (int n) (int ID)) (g ! ID) st1 = Some st2 \<and> ?I2 (g ! ID) st2"
  proof (rule for_each_rule [where I = ?I2])
    show "?I2 [] st1" using st1 by (simp add: inline_upto_Nil)
    fix pre x post s assume split: "g ! ID = pre @ x # post" and I: "?I2 pre s"
    obtain w where w: "x = int w" "w < length g" "w \<notin> D" "w < ID"
      "count_list (g ! ID) x = count_list (t ! w) (int ID)" "count_list pre x < count_list (t ! w) (int ID)"
      by (rule merged_away_child [OF M' ID split])
    have "rule_fits n (inline_rule ID g t) (inline_upto ID t (pre @ [x])) w"
      using fits [of w "t ! ID" "pre @ [x]"] w by (simp add: inline_upto_all)
    then show "\<exists>s'. merge_child threshold (int n) (int ID) x s = Some s' \<and> ?I2 (pre @ [x]) s'"
      using merge_child_ok [of threshold n D s w ID "inline_upto ID t (pre @ [x]) ! w"]
        inline_upto_snoc [of w t ID pre] inline_upto_self [of ID t pre] I w ID selfT by simp
  qed
  then obtain st2 where st2: "for_each (merge_child threshold (int n) (int ID)) (g ! ID) st1 = Some st2"
    "info_ok threshold n D st2" "fs_graphT st2 = inline_rule ID t g" "fs_graph st2 = inline_rule ID g t"
    by (auto simp: inline_upto_all)
  have "vec_at (fs_graphT st) (int ID) = Some (t ! ID)" "vec_at (fs_graph st1) (int ID) = Some (g ! ID)"
    using st1 row ID by (simp_all add: vec_simps flip: t_def)
  moreover have "int j + int n = int ID" by (simp add: ID_def)
  ultimately have "mergeRule threshold (int n) (int j) st = Some st2"
    using st1(1) st2(1) by (simp add: mergeRule_def Let_def)
  then show ?thesis using st2 by (auto simp: ID_def g_def t_def)
qed

subsection \<open>The pass over the rules\<close>

text \<open>
  After \<open>j\<close> rules were visited, the unmerged ones among them are not flagged.  They stay so:
  merging a later rule does not change their rows, and they are used at least as often.
\<close>

definition filter_aux :: "int \<times> int \<Rightarrow> nat \<Rightarrow> nat \<Rightarrow> graph \<Rightarrow> nat set \<Rightarrow> filter_state \<Rightarrow> bool" where
  "filter_aux c n j g0 D st \<longleftrightarrow> snd c = int n \<and> filter_sizes n g0 \<and> info_ok (fst c) n D st \<and>
     D \<subseteq> {n..<n + j} \<and> (\<forall>i<j. n + i \<notin> D \<longrightarrow> \<not> fs_flag st ! i)"

definition filter_picks :: "int \<times> int \<Rightarrow> nat \<Rightarrow> filter_state \<Rightarrow> bool" where
  "filter_picks c j st \<longleftrightarrow> fs_flag st ! j"

lemma judges_mono:
  assumes "judges threshold l f'" "f \<le> f'" "1 \<le> l"
  shows "judges threshold l f"
proof -
  have "(f - 1) * (l - 1) \<le> (f' - 1) * (l - 1)" using assms by (intro mult_right_mono) auto
  then show ?thesis using assms by (simp add: judges_def)
qed

lemma info_ok_flag:
  "info_ok threshold n D st \<Longrightarrow> n + i < length (fs_graph st) \<Longrightarrow> n + i \<notin> D \<Longrightarrow>
    fs_flag st ! i = judges threshold (int (length (fs_graph st ! (n + i)))) (int (length (fs_graphT st ! (n + i))))"
  by (auto simp: info_ok_def)

lemma filter_merges:
  assumes M: "merged_away n g0 (fs_graph s) (fs_graphT s) D" and sound: "sound_rules n g0"
    and aux: "filter_aux c n j g0 D s" and j: "n + j < length g0" and pick: "filter_picks c j s"
  shows "n + j \<notin> D \<and> (\<exists>s'. filter_step c (int j) s = Some s' \<and>
    fs_graph s' = inline_rule (n + j) (fs_graph s) (fs_graphT s) \<and>
    fs_graphT s' = inline_rule (n + j) (fs_graphT s) (fs_graph s) \<and>
    filter_aux c n (Suc j) g0 (insert (n + j) D) s')"
proof -
  define ID g t where "ID = n + j" and "g = fs_graph s" and "t = fs_graphT s"
  have M': "merged_away n g0 g t D" using M by (simp add: g_def t_def)
  have ok: "info_ok (fst c) n D s" and sizes: "filter_sizes n g0" and c: "snd c = int n"
    and D: "D \<subseteq> {n..<n + j}" and old: "\<And>i. i < j \<Longrightarrow> n + i \<notin> D \<Longrightarrow> \<not> fs_flag s ! i"
    using aux by (auto simp: filter_aux_def)
  have ID: "n \<le> ID" "ID < length g" "ID \<notin> D" using j merged_awayD(2) [OF M'] D by (auto simp: ID_def)
  note lent [simp] = merged_awayD(9) [OF M'] and tr = merged_awayD(3) [OF M']
    and self = merged_away_self [OF M' ID(1,2)]
  obtain s' where s': "mergeRule (fst c) (int n) (int j) s = Some s'" "info_ok (fst c) n D s'"
    "fs_graph s' = inline_rule ID g t" "fs_graphT s' = inline_rule ID t g"
    using mergeRule_ok [OF M sound sizes ok j] ID by (auto simp: ID_def g_def t_def)
  have step: "filter_step c (int j) s = Some s'"
    using s'(1) pick c ok ID by (simp add: filter_step_def filter_picks_def vec_simps info_ok_def ID_def g_def)
  have flag: "fs_flag s' ! i = judges (fst c) (int (length (inline_rule ID g t ! (n + i))))
      (int (length (inline_rule ID t g ! (n + i))))" if "n + i < length g" "n + i \<notin> D" for i
    using info_ok_flag [OF s'(2)] that s'(3,4) by simp
  have row: "inline_rule ID g t ! ID = g ! ID" "inline_rule ID t g ! ID = t ! ID"
    using self ID transposes_count [OF tr ID(2,3) ID(2,3)] by (simp_all add: inline_rule_nth)
  have "fs_flag s' ! j"
    using flag [of j] row ID pick info_ok_flag [OF ok, of j] by (simp add: ID_def filter_picks_def g_def t_def)
  then have ok': "info_ok (fst c) n (insert ID D) s'" using s'(2) by (auto simp: info_ok_def ID_def)
  have "\<not> fs_flag s' ! i" if i: "i < j" "n + i \<notin> D" for i
  proof -
    have lt: "n + i < length g" "n + i < ID" using i ID by (auto simp: ID_def)
    have "int ID \<notin> set (g ! (n + i))"
      using orderedD(2) [OF wf_grammar_ordered [OF merged_awayD(1) [OF M']], of "int (n + i)" "int ID"] lt
      by auto
    then have same: "inline_rule ID g t ! (n + i) = g ! (n + i)"
      using lt by (simp add: inline_rule_nth inline_n_id)
    have le: "length (t ! (n + i)) \<le> length (inline_rule ID t g ! (n + i))"
      using transposes_count [OF tr lt(1) i(2) ID(2,3)] merged_awayD(7) [OF M' ID] lt
      by (intro length_inline_upto_le [of "n + i" t ID "[]" "g ! ID", unfolded inline_upto_Nil inline_upto_all]) simp_all
    have "0 < length (g ! (n + i))" using merged_awayD(6) [OF M', of "n + i"] lt by simp
    then have "1 \<le> int (length (g ! (n + i)))" by linarith
    moreover have "\<not> judges (fst c) (int (length (g ! (n + i)))) (int (length (t ! (n + i))))"
      using old [OF i] info_ok_flag [OF ok _ i(2)] lt by (simp add: g_def t_def)
    ultimately have "\<not> judges (fst c) (int (length (g ! (n + i)))) (int (length (inline_rule ID t g ! (n + i))))"
      using le judges_mono of_nat_le_iff by blast
    then show ?thesis using flag [OF lt(1) i(2)] same by simp
  qed
  then have "filter_aux c n (Suc j) g0 (insert ID D) s'"
    using ok' sizes c D by (auto simp: filter_aux_def less_Suc_eq ID_def)
  then show ?thesis using step s'(3,4) ID by (auto simp: ID_def g_def t_def)
qed

lemma filter_skips:
  assumes "merged_away n g0 (fs_graph s) (fs_graphT s) D" "filter_aux c n j g0 D s" "n + j < length g0"
    and "\<not> filter_picks c j s"
  shows "\<exists>s'. filter_step c (int j) s = Some s' \<and> fs_graph s' = fs_graph s \<and> fs_graphT s' = fs_graphT s \<and>
    filter_aux c n (Suc j) g0 D s'"
  using assms merged_awayD(2) [OF assms(1)]
  by (auto simp: filter_aux_def filter_picks_def filter_step_def info_ok_def vec_simps less_Suc_eq)

interpretation filtering: rule_merger fs_graph fs_graphT filter_step filter_picks filter_aux
  by unfold_locales (use filter_merges filter_skips in blast)+

lemma initInfoForRule_ok:
  assumes len: "length g = n + r" "length t = n + r" and fits: "\<And>x. x < n + r \<Longrightarrow> rule_fits n g t x"
  shows "\<exists>st. initInfoForRule threshold (int n) (int r)
      \<lparr>fs_graph = g, fs_graphT = t, fs_rif = replicate r info0, fs_flag = replicate r False\<rparr> = Some st \<and>
    fs_graph st = g \<and> fs_graphT st = t \<and> info_ok threshold n {} st"
proof -
  let ?I = "\<lambda>j st. fs_graph st = g \<and> fs_graphT st = t \<and> length (fs_rif st) = r \<and> length (fs_flag st) = r \<and>
    (\<forall>i<j. fs_rif st ! i = \<lparr>len = int (length (g ! (n + i))), freq = int (length (t ! (n + i)))\<rparr> \<and>
       fs_flag st ! i = judges threshold (len (fs_rif st ! i)) (freq (fs_rif st ! i)))"
  have "\<exists>st. initInfoForRule threshold (int n) (int r)
      \<lparr>fs_graph = g, fs_graphT = t, fs_rif = replicate r info0, fs_flag = replicate r False\<rparr> = Some st \<and> ?I r st"
    unfolding initInfoForRule_def
  proof (rule for_range_nat_rule [where I = ?I])
    fix j st assume j: "j < r" and I: "?I j st"
    have fit: "judge_fits (int (length (g ! (n + j)))) (int (length (t ! (n + j))))"
      using fits [of "n + j"] j by (simp add: rule_fits_def)
    have "vec_at g (int j + int n) = Some (g ! (n + j))" "vec_at t (int j + int n) = Some (t ! (n + j))"
      using j len by (simp_all add: vec_simps add.commute)
    then show "\<exists>st'. do {
        users \<leftarrow> vec_at (fs_graphT st) (int j + int n);
        row \<leftarrow> vec_at (fs_graph st) (int j + int n);
        let info = \<lparr>len = to_i32 (int (length row)), freq = to_i32 (int (length users))\<rparr>;
        rif' \<leftarrow> vec_set (fs_rif st) (int j) info;
        flag \<leftarrow> judgeRule threshold (len info) (freq info);
        merge_flag' \<leftarrow> vec_set (fs_flag st) (int j) flag;
        Some (st\<lparr>fs_rif := rif', fs_flag := merge_flag'\<rparr>) } = Some st' \<and> ?I (Suc j) st'"
      using I j judge_fits_bounds [OF fit] judgeRule_judges [OF fit]
      by (auto simp: vec_simps Let_def less_Suc_eq)
  qed simp
  then show ?thesis using len by (auto simp: info_ok_def)
qed

subsection \<open>The filter\<close>

text \<open>What a run of the filter amounts to, from the graph that the input arrays hold.\<close>

lemma filter_csr_run:
  fixes vlist elist n r
  defines "g0 \<equiv> csr_graph (n + r) vlist elist"
  assumes wf: "wf_csr (n + r) vlist elist" and sound: "sound_rules n g0" and sizes: "filter_sizes n g0"
  obtains g t D flag where "merged_away n g0 g t D" "flags_merged n D flag" "length g = n + length flag"
    "filter_csr vlist elist (int n) (int r) threshold =
       Some (offsets (drop_rows (keeps n flag) g (length g)), concat (drop_rows (keeps n flag) g (length g)),
         int n, int (length (drop_rows (keeps n flag) g (length g)) - n))"
    "\<And>i. i < length flag \<Longrightarrow> \<not> flag ! i \<longleftrightarrow> \<not> judges threshold (int (length (g ! (n + i)))) (int (length (t ! (n + i))))
       \<and> n + i \<notin> D"
proof -
  have len: "length g0 = n + r" by (simp add: g0_def)
  note start = merged_away_start [OF sound]
  note conv = input_graphs [OF wf sound [unfolded g0_def], folded g0_def]
  obtain st0 where st0: "initInfoForRule threshold (int n) (int r)
      \<lparr>fs_graph = g0, fs_graphT = transposed g0, fs_rif = replicate r \<lparr>len = 0, freq = 0\<rparr>, fs_flag = replicate r False\<rparr>
      = Some st0" "fs_graph st0 = g0" "fs_graphT st0 = transposed g0" "info_ok threshold n {} st0"
    using initInfoForRule_ok [of g0 n r "transposed g0" threshold "\<lparr>len = 0, freq = 0\<rparr>"]
      merged_rule_fits [OF start sound sizes] len by (auto simp: transposed_def)
  have "filter_aux (threshold, int n) n 0 g0 {} st0" using st0 sizes by (simp add: filter_aux_def)
  then obtain st D where st: "for_range 0 (int r) (filter_step (threshold, int n)) st0 = Some st"
    "merged_away n g0 (fs_graph st) (fs_graphT st) D" "filter_aux (threshold, int n) n r g0 D st"
    using filtering.pass [of n g0 st0 "{}" "(threshold, int n)" r] start sound st0 len by auto
  define g flag g' where "g = fs_graph st" and "flag = fs_flag st"
    and "g' = drop_rows (keeps n (fs_flag st)) (fs_graph st) (length (fs_graph st))"
  have ok: "info_ok threshold n D st" using st(3) by (simp add: filter_aux_def)
  have lg: "length g = n + r" "length flag = r" "length (fs_rif st) = r"
    using ok merged_awayD(2) [OF st(2)] len by (auto simp: info_ok_def g_def flag_def)
  have F: "flags_merged n D flag" "length g = n + length flag"
    using st(3) lg by (auto simp: flags_merged_def filter_aux_def info_ok_def flag_def)
  have g': "g' = drop_rows (keeps n flag) g (length g)" by (simp add: g'_def g_def flag_def)
  note arrays = merged_arrays [OF st(2) sound F(1) lg(2), folded g_def, OF lg(1), folded g']
  have "filter_csr vlist elist (int n) (int r) threshold = Some (offsets g', concat g', int n, int (length g' - n))"
    using conv st0(1) st(1) arrays sizes len by (simp add: filter_csr_def filter_sizes_def Let_def flip: g_def flag_def)
  moreover have "\<not> flag ! i \<longleftrightarrow> \<not> judges threshold (int (length (g ! (n + i)))) (int (length (fs_graphT st ! (n + i))))
      \<and> n + i \<notin> D" if "i < length flag" for i
    using info_ok_flag [OF ok, of i] F that lg by (auto simp: flags_merged_def g_def flag_def)
  ultimately show thesis
    using that [of g "fs_graphT st" D flag] st(2) F by (simp add: g' g_def flag_def)
qed

text \<open>A small compressed graph, with two vertices and one rule, for the examples below.\<close>

lemma example_graph:
  "wf_csr 3 [0, 2, 4, 6] [2, 1, 2, 0, 0, 1]"
  "csr_graph 3 [0, 2, 4, 6] [2, 1, 2, 0, 0, 1] = [[2, 1], [2, 0], [0, 1]]"
  "sound_rules 2 [[2, 1], [2, 0], [0, 1]]"
  by code_simp+

lemma example_sizes: "filter_sizes 2 [[2, 1], [2, 0], [0, 1]]"
proof -
  have "total_expansion 2 [[2, 1], [2, 0], [0, 1]] = 8" by code_simp
  moreover have "length (expand_row (rows [[2, 1], [2, 0], [0, 1]]) (int 2) ([[2, 1], [2, 0], [0, 1]] ! 2)) = 2"
    by code_simp
  moreover have "x = 2" if "2 \<le> x" "x < 3" for x :: nat using that by linarith
  ultimately show ?thesis by (auto simp: filter_sizes_def)
qed





end
