(* ===== verification/Merge_Parts.thy ===== *)
theory Merge_Parts
  imports Csr
begin

text \<open>
  Joining separately compressed parts of a graph into one, \<open>merge_\<close> of \<open>compress_op/merge.h\<close>.
  Every part numbers its rules from the number of all vertices; in the result the rules of the
  parts follow one another, so the symbols of a part are shifted by the rules of the parts
  before it.
\<close>

subsection \<open>The code\<close>

text \<open>The body shared by the two inner loops: row \<open>row\<close> of the part is appended to \<open>graph[target]\<close>.\<close>

definition copy_row ::
  "int list \<Rightarrow> int list \<Rightarrow> int \<Rightarrow> int \<Rightarrow> int \<Rightarrow> int \<Rightarrow> graph \<Rightarrow> graph option" where
  "copy_row vlist elist vertex_cnt rule_offset row target graph = do {
     start \<leftarrow> vec_at vlist row;
     end \<leftarrow> vec_at vlist (row + 1);
     for_range start end (\<lambda>j graph. do {
       dst \<leftarrow> vec_at elist j;
       dst' \<leftarrow> (if vertex_cnt \<le> dst then i32_arith (dst + rule_offset) else Some dst);
       push_at graph target dst'
     }) graph
   }"

definition merge_part ::
  "int list list \<Rightarrow> int list list \<Rightarrow> int list \<Rightarrow> int list \<Rightarrow> int \<Rightarrow> int \<Rightarrow> graph \<times> int \<times> int \<Rightarrow> (graph \<times> int \<times> int) option" where
  "merge_part vlist_map elist_map vertex_map rule_map vertex_cnt i = (\<lambda>(graph, vertex_offset, rule_offset). do {
     vlist \<leftarrow> vec_at vlist_map i;
     elist \<leftarrow> vec_at elist_map i;
     nv \<leftarrow> vec_at vertex_map i;
     graph \<leftarrow> for_range 0 nv (\<lambda>vid.
       copy_row vlist elist vertex_cnt rule_offset vid (vid + vertex_offset)) graph;
     nr \<leftarrow> vec_at rule_map i;
     graph \<leftarrow> for_range 0 nr (\<lambda>rid.
       copy_row vlist elist vertex_cnt rule_offset (rid + nv) (vertex_cnt + rid + rule_offset)) graph;
     vertex_offset \<leftarrow> i32_arith (vertex_offset + nv);
     rule_offset \<leftarrow> i32_arith (rule_offset + nr);
     Some (graph, vertex_offset, rule_offset)
   })"

text \<open>
  The counter of the loop over the parts is declared without an initial value
  (\<open>for (int i; i < part_num; ++i)\<close>); \<open>i0\<close> is the value it happens to have.
\<close>

definition merge_parts ::
  "int \<Rightarrow> int list list \<Rightarrow> int list list \<Rightarrow> int list \<Rightarrow> int list \<Rightarrow> (int list \<times> int list \<times> int \<times> int) option" where
  "merge_parts i0 vlist_map elist_map vertex_map rule_map = do {
     let part_num = int (length vlist_map);
     (vertex_cnt, rule_cnt) \<leftarrow> for_range 0 part_num (\<lambda>i (vertex_cnt, rule_cnt). do {
       nv \<leftarrow> vec_at vertex_map i;
       nr \<leftarrow> vec_at rule_map i;
       vertex_cnt \<leftarrow> i32_arith (vertex_cnt + nv);
       rule_cnt \<leftarrow> i32_arith (rule_cnt + nr);
       Some (vertex_cnt, rule_cnt)
     }) (0, 0);
     total \<leftarrow> i32_arith (vertex_cnt + rule_cnt);
     (graph, _, _) \<leftarrow> (if total < 0 then None else
       for_range i0 part_num (merge_part vlist_map elist_map vertex_map rule_map vertex_cnt)
         (replicate (nat total) [], 0, 0));
     (re_vlist, re_elist, _) \<leftarrow> for_range 0 total (\<lambda>i (re_vlist, re_elist, esize). do {
       row \<leftarrow> vec_at graph i;
       re_elist \<leftarrow> for_range 0 (int (length row)) (\<lambda>j re_elist. do {
         x \<leftarrow> vec_at row j; Some (re_elist @ [x]) }) re_elist;
       esize \<leftarrow> i32_arith (esize + int (length row));
       Some (re_vlist @ [esize], re_elist, esize)
     }) ([0], [], 0);
     Some (re_vlist, re_elist, vertex_cnt, rule_cnt)
   }"

subsection \<open>Shifting the rules of a part\<close>

definition shift_rule :: "int \<Rightarrow> int \<Rightarrow> int \<Rightarrow> int" where
  "shift_rule n off x = (if n \<le> x then x + off else x)"

lemma expand_shift:
  assumes ord: "ordered R n m" and ord': "ordered R' n m'" and off: "0 \<le> off" "m + off \<le> m'"
    and rows: "\<And>x. n \<le> x \<Longrightarrow> x < m \<Longrightarrow> R' (x + off) = map (shift_rule n off) (R x)"
    and "0 \<le> x" "x < m"
  shows "expand R' n (shift_rule n off x) = expand R n x"
proof -
  have "expand R n x = expand R' n (shift_rule n off x)"
  proof (rule expand_unique [OF ord, where E = "\<lambda>x. expand R' n (shift_rule n off x)"])
    fix x assume x: "n \<le> x" "x < m"
    have "expand R' n (x + off) = expand_row R' n (R' (x + off))"
      using x off by (intro expand_rule [OF ord']) auto
    then show "expand R' n (shift_rule n off x) = concat (map (\<lambda>y. expand R' n (shift_rule n off y)) (R x))"
      using x rows [OF x] by (simp add: shift_rule_def comp_def)
  qed (use assms in \<open>auto simp: shift_rule_def\<close>)
  then show ?thesis by simp
qed

text \<open>
  A part: its arrays, with \<open>nv\<close> vertices and \<open>nr\<close> rules.  Its symbols below \<open>n\<close>, the number of
  vertices of the whole graph, are vertices; \<open>n + k\<close> is its rule \<open>k\<close>, in row \<open>nv + k\<close>.
\<close>

type_synonym part = "int list \<times> int list \<times> nat \<times> nat"

abbreviation part_vertices :: "part \<Rightarrow> nat" where "part_vertices p \<equiv> fst (snd (snd p))"
abbreviation part_rules :: "part \<Rightarrow> nat" where "part_rules p \<equiv> snd (snd (snd p))"

definition part_row :: "part \<Rightarrow> nat \<Rightarrow> int list" where
  "part_row p i = csr_row (fst p) (fst (snd p)) i"

definition part_rule :: "int \<Rightarrow> part \<Rightarrow> int \<Rightarrow> int list" where
  "part_rule n p x = part_row p (part_vertices p + nat (x - n))"

definition wf_part :: "int \<Rightarrow> part \<Rightarrow> bool" where
  "wf_part n p \<longleftrightarrow> wf_csr (part_vertices p + part_rules p) (fst p) (fst (snd p)) \<and>
     (\<forall>i<part_vertices p + part_rules p. \<forall>y\<in>set (part_row p i). 0 \<le> y \<and> y < n + int (part_rules p) \<and>
        (part_vertices p \<le> i \<longrightarrow> y < n + int (i - part_vertices p)))"

lemma wf_part_ordered:
  assumes "wf_part n p"
  shows "ordered (part_rule n p) n (n + int (part_rules p))"
  unfolding ordered_def
proof (intro allI impI ballI)
  fix x y assume x: "n \<le> x \<and> x < n + int (part_rules p)" and y: "y \<in> set (part_rule n p x)"
  let ?i = "part_vertices p + nat (x - n)"
  have "?i < part_vertices p + part_rules p" using x by (simp add: nat_less_iff)
  moreover have "n + int (?i - part_vertices p) = x" using x by simp
  ultimately show "0 \<le> y \<and> y < x"
    using assms y unfolding wf_part_def part_rule_def by fastforce
qed

definition vertices_before :: "part list \<Rightarrow> nat \<Rightarrow> nat" where
  "vertices_before ps i = sum_list (map part_vertices (take i ps))"

definition rules_before :: "part list \<Rightarrow> nat \<Rightarrow> nat" where
  "rules_before ps i = sum_list (map part_rules (take i ps))"

lemma before_0 [simp]: "vertices_before ps 0 = 0" "rules_before ps 0 = 0"
  by (simp_all add: vertices_before_def rules_before_def)

lemma vertices_before_Suc:
  "i < length ps \<Longrightarrow> vertices_before ps (Suc i) = vertices_before ps i + part_vertices (ps ! i)"
  by (simp add: vertices_before_def take_Suc_conv_app_nth)

lemma rules_before_Suc: "i < length ps \<Longrightarrow> rules_before ps (Suc i) = rules_before ps i + part_rules (ps ! i)"
  by (simp add: rules_before_def take_Suc_conv_app_nth)

lemma vertices_before_mono: "i \<le> j \<Longrightarrow> vertices_before ps i \<le> vertices_before ps j"
proof (induction j rule: dec_induct)
  case (step j)
  then show ?case by (cases "j < length ps") (auto simp: vertices_before_Suc, simp add: vertices_before_def)
qed simp

lemma rules_before_mono: "i \<le> j \<Longrightarrow> rules_before ps i \<le> rules_before ps j"
proof (induction j rule: dec_induct)
  case (step j)
  then show ?case by (cases "j < length ps") (auto simp: rules_before_Suc, simp add: rules_before_def)
qed simp

text \<open>The rows of the joined graph: the vertices of all the parts, then their rules.\<close>

definition vertex_rows :: "nat \<Rightarrow> part list \<Rightarrow> nat \<Rightarrow> graph" where
  "vertex_rows n ps i = map (\<lambda>k. map (shift_rule (int n) (int (rules_before ps i))) (part_row (ps ! i) k))
     [0..<part_vertices (ps ! i)]"

definition rule_rows :: "nat \<Rightarrow> part list \<Rightarrow> nat \<Rightarrow> graph" where
  "rule_rows n ps i = map (\<lambda>k. map (shift_rule (int n) (int (rules_before ps i)))
     (part_row (ps ! i) (part_vertices (ps ! i) + k))) [0..<part_rules (ps ! i)]"

definition joined :: "nat \<Rightarrow> part list \<Rightarrow> graph" where
  "joined n ps = concat (map (vertex_rows n ps) [0..<length ps]) @ concat (map (rule_rows n ps) [0..<length ps])"

lemma nth_concat_blocks:
  assumes "i < m" "k < length (B i)"
  shows "concat (map B [0..<m]) ! (length (concat (map B [0..<i])) + k) = B i ! k"
proof -
  have "[0..<m] = [0..<i] @ i # [Suc i..<m]"
    using assms(1) upt_add_eq_append [of 0 i "m - i"] by (simp add: upt_conv_Cons)
  then show ?thesis using assms(2) by (simp add: nth_append)
qed

lemma length_vertex_blocks:
  "i \<le> length ps \<Longrightarrow> length (concat (map (vertex_rows n ps) [0..<i])) = vertices_before ps i"
  by (induction i) (auto simp: vertices_before_Suc vertex_rows_def)

lemma length_rule_blocks:
  "i \<le> length ps \<Longrightarrow> length (concat (map (rule_rows n ps) [0..<i])) = rules_before ps i"
  by (induction i) (auto simp: rules_before_Suc rule_rows_def)

lemma length_joined [simp]: "length (joined n ps) = vertices_before ps (length ps) + rules_before ps (length ps)"
  using length_vertex_blocks [of "length ps" ps n] length_rule_blocks [of "length ps" ps n]
  by (simp add: joined_def)

lemma joined_vertex:
  assumes "i < length ps" "k < part_vertices (ps ! i)"
  shows "joined n ps ! (vertices_before ps i + k)
    = map (shift_rule (int n) (int (rules_before ps i))) (part_row (ps ! i) k)"
proof -
  have "vertices_before ps i + k < vertices_before ps (length ps)"
    using vertices_before_mono [of "Suc i" "length ps" ps] assms by (simp add: vertices_before_Suc)
  then show ?thesis
    using nth_concat_blocks [of i "length ps" k "vertex_rows n ps"] assms length_vertex_blocks [of i ps n]
      length_vertex_blocks [of "length ps" ps n]
    by (simp add: joined_def nth_append, simp add: vertex_rows_def)
qed

lemma joined_rule:
  assumes "i < length ps" "k < part_rules (ps ! i)" "n = vertices_before ps (length ps)"
  shows "joined n ps ! (n + rules_before ps i + k)
    = map (shift_rule (int n) (int (rules_before ps i))) (part_row (ps ! i) (part_vertices (ps ! i) + k))"
  using nth_concat_blocks [of i "length ps" k "rule_rows n ps"] assms length_rule_blocks [of i ps n]
    length_vertex_blocks [of "length ps" ps n]
  by (simp add: joined_def nth_append add.assoc, simp add: rule_rows_def)

text \<open>Every row of the joined graph is of one of these two forms.\<close>

lemma block_index:
  assumes "x < f m" "f (0 :: nat) = 0" "\<And>i. i < m \<Longrightarrow> f (Suc i) = f i + (len i :: nat)"
  obtains i k where "i < m" "k < len i" "x = f i + k"
  using assms
proof (induction m arbitrary: thesis)
  case (Suc m)
  show ?case
  proof (cases "x < f m")
    case True
    then show ?thesis using Suc.IH Suc.prems by (metis less_Suc_eq)
  next
    case False
    then show ?thesis using Suc.prems(1) [of m "x - f m"] Suc.prems(2) Suc.prems(4) [of m] by auto
  qed
qed simp

subsection \<open>The loops\<close>

lemma copy_row_run:
  assumes wf: "wf_csr m vlist elist" and row: "row < m" and target: "target < length g"
    and fits: "\<And>y. y \<in> set (csr_row vlist elist row) \<Longrightarrow> 0 \<le> y \<and> y + off < 2 ^ 31" and off: "0 \<le> off"
  shows "copy_row vlist elist n off (int row) (int target) g
    = Some (g[target := g ! target @ map (shift_rule n off) (csr_row vlist elist row)])"
proof -
  let ?lo = "nat (vlist ! row)" and ?hi = "nat (vlist ! Suc row)"
  have at: "vec_at vlist (int row) = Some (int ?lo)" "vec_at vlist (int row + 1) = Some (int ?hi)"
    and le: "?lo \<le> ?hi" "?hi \<le> length elist"
    using wf_csr_at [OF wf, of "int row"] row by auto
  have "(if n \<le> y then i32_arith (y + off) else Some y) = Some (shift_rule n off y)"
    if "y \<in> set (slice ?lo ?hi elist)" for y
    using fits [of y] that off by (auto simp: shift_rule_def csr_row_def)
  then show ?thesis
    using push_range_map [OF target le, of "\<lambda>y. if n \<le> y then i32_arith (y + off) else Some y" "shift_rule n off"] at
    by (simp add: copy_row_def csr_row_def)
qed

definition parts_fit :: "part list \<Rightarrow> bool" where
  "parts_fit ps \<longleftrightarrow> vertices_before ps (length ps) + rules_before ps (length ps) < 2 ^ 31 \<and>
     length (concat (joined (vertices_before ps (length ps)) ps)) < 2 ^ 31"

abbreviation vlists :: "part list \<Rightarrow> int list list" where "vlists ps \<equiv> map fst ps"
abbreviation elists :: "part list \<Rightarrow> int list list" where "elists ps \<equiv> map (\<lambda>p. fst (snd p)) ps"
abbreviation vertex_counts :: "part list \<Rightarrow> int list" where "vertex_counts ps \<equiv> map (\<lambda>p. int (part_vertices p)) ps"
abbreviation rule_counts :: "part list \<Rightarrow> int list" where "rule_counts ps \<equiv> map (\<lambda>p. int (part_rules p)) ps"

text \<open>The graph after \<open>i\<close> parts: the other rows are still empty.\<close>

definition joined_upto :: "nat \<Rightarrow> part list \<Rightarrow> nat \<Rightarrow> graph" where
  "joined_upto n ps i = map (\<lambda>x. if x < vertices_before ps i \<or> n \<le> x \<and> x < n + rules_before ps i
     then joined n ps ! x else []) [0..<length (joined n ps)]"

lemma merge_part_run:
  assumes n: "n = vertices_before ps (length ps)" and fit: "parts_fit ps"
    and wf: "\<And>p. p \<in> set ps \<Longrightarrow> wf_part (int n) p" and i: "i < length ps"
  shows "merge_part (vlists ps) (elists ps) (vertex_counts ps) (rule_counts ps) (int n) (int i)
      (joined_upto n ps i, int (vertices_before ps i), int (rules_before ps i))
    = Some (joined_upto n ps (Suc i), int (vertices_before ps (Suc i)), int (rules_before ps (Suc i)))"
proof -
  define p nv nr voff roff where "p = ps ! i" and "nv = part_vertices p" and "nr = part_rules p"
    and "voff = vertices_before ps i" and "roff = rules_before ps i"
  note defs = p_def nv_def nr_def voff_def roff_def
  let ?T = "length (joined n ps)"
  have wfp: "wf_part (int n) p" using wf i by (simp add: p_def)
  have le: "voff + nv \<le> n" "roff + nr \<le> rules_before ps (length ps)"
    using vertices_before_mono [of "Suc i" "length ps" ps] rules_before_mono [of "Suc i" "length ps" ps] i
    by (simp_all add: defs n vertices_before_Suc rules_before_Suc)
  have bound: "int (n + rules_before ps (length ps)) < 2 ^ 31"
    using fit n unfolding parts_fit_def by (simp only: of_nat_less_numeral_power_cancel_iff)
  have copy: "copy_row (fst p) (fst (snd p)) (int n) (int roff) (int k) (int t) h
      = Some (h[t := h ! t @ map (shift_rule (int n) (int roff)) (part_row p k)])"
    if "k < nv + nr" "t < length h" for k t h
    unfolding part_row_def
  proof (rule copy_row_run [where m = "nv + nr"])
    fix y assume "y \<in> set (csr_row (fst p) (fst (snd p)) k)"
    then have "0 \<le> y" "y < int n + int nr" using wfp that by (auto simp: wf_part_def part_row_def defs)
    then show "0 \<le> y \<and> y + int roff < 2 ^ 31" using le(2) bound by linarith
  qed (use wfp that in \<open>simp_all add: wf_part_def defs\<close>)
  let ?G1 = "map (\<lambda>x. if voff \<le> x \<and> x < voff + nv then joined n ps ! x else joined_upto n ps i ! x) [0..<?T]"
  have "for_range 0 (int nv) (\<lambda>vid. copy_row (fst p) (fst (snd p)) (int n) (int roff) vid (vid + int voff)) (joined_upto n ps i)
      = Some (map (\<lambda>x. if voff \<le> x \<and> x < voff + nv then map (shift_rule (int n) (int roff)) (part_row p (x - voff))
          else joined_upto n ps i ! x) [0..<length (joined_upto n ps i)])"
  proof (rule for_range_fill_rows [where R = "\<lambda>k. map (shift_rule (int n) (int roff)) (part_row p k)"])
    show "voff + nv \<le> length (joined_upto n ps i)" using le n by (simp add: joined_upto_def)
    show "joined_upto n ps i ! (voff + k) = []" if "k < nv" for k
      using that le n by (simp add: joined_upto_def voff_def)
    show "copy_row (fst p) (fst (snd p)) (int n) (int roff) (int k) (int k + int voff) h
        = Some (h[voff + k := h ! (voff + k) @ map (shift_rule (int n) (int roff)) (part_row p k)])"
      if "k < nv" "length h = length (joined_upto n ps i)" for k h
      using copy [of k "voff + k" h] that le n by (simp add: joined_upto_def add.commute)
  qed
  also have "\<dots> = Some ?G1"
  proof -
    have "joined n ps ! x = map (shift_rule (int n) (int roff)) (part_row p (x - voff))"
      if "voff \<le> x" "x < voff + nv" for x
      using joined_vertex [OF i, of "x - voff" n] that by (simp add: defs)
    then show ?thesis by (auto simp: joined_upto_def)
  qed
  finally have L1: "for_range 0 (int nv) (\<lambda>vid. copy_row (fst p) (fst (snd p)) (int n) (int roff) vid (vid + int voff))
      (joined_upto n ps i) = Some ?G1" .
  have "for_range 0 (int nr) (\<lambda>rid. copy_row (fst p) (fst (snd p)) (int n) (int roff) (rid + int nv) (int n + rid + int roff)) ?G1
      = Some (map (\<lambda>x. if n + roff \<le> x \<and> x < n + roff + nr then map (shift_rule (int n) (int roff)) (part_row p (nv + (x - (n + roff))))
          else ?G1 ! x) [0..<length ?G1])"
  proof (rule for_range_fill_rows [where R = "\<lambda>k. map (shift_rule (int n) (int roff)) (part_row p (nv + k))"])
    show "n + roff + nr \<le> length ?G1" using le n by simp
    show "?G1 ! (n + roff + k) = []" if "k < nr" for k
      using that le n by (simp add: joined_upto_def roff_def voff_def)
    show "copy_row (fst p) (fst (snd p)) (int n) (int roff) (int k + int nv) (int n + int k + int roff) h
        = Some (h[n + roff + k := h ! (n + roff + k) @ map (shift_rule (int n) (int roff)) (part_row p (nv + k))])"
      if "k < nr" "length h = length ?G1" for k h
      using copy [of "nv + k" "n + roff + k" h] that le n by (simp add: ac_simps)
  qed
  also have "\<dots> = Some (joined_upto n ps (Suc i))"
  proof -
    have "joined n ps ! x = map (shift_rule (int n) (int roff)) (part_row p (nv + (x - (n + roff))))"
      if "n + roff \<le> x" "x < n + roff + nr" for x
      using joined_rule [OF i, of "x - (n + roff)" n] that n by (simp add: defs)
    then show ?thesis
      using i le n by (auto simp: joined_upto_def vertices_before_Suc rules_before_Suc simp flip: defs)
  qed
  finally have L2: "for_range 0 (int nr) (\<lambda>rid. copy_row (fst p) (fst (snd p)) (int n) (int roff) (rid + int nv)
      (int n + rid + int roff)) ?G1 = Some (joined_upto n ps (Suc i))" .
  have "i32_arith (int voff + int nv) = Some (int (voff + nv))" "i32_arith (int roff + int nr) = Some (int (roff + nr))"
    using le bound by auto
  then show ?thesis
    using L1 L2 i by (simp add: merge_part_def vec_at_nat vertices_before_Suc rules_before_Suc flip: defs)
qed

text \<open>Writing the rows out.\<close>

lemma write_rows:
  assumes "length (concat g) < 2 ^ 31"
  shows "for_range 0 (int (length g)) (\<lambda>i (re_vlist, re_elist, esize). do {
       row \<leftarrow> vec_at g i;
       re_elist \<leftarrow> for_range 0 (int (length row)) (\<lambda>j re_elist. do {
         x \<leftarrow> vec_at row j; Some (re_elist @ [x]) }) re_elist;
       esize \<leftarrow> i32_arith (esize + int (length row));
       Some (re_vlist @ [esize], re_elist, esize)
     }) ([0], [], 0) = Some (offsets g, concat g, int (length (concat g)))" (is "for_range _ _ ?f _ = _")
proof -
  let ?S = "\<lambda>j. (offsets (take j g), concat (take j g), int (length (concat (take j g))))"
  have "int (length (concat g)) < 2 ^ 31" using assms by (simp only: of_nat_less_numeral_power_cancel_iff)
  then have small: "int (length (concat (take j g))) < 2 ^ 31" for j using length_concat_take [of j g] by linarith
  have "for_range 0 (int (length g)) ?f (?S 0) = Some (?S (length g))"
  proof (rule for_range_nat_eq)
    fix j assume j: "j < length g"
    have "i32_arith (int (length (concat (take j g))) + int (length (g ! j)))
        = Some (int (length (concat (take (Suc j) g))))"
      using small [of "Suc j"] j by (auto simp: take_Suc_conv_app_nth i32_arith_def)
    then show "?f (int j) (?S j) = Some (?S (Suc j))"
      using j append_renamed [of "g ! j" Some id] by (simp add: vec_at_nat take_Suc_conv_app_nth offsets_snoc)
  qed
  then show ?thesis by simp
qed

lemma merge_parts_run:
  assumes n: "n = vertices_before ps (length ps)" and fit: "parts_fit ps"
    and wf: "\<And>p. p \<in> set ps \<Longrightarrow> wf_part (int n) p"
  shows "merge_parts 0 (vlists ps) (elists ps) (vertex_counts ps) (rule_counts ps)
    = Some (offsets (joined n ps), concat (joined n ps), int n, int (rules_before ps (length ps)))"
proof -
  let ?m = "length ps" and ?G = "joined n ps"
  have bound: "int (n + rules_before ps ?m) < 2 ^ 31"
    using fit n unfolding parts_fit_def by (simp only: of_nat_less_numeral_power_cancel_iff)
  let ?f = "\<lambda>i (vertex_cnt, rule_cnt). do { nv \<leftarrow> vec_at (vertex_counts ps) i; nr \<leftarrow> vec_at (rule_counts ps) i;
      vertex_cnt \<leftarrow> i32_arith (vertex_cnt + nv); rule_cnt \<leftarrow> i32_arith (rule_cnt + nr); Some (vertex_cnt, rule_cnt) }"
  let ?C = "\<lambda>i. (int (vertices_before ps i), int (rules_before ps i))"
  have "for_range 0 (int ?m) ?f (?C 0) = Some (?C ?m)"
  proof (rule for_range_nat_eq)
    fix i assume i: "i < ?m"
    have "int (vertices_before ps (Suc i)) < 2 ^ 31" "int (rules_before ps (Suc i)) < 2 ^ 31"
      using bound n vertices_before_mono [of "Suc i" ?m ps] rules_before_mono [of "Suc i" ?m ps] i by linarith+
    then show "?f (int i) (?C i) = Some (?C (Suc i))"
      using i by (simp add: vec_at_nat vertices_before_Suc rules_before_Suc)
  qed
  then have counts: "for_range 0 (int ?m) ?f (0, 0) = Some (int n, int (rules_before ps ?m))"
    by (simp add: vertices_before_def rules_before_def n)
  let ?S = "\<lambda>i. (joined_upto n ps i, int (vertices_before ps i), int (rules_before ps i))"
  have "for_range 0 (int ?m) (merge_part (vlists ps) (elists ps) (vertex_counts ps) (rule_counts ps) (int n)) (?S 0)
      = Some (?S ?m)"
    by (rule for_range_nat_eq) (rule merge_part_run [OF n fit wf])
  moreover have "joined_upto n ps 0 = replicate (n + rules_before ps ?m) []"
    by (intro nth_equalityI) (auto simp: joined_upto_def vertices_before_def rules_before_def n)
  moreover have "joined_upto n ps ?m = ?G" by (intro nth_equalityI) (auto simp: joined_upto_def n)
  ultimately have "for_range 0 (int ?m) (merge_part (vlists ps) (elists ps) (vertex_counts ps) (rule_counts ps) (int n))
      (replicate (n + rules_before ps ?m) [], 0, 0) = Some (?G, int n, int (rules_before ps ?m))"
    by (simp add: vertices_before_def rules_before_def n)
  moreover have "i32_arith (int n + int (rules_before ps ?m)) = Some (int (length ?G))" using bound n by simp
  moreover have "length (concat ?G) < 2 ^ 31" using fit n by (simp add: parts_fit_def)
  ultimately show ?thesis
    using counts write_rows [of ?G] n by (simp add: merge_parts_def Let_def)
qed

lemma wf_joined:
  assumes n: "n = vertices_before ps (length ps)" and wf: "\<And>p. p \<in> set ps \<Longrightarrow> wf_part (int n) p"
  shows "wf_grammar (joined n ps) (int n)"
proof (rule wf_grammarI)
  let ?m = "length ps"
  have sym: "0 \<le> y \<and> y < int (length (joined n ps)) \<and> (part_vertices (ps ! i) \<le> k \<longrightarrow> y < int (n + rules_before ps i + (k - part_vertices (ps ! i))))"
    if i: "i < ?m" and k: "k < part_vertices (ps ! i) + part_rules (ps ! i)"
      and y: "y \<in> set (map (shift_rule (int n) (int (rules_before ps i))) (part_row (ps ! i) k))" for i k y
  proof -
    obtain z where z: "z \<in> set (part_row (ps ! i) k)" "y = shift_rule (int n) (int (rules_before ps i)) z" using y by auto
    have "0 \<le> z" "z < int n + int (part_rules (ps ! i))"
      "part_vertices (ps ! i) \<le> k \<Longrightarrow> z < int n + int (k - part_vertices (ps ! i))"
      using wf [of "ps ! i"] i k z(1) by (auto simp: wf_part_def)
    moreover have "rules_before ps i + part_rules (ps ! i) \<le> rules_before ps ?m"
      using rules_before_mono [of "Suc i" ?m ps] i by (simp add: rules_before_Suc)
    ultimately show ?thesis using z(2) n by (auto simp: shift_rule_def)
  qed
  have row: "(\<exists>i k. i < ?m \<and> k < part_vertices (ps ! i) \<and> x = vertices_before ps i + k) \<or>
      (\<exists>i k. i < ?m \<and> k < part_rules (ps ! i) \<and> x = n + rules_before ps i + k)" if "x < length (joined n ps)" for x
  proof (cases "x < n")
    case True
    then obtain i k where "i < ?m" "k < part_vertices (ps ! i)" "x = vertices_before ps i + k"
      by (rule block_index [of x "vertices_before ps" ?m "\<lambda>i. part_vertices (ps ! i)", unfolded n [symmetric]])
        (simp_all add: vertices_before_Suc)
    then show ?thesis by blast
  next
    case False
    then have "x - n < rules_before ps ?m" using that n by simp
    then obtain i k where "i < ?m" "k < part_rules (ps ! i)" "x - n = rules_before ps i + k"
      by (rule block_index [of "x - n" "rules_before ps" ?m "\<lambda>i. part_rules (ps ! i)"])
        (simp_all add: rules_before_Suc)
    moreover have "x = n + (x - n)" using False by simp
    ultimately show ?thesis by (metis add.assoc)
  qed
  fix x y assume x: "x < length (joined n ps)" and y: "y \<in> set (joined n ps ! x)"
  have both: "0 \<le> y \<and> y < int (length (joined n ps)) \<and> (n \<le> x \<longrightarrow> y < int x)"
    using row [OF x]
  proof (elim disjE exE conjE)
    fix i k assume ik: "i < ?m" "k < part_vertices (ps ! i)" "x = vertices_before ps i + k"
    have "x < n" using vertices_before_mono [of "Suc i" ?m ps] ik n by (simp add: vertices_before_Suc)
    then show ?thesis using sym [of i k y] y joined_vertex [of i ps k n] ik by simp
  next
    fix i k assume ik: "i < ?m" "k < part_rules (ps ! i)" "x = n + rules_before ps i + k"
    then show ?thesis using sym [of i "part_vertices (ps ! i) + k" y] y joined_rule [of i ps k n] n by simp
  qed
  then show "0 \<le> y \<and> y < int (length (joined n ps))" by simp
  show "int n \<le> int x \<Longrightarrow> y < int x" using both by simp
qed (use n in simp_all)

text \<open>
  Property C7. When the parts are well formed and the loop counter starts at zero, the
  joined graph is well formed and every vertex has, in the joined graph, exactly the
  neighbours its own part gives it.
\<close>

theorem merge_parts_neighbours:
  assumes "n = vertices_before ps (length ps)" and "parts_fit ps" and "\<forall>p\<in>set ps. wf_part (int n) p"
  shows "\<exists>vlist elist. merge_parts 0 (vlists ps) (elists ps) (vertex_counts ps) (rule_counts ps)
      = Some (vlist, elist, int n, int (rules_before ps (length ps))) \<and>
    wf_csr (n + rules_before ps (length ps)) vlist elist \<and>
    wf_grammar (csr_graph (n + rules_before ps (length ps)) vlist elist) (int n) \<and>
    (\<forall>i<length ps. \<forall>v<part_vertices (ps ! i).
       neighbours (csr_graph (n + rules_before ps (length ps)) vlist elist) (int n) (vertices_before ps i + v)
       = expand_row (part_rule (int n) (ps ! i)) (int n) (part_row (ps ! i) v))"
proof -
  let ?G = "joined n ps" and ?r = "rules_before ps (length ps)"
  have wf: "wf_grammar ?G (int n)" using wf_joined assms by simp
  have len: "length ?G = n + ?r" using assms(1) by simp
  have "neighbours ?G (int n) (vertices_before ps i + v) = expand_row (part_rule (int n) (ps ! i)) (int n) (part_row (ps ! i) v)"
    if i: "i < length ps" and v: "v < part_vertices (ps ! i)" for i v
  proof -
    let ?off = "int (rules_before ps i)" and ?p = "ps ! i"
    have wfp: "wf_part (int n) ?p" using assms(3) i by simp
    have le: "rules_before ps i + part_rules ?p \<le> ?r"
      using rules_before_mono [of "Suc i" "length ps" ps] i by (simp add: rules_before_Suc)
    have sh: "expand (rows ?G) (int n) (shift_rule (int n) ?off y) = expand (part_rule (int n) ?p) (int n) y"
      if "0 \<le> y" "y < int n + int (part_rules ?p)" for y
    proof (rule expand_shift [OF wf_part_ordered [OF wfp] wf_grammar_ordered [OF wf]])
      fix x assume x: "int n \<le> x" "x < int n + int (part_rules ?p)"
      have "nat (x + ?off) = n + rules_before ps i + nat (x - int n)" using x by (simp add: nat_add_distrib nat_diff_distrib)
      then show "rows ?G (x + ?off) = map (shift_rule (int n) ?off) (part_rule (int n) ?p x)"
        using joined_rule [OF i, of "nat (x - int n)" n] x assms(1) by (simp add: part_rule_def nat_less_iff)
    qed (use that le len in auto)
    have "expand_row (rows ?G) (int n) (map (shift_rule (int n) ?off) (part_row ?p v))
        = expand_row (part_rule (int n) ?p) (int n) (part_row ?p v)"
      unfolding map_map
    proof (intro arg_cong [of _ _ concat] map_cong refl)
      fix y assume "y \<in> set (part_row ?p v)"
      moreover have "v < part_vertices ?p + part_rules ?p" using v by simp
      ultimately show "(expand (rows ?G) (int n) \<circ> shift_rule (int n) ?off) y = expand (part_rule (int n) ?p) (int n) y"
        using wfp sh [of y] unfolding wf_part_def comp_apply by blast
    qed
    then show ?thesis using joined_vertex [OF i v, of n] by (simp add: neighbours_def)
  qed
  then show ?thesis
    using merge_parts_run [OF assms(1,2)] assms(3) wf wf_offsets [of ?G] csr_graph_offsets [of ?G] len by simp
qed

theorem merge_parts_neighbours_witness:
  "\<exists>vlist elist. merge_parts 0 [[0, 2, 4], [0, 2, 4]] [[2, 1, 0, 1], [2, 2, 1, 0]] [1, 1] [1, 1]
      = Some (vlist, elist, 2, 2) \<and> wf_csr 4 vlist elist \<and>
    neighbours (csr_graph 4 vlist elist) 2 0 = [0, 1, 1] \<and> neighbours (csr_graph 4 vlist elist) 2 1 = [1, 0, 1, 0]"
proof -
  let ?ps = "[([0, 2, 4], [2, 1, 0, 1], 1, 1), ([0, 2, 4], [2, 2, 1, 0], 1, 1)] :: part list"
  have J: "joined 2 ?ps = [[2, 1], [3, 3], [0, 1], [1, 0]]" by code_simp
  have at: "vertices_before ?ps (length ?ps) = 2" "rules_before ?ps (length ?ps) = 2" "vertices_before ?ps 1 = 1"
    by code_simp+
  have fit: "parts_fit ?ps" unfolding parts_fit_def at J by simp
  have wf: "\<forall>p\<in>set ?ps. wf_part (int 2) p"
    by (auto simp: wf_part_def part_row_def wf_csr_def csr_row_def slice_def less_Suc_eq)
  obtain vlist elist where run: "merge_parts 0 (vlists ?ps) (elists ?ps) (vertex_counts ?ps) (rule_counts ?ps)
      = Some (vlist, elist, int 2, int 2)" and wf: "wf_csr (2 + 2) vlist elist"
    and nb: "\<forall>i<length ?ps. \<forall>v<part_vertices (?ps ! i).
       neighbours (csr_graph (2 + 2) vlist elist) (int 2) (vertices_before ?ps i + v)
       = expand_row (part_rule (int 2) (?ps ! i)) (int 2) (part_row (?ps ! i) v)"
    using merge_parts_neighbours [OF at(1) [symmetric] fit wf] unfolding at by (elim exE conjE)
  have "expand_row (part_rule (int 2) (?ps ! 0)) (int 2) (part_row (?ps ! 0) 0) = [0, 1, 1]"
    "expand_row (part_rule (int 2) (?ps ! 1)) (int 2) (part_row (?ps ! 1) 0) = [1, 0, 1, 0]"
    by code_simp+
  then have "neighbours (csr_graph 4 vlist elist) 2 0 = [0, 1, 1]" "neighbours (csr_graph 4 vlist elist) 2 1 = [1, 0, 1, 0]"
    using nb [rule_format, of 0 0] nb [rule_format, of 1 0] at(3) by simp_all
  then show ?thesis using run wf by auto
qed

end
