(* ===== verification/Convert.thy ===== *)
theory Convert
  imports Csr
begin

text \<open>
  The conversions between the two array forms of a graph, \<open>compress_op/convert.h\<close>: \<open>csr2coo\<close>
  and \<open>coo2csr\<close>, and that they are inverse to each other.  The arrays that \<open>py::array_t\<close>
  allocates are not initialised; \<open>junk\<close> is what their cells hold before they are written.
\<close>

subsection \<open>The code\<close>

text \<open>\<open>while (cur_v != v) vlist_ptr[++cur_v] = e_size;\<close>\<close>

function fill_offsets :: "int list \<Rightarrow> int \<Rightarrow> int \<Rightarrow> int \<Rightarrow> (int list \<times> int) option" where
  "fill_offsets vlist cur_v v e_size =
     (if cur_v = v then Some (vlist, cur_v)
      else case vec_set vlist (cur_v + 1) e_size of None \<Rightarrow> None
        | Some vlist' \<Rightarrow> fill_offsets vlist' (cur_v + 1) v e_size)"
  by pat_completeness auto
termination
  by (relation "measure (\<lambda>(vlist, cur_v, v, e_size). nat (int (length vlist) - cur_v))")
    (auto simp: vec_set_eq_Some_iff)

declare fill_offsets.simps [simp del]

definition coo2csr :: "int \<Rightarrow> int list \<Rightarrow> int list \<Rightarrow> int \<Rightarrow> (int list \<times> int list) option" where
  "coo2csr junk src dst vertex_cnt = do {
     let edge_cnt = int (length src);
     vlist \<leftarrow> vec_set (replicate (nat (vertex_cnt + 1)) junk) 0 0;
     (vlist, elist, cur_v, e_size) \<leftarrow> for_range 0 edge_cnt (\<lambda>e (vlist, elist, cur_v, e_size). do {
         v \<leftarrow> vec_at src e;
         (vlist', cur_v') \<leftarrow> fill_offsets vlist cur_v v e_size;
         d \<leftarrow> vec_at dst e;
         elist' \<leftarrow> vec_set elist e d;
         Some (vlist', elist', cur_v', e_size + 1)
       }) (vlist, replicate (nat edge_cnt) junk, 0, 0);
     (vlist', cur_v') \<leftarrow> fill_offsets vlist cur_v vertex_cnt e_size;
     Some (vlist', elist)
   }"

definition csr2coo :: "int \<Rightarrow> int list \<Rightarrow> int list \<Rightarrow> (int list \<times> int list) option" where
  "csr2coo junk vlist elist = do {
     let vertex_cnt = to_u64 (int (length vlist) - 1);
     let edge_cnt = length elist;
     for_range 0 vertex_cnt (\<lambda>v (src, dst). do {
       start \<leftarrow> vec_at vlist v;
       end \<leftarrow> vec_at vlist (v + 1);
       for_range start end (\<lambda>e (src, dst). do {
         src' \<leftarrow> vec_set src e v;
         x \<leftarrow> vec_at elist e;
         dst' \<leftarrow> vec_set dst e x;
         Some (src', dst')
       }) (src, dst)
     }) (replicate edge_cnt junk, replicate edge_cnt junk)
   }"

subsection \<open>The sources of the edges, row by row\<close>

definition row_sources :: "graph \<Rightarrow> int list" where
  "row_sources g = concat (map (\<lambda>i. replicate (length (g ! i)) (int i)) [0..<length g])"

lemma row_sources_snoc: "row_sources (g @ [row]) = row_sources g @ replicate (length row) (int (length g))"
proof -
  have "concat (map (\<lambda>i. replicate (length ((g @ [row]) ! i)) (int i)) [0..<length g]) = row_sources g"
    unfolding row_sources_def by (intro arg_cong [of _ _ concat] map_cong) (auto simp: nth_append)
  then show ?thesis by (simp add: row_sources_def)
qed

lemma row_sources_Nil [simp]: "row_sources [] = []"
  by (simp add: row_sources_def)

lemma length_row_sources [simp]: "length (row_sources g) = length (concat g)"
  by (induction g rule: rev_induct) (simp_all add: row_sources_snoc)

lemma row_sources_range: "s \<in> set (row_sources g) \<Longrightarrow> 0 \<le> s \<and> s < int (length g)"
  by (auto simp: row_sources_def)

lemma sorted_row_sources: "sorted (row_sources g)"
proof (induction g rule: rev_induct)
  case (snoc row g)
  then show ?case using row_sources_range [of _ g] by (force simp: row_sources_snoc sorted_append)
qed simp

lemma coo_row_sources: "coo_graph (length g) (row_sources g) (concat g) = g"
proof (induction g rule: rev_induct)
  case (snoc row g)
  have "coo_row (replicate k s) row' v = (if v = s then row' else [])" if "length row' = k" for k s v and row' :: "int list"
    using that by (induction k arbitrary: row') (auto simp: coo_row_def length_Suc_conv)
  then have app: "coo_row (row_sources (g @ [row])) (concat (g @ [row])) v =
      coo_row (row_sources g) (concat g) v @ (if v = int (length g) then row else [])" for v
    by (simp add: row_sources_snoc coo_row_append)
  have "coo_row (row_sources g) (concat g) (int (length g)) = []"
    using row_sources_range [of _ g] by (fastforce simp: coo_row_def filter_empty_conv dest: set_zip_leftD)
  moreover have "map (\<lambda>v. coo_row (row_sources g) (concat g) (int v) @ (if v = length g then row else [])) [0..<length g]
      = coo_graph (length g) (row_sources g) (concat g)"
    by (simp add: coo_graph_def)
  ultimately show ?case unfolding snoc.IH by (simp add: coo_graph_def app del: concat_append)
qed (simp add: coo_graph_def)

subsection \<open>From rows to coordinates\<close>

lemma take_Suc_nth: "v < length g \<Longrightarrow> take (Suc v) g = take v g @ [g ! v]"
  by (rule take_Suc_conv_app_nth)

lemma csr2coo_rows:
  assumes fits: "length g < 2 ^ 64"
  shows "csr2coo junk (offsets g) (concat g) = Some (row_sources g, concat g)"
proof -
  let ?E = "length (concat g)" and ?at = "\<lambda>v. length (concat (take v g))"
  let ?S = "\<lambda>v. (row_sources (take v g) @ replicate (?E - ?at v) junk,
      concat (take v g) @ replicate (?E - ?at v) junk)"
  let ?body = "\<lambda>v e (src, dst). do { src' \<leftarrow> vec_set src e v; x \<leftarrow> vec_at (concat g) e;
      dst' \<leftarrow> vec_set dst e x; Some (src', dst') }"
  let ?f = "\<lambda>v (src, dst). do { start \<leftarrow> vec_at (offsets g) v; end \<leftarrow> vec_at (offsets g) (v + 1);
      for_range start end (?body v) (src, dst) }"
  have "for_range 0 (int (length g)) ?f (?S 0) = Some (?S (length g))"
  proof (rule for_range_nat_eq)
    fix v assume v: "v < length g"
    have next_at: "?at (Suc v) = ?at v + length (g ! v)" using v by (simp add: take_Suc_nth)
    have le: "?at (Suc v) \<le> ?E" by (rule length_concat_take)
    let ?T = "\<lambda>e. (row_sources (take v g) @ replicate (e - ?at v) (int v) @ replicate (?E - e) junk,
        concat (take v g) @ take (e - ?at v) (g ! v) @ replicate (?E - e) junk)"
    have "for_range (int (?at v)) (int (?at (Suc v))) (?body (int v)) (?T (?at v)) = Some (?T (?at (Suc v)))"
    proof (rule for_range_from_eq)
      fix e assume e: "?at v \<le> e" "e < ?at (Suc v)"
      define k where "k = e - ?at v"
      have k: "e = ?at v + k" "k < length (g ! v)" using e next_at by (auto simp: k_def)
      have rep: "replicate (?E - e) junk = junk # replicate (?E - Suc e) junk"
        using e le by (simp add: Suc_diff_Suc flip: replicate_Suc)
      have "concat g ! e = g ! v ! k"
        using csr_row_offsets [OF v] slice_nth [of "?at v" k "?at (Suc v)" "concat g"] k next_at le v
        by (simp add: csr_row_def offsets_nth)
      moreover have "e < ?E" using e le by simp
      ultimately have "vec_at (concat g) (int e) = Some (g ! v ! k)" by (simp add: vec_at_nat)
      moreover have "Suc e - ?at v = Suc k" "e - ?at v = k" using k by simp_all
      moreover have "take (Suc k) (g ! v) = take k (g ! v) @ [g ! v ! k]"
        using k by (simp add: take_Suc_conv_app_nth)
      moreover have "replicate (Suc k) (int v) = replicate k (int v) @ [int v]" by (simp add: replicate_append_same)
      moreover have "vec_set (row_sources (take v g) @ replicate k (int v) @ junk # replicate (?E - Suc e) junk) (int e) (int v)
          = Some (row_sources (take v g) @ replicate k (int v) @ int v # replicate (?E - Suc e) junk)"
        using vec_set_append [of "row_sources (take v g) @ replicate k (int v)" e] k by simp
      moreover have "vec_set (concat (take v g) @ take k (g ! v) @ junk # replicate (?E - Suc e) junk) (int e) (g ! v ! k)
          = Some (concat (take v g) @ take k (g ! v) @ g ! v ! k # replicate (?E - Suc e) junk)"
        using vec_set_append [of "concat (take v g) @ take k (g ! v)" e] k by simp
      ultimately show "?body (int v) (int e) (?T e) = Some (?T (Suc e))"
        using rep by (simp del: replicate_Suc)
    qed (simp add: next_at)
    then show "?f (int v) (?S v) = Some (?S (Suc v))"
      using v next_at by (simp add: vec_at_def offsets_nth nat_add_distrib take_Suc_nth row_sources_snoc)
  qed
  then show ?thesis using fits by (simp add: csr2coo_def Let_def)
qed

subsection \<open>From coordinates to rows\<close>

text \<open>The offset of row \<open>i\<close>: the number of edges of the rows before it.\<close>

definition edges_before :: "int list \<Rightarrow> nat \<Rightarrow> int" where
  "edges_before src i = int (length (filter (\<lambda>s. s < int i) src))"

lemma edges_before_sorted:
  assumes "sorted src" "e \<le> length src" "\<And>k. k < e \<Longrightarrow> src ! k < int i"
    and "e < length src \<Longrightarrow> int i \<le> src ! e"
  shows "edges_before src i = int e"
proof -
  have split: "src = take e src @ drop e src" by simp
  have "s < int i" if "s \<in> set (take e src)" for s
    using that assms(2,3) by (auto simp: in_set_conv_nth)
  moreover have "int i \<le> s" if s: "s \<in> set (drop e src)" for s
  proof -
    obtain k where "k < length (drop e src)" "s = drop e src ! k" using s unfolding in_set_conv_nth by blast
    then have k: "k < length src - e" "s = src ! (e + k)" using assms(2) by simp_all
    then have "src ! e \<le> s" using sorted_nth_mono [OF assms(1), of e "e + k"] by simp
    then show ?thesis using assms(4) k by linarith
  qed
  ultimately have "filter (\<lambda>s. s < int i) (take e src) = take e src" "filter (\<lambda>s. s < int i) (drop e src) = []"
    by (auto simp: filter_id_conv filter_empty_conv not_less)
  then have "filter (\<lambda>s. s < int i) (take e src @ drop e src) = take e src" by (simp only: filter_append append_Nil2)
  then show ?thesis using assms(2) by (simp add: edges_before_def)
qed

lemma fill_offsets_run:
  assumes "cur \<le> v" "v < length (pre @ post)" "length pre = Suc cur"
  shows "fill_offsets (pre @ post) (int cur) (int v) e
    = Some (pre @ replicate (v - cur) e @ drop (v - cur) post, int v)"
  using assms
proof (induction "v - cur" arbitrary: cur pre post)
  case 0
  then show ?case by (simp add: fill_offsets.simps)
next
  case (Suc k)
  then obtain x post' where post: "post = x # post'" by (cases post) auto
  have diff: "v - cur = Suc (v - Suc cur)" using Suc.hyps(2) by simp
  have "vec_set (pre @ x # post') (int (Suc cur)) e = Some (pre @ e # post')"
    using Suc.prems by (intro vec_set_append) simp
  then have "fill_offsets (pre @ post) (int cur) (int v) e = fill_offsets ((pre @ [e]) @ post') (int (Suc cur)) (int v) e"
    using Suc.hyps(2) post by (subst fill_offsets.simps) (auto simp: add.commute)
  also have "\<dots> = Some ((pre @ [e]) @ replicate (v - Suc cur) e @ drop (v - Suc cur) post', int v)"
    using Suc.hyps(2) Suc.prems post by (intro Suc.hyps(1)) auto
  finally show ?case by (simp add: post diff)
qed

lemma map_edges_before_extend:
  assumes "cur \<le> v" "\<And>i. cur < i \<Longrightarrow> i \<le> v \<Longrightarrow> edges_before src i = e"
  shows "map (edges_before src) [0..<Suc cur] @ replicate (v - cur) e = map (edges_before src) [0..<Suc v]"
proof -
  have "[0..<Suc v] = [0..<Suc cur] @ [Suc cur..<Suc v]"
    using assms(1) by (metis Suc_le_mono le0 upt_add_eq_append le_add_diff_inverse)
  moreover have "map (edges_before src) [Suc cur..<Suc v] = replicate (v - cur) e"
    using assms(2) by (intro replicate_eqI) auto
  ultimately show ?thesis by (simp del: upt_Suc)
qed

lemma coo2csr_offsets:
  assumes sorted: "sorted src" and len: "length dst = length src"
    and range: "\<And>s. s \<in> set src \<Longrightarrow> 0 \<le> s \<and> s < int n"
  shows "coo2csr junk src dst (int n) = Some (map (edges_before src) [0..<Suc n], dst)"
proof -
  let ?E = "length src"
  let ?cur = "\<lambda>e. if e = 0 then 0 else nat (src ! (e - 1))"
  let ?S = "\<lambda>e. (map (edges_before src) [0..<Suc (?cur e)] @ replicate (n - ?cur e) junk,
      take e dst @ replicate (?E - e) junk, int (?cur e), int e)"
  let ?f = "\<lambda>e (vlist, elist, cur_v, e_size). do { v \<leftarrow> vec_at src e;
      (vlist', cur_v') \<leftarrow> fill_offsets vlist cur_v v e_size; d \<leftarrow> vec_at dst e;
      elist' \<leftarrow> vec_set elist e d; Some (vlist', elist', cur_v', e_size + 1) }"
  have src: "0 \<le> src ! k" "src ! k < int n" if "k < ?E" for k using range that by simp_all
  have cur_lt: "int (?cur e) \<le> src ! e" if "e < ?E" for e
    using src sorted_nth_mono [OF sorted, of "e - 1" e] that by auto
  have before: "edges_before src i = int e" if "e \<le> ?E" "?cur e < i" "e < ?E \<Longrightarrow> int i \<le> src ! e" for e i
  proof (rule edges_before_sorted [OF sorted that(1)])
    fix k assume k: "k < e"
    then have "src ! k \<le> src ! (e - 1)" using that(1) by (intro sorted_nth_mono [OF sorted]) auto
    also have "\<dots> < int i" using that(1,2) k src [of "e - 1"] by (auto simp: nat_less_iff)
    finally show "src ! k < int i" .
  qed (use that in simp)
  have step: "fill_offsets (map (edges_before src) [0..<Suc (?cur e)] @ replicate (n - ?cur e) junk) (int (?cur e)) (int v) (int e)
      = Some (map (edges_before src) [0..<Suc v] @ replicate (n - v) junk, int v)"
    if e: "e \<le> ?E" "?cur e \<le> v" "v \<le> n" "e < ?E \<Longrightarrow> int v \<le> src ! e" for e v
  proof -
    have "map (edges_before src) [0..<Suc (?cur e)] @ replicate (v - ?cur e) (int e) = map (edges_before src) [0..<Suc v]"
      using e by (intro map_edges_before_extend before) auto
    then show ?thesis
      using fill_offsets_run [of "?cur e" v "map (edges_before src) [0..<Suc (?cur e)]" "replicate (n - ?cur e) junk" "int e"] e
      by (simp del: upt_Suc add: append_assoc [symmetric])
  qed
  have "for_range 0 (int ?E) ?f (?S 0) = Some (?S ?E)"
  proof (rule for_range_nat_eq)
    fix e assume e: "e < ?E"
    have "vec_set (take e dst @ replicate (?E - e) junk) (int e) (dst ! e)
        = Some (take (Suc e) dst @ replicate (?E - Suc e) junk)"
      using vec_set_append [of "take e dst" e junk "replicate (?E - Suc e) junk" "dst ! e"] e len
      by (simp add: take_Suc_conv_app_nth Suc_diff_Suc flip: replicate_Suc)
    moreover have "fill_offsets (map (edges_before src) [0..<Suc (?cur e)] @ replicate (n - ?cur e) junk) (int (?cur e)) (src ! e) (int e)
      = Some (map (edges_before src) [0..<Suc (nat (src ! e))] @ replicate (n - nat (src ! e)) junk, src ! e)"
      using step [of e "nat (src ! e)"] e src [OF e] cur_lt [OF e] by (simp del: upt_Suc)
    ultimately show "?f (int e) (?S e) = Some (?S (Suc e))"
      using e len src [OF e] by (simp add: vec_at_nat del: upt_Suc)
  qed
  moreover have "edges_before src 0 = 0" using range by (fastforce simp: edges_before_def filter_empty_conv)
  then have "vec_set (replicate (nat (int n + 1)) junk) 0 0 = Some (map (edges_before src) [0..<Suc 0] @ replicate n junk)"
    by (simp add: vec_set_def nat_add_distrib)
  moreover have "?cur ?E \<le> n" using src [of "?E - 1"] by (cases ?E) auto
  ultimately show ?thesis
    using step [of ?E n] len by (simp add: coo2csr_def Let_def del: upt_Suc)
qed

text \<open>These are the rows of the graph that the edges denote.\<close>

lemma coo_rows_concat:
  assumes "sorted src" "length dst = length src" "\<And>s. s \<in> set src \<Longrightarrow> 0 \<le> s"
  shows "concat (coo_graph k src dst) = map snd (filter (\<lambda>(s, d). s < int k) (zip src dst))"
proof (induction k)
  case 0
  then show ?case using assms(3) by (fastforce simp: coo_graph_def filter_empty_conv dest: set_zip_leftD)
next
  case (Suc k)
  have "filter (\<lambda>(s, d). s < int (Suc k)) xs = filter (\<lambda>(s, d). s < int k) xs @ filter (\<lambda>(s, d). s = int k) xs"
    if "sorted (map fst xs)" for xs :: "(int \<times> int) list"
    using that
  proof (induction xs)
    case (Cons a xs)
    show ?case
    proof (cases "fst a < int k")
      case False
      then have "filter (\<lambda>p. fst p < int k) xs = []" using Cons.prems by (fastforce simp: filter_empty_conv)
      then show ?thesis using Cons False by (auto simp: case_prod_beta)
    qed (use Cons in \<open>auto simp: case_prod_beta\<close>)
  qed simp
  moreover have "sorted (map fst (zip src dst))" using assms(1,2) by simp
  ultimately show ?case using Suc by (simp add: coo_graph_def coo_row_def)
qed

lemma coo_graph_dst:
  assumes "sorted src" "length dst = length src" "\<And>s. s \<in> set src \<Longrightarrow> 0 \<le> s \<and> s < int n"
  shows "concat (coo_graph n src dst) = dst"
proof -
  have "filter (\<lambda>(s, d). s < int n) (zip src dst) = zip src dst"
    using assms(3) by (fastforce simp: filter_id_conv dest: set_zip_leftD)
  then show ?thesis using coo_rows_concat [OF assms(1,2), of n] assms by simp
qed

lemma coo_graph_offsets:
  assumes "sorted src" "length dst = length src" "\<And>s. s \<in> set src \<Longrightarrow> 0 \<le> s"
  shows "offsets (coo_graph n src dst) = map (edges_before src) [0..<Suc n]"
  unfolding offsets_def
proof (rule map_cong)
  fix i assume "i \<in> set [0..<Suc n]"
  then have "i \<le> n" by (simp del: upt_Suc)
  then have "take i (coo_graph n src dst) = coo_graph i src dst" by (simp add: coo_graph_def take_map)
  moreover have "length (filter (\<lambda>(s, d). P s) (zip src dst)) = length (filter P src)" for P
    using assms(2) by (induction src dst rule: list_induct2') auto
  ultimately show "int (length (concat (take i (coo_graph n src dst)))) = edges_before src i"
    using coo_rows_concat [OF assms, of i] by (simp add: edges_before_def)
qed simp

text \<open>A sorted list of sources is determined by how often each occurs.\<close>

lemma count_row_sources:
  "count (mset (row_sources g)) s = (if 0 \<le> s \<and> s < int (length g) then length (g ! nat s) else 0)"
proof (induction g rule: rev_induct)
  case (snoc row g)
  have "s < int (length g) \<Longrightarrow> 0 \<le> s \<Longrightarrow> nat s < length g" by (simp add: nat_less_iff)
  then show ?case using snoc by (auto simp: row_sources_snoc nth_append)
qed auto

lemma row_sources_coo:
  assumes "sorted src" "length dst = length src" "\<And>s. s \<in> set src \<Longrightarrow> 0 \<le> s \<and> s < int n"
  shows "row_sources (coo_graph n src dst) = src"
proof -
  have len: "length (coo_row src dst s) = count (mset src) s" for s
    using assms(2) unfolding coo_row_def by (induction src dst rule: list_induct2') auto
  have "mset (row_sources (coo_graph n src dst)) = mset src"
  proof (rule multiset_eqI)
    fix s
    show "count (mset (row_sources (coo_graph n src dst))) s = count (mset src) s"
    proof (cases "0 \<le> s \<and> s < int n")
      case True
      then show ?thesis by (simp add: count_row_sources coo_graph_def nat_less_iff len)
    next
      case False
      then have "s \<notin># mset src" using assms(3) by auto
      then have "count (mset src) s = 0" by (simp only: not_in_iff)
      then show ?thesis using False by (simp only: count_row_sources length_coo_graph if_False)
    qed
  qed
  then show ?thesis by (metis assms(1) properties_for_sort sorted_row_sources)
qed

subsection \<open>What the conversions promise\<close>

text \<open>
  Property C5. For edges sorted by source, \<open>coo2csr\<close> returns, whatever the fresh arrays held, a
  well-formed compressed sparse row graph whose rows are the neighbours the edges give each vertex,
  in their order.
\<close>

theorem coo2csr_rows:
  assumes "sorted src" "length dst = length src" "\<forall>s\<in>set src. 0 \<le> s \<and> s < int n"
  shows "\<exists>vlist. coo2csr junk src dst (int n) = Some (vlist, dst) \<and> wf_csr n vlist dst \<and>
    csr_graph n vlist dst = coo_graph n src dst"
proof -
  let ?g = "coo_graph n src dst"
  have "coo2csr junk src dst (int n) = Some (offsets ?g, dst)"
    using coo2csr_offsets [of src dst n junk] coo_graph_offsets [of src dst n] assms by simp
  then show ?thesis
    using wf_offsets [of ?g] csr_graph_offsets [of ?g] coo_graph_dst [of src dst n] assms by simp
qed

theorem coo2csr_rows_witness:
  "\<exists>vlist. coo2csr 7 [0, 0, 2] [1, 2, 0] 3 = Some (vlist, [1, 2, 0]) \<and> wf_csr 3 vlist [1, 2, 0] \<and>
    csr_graph 3 vlist [1, 2, 0] = [[1, 2], [], [0]]"
proof -
  have "coo_graph 3 [0, 0, 2] [1, 2, 0] = [[1, 2], [], [0]]" by code_simp
  then show ?thesis using coo2csr_rows [of "[0, 0, 2]" "[1, 2, 0]" 3 7] by simp
qed

text \<open>
  Property C6. Converting a graph from rows to coordinates and back gives the same arrays, and
  so does the way from sorted coordinates to rows and back.
\<close>

theorem convert_round_trip:
  assumes "length g < 2 ^ 64"
  shows "(do { (src, dst) \<leftarrow> csr2coo junk (offsets g) (concat g); coo2csr junk src dst (int (length g)) })
      = Some (offsets g, concat g) \<and>
    (do { (vlist, elist) \<leftarrow> coo2csr junk (row_sources g) (concat g) (int (length g)); csr2coo junk vlist elist })
      = Some (row_sources g, concat g)"
proof -
  have "coo2csr junk (row_sources g) (concat g) (int (length g)) = Some (offsets g, concat g)"
    using coo2csr_offsets [of "row_sources g" "concat g" "length g" junk] sorted_row_sources [of g]
      coo_graph_offsets [of "row_sources g" "concat g" "length g"] coo_row_sources [of g] row_sources_range [of _ g]
    by simp
  then show ?thesis using csr2coo_rows [OF assms] by simp
qed

theorem convert_round_trip_witness:
  "csr2coo 9 [0, 2, 2, 3] [1, 2, 0] = Some ([0, 0, 2], [1, 2, 0]) \<and>
   coo2csr 9 [0, 0, 2] [1, 2, 0] 3 = Some ([0, 2, 2, 3], [1, 2, 0])"
proof -
  have "offsets [[1, 2], [], [0]] = [0, 2, 2, 3]" "row_sources [[1, 2], [], [0]] = [0, 0, 2]" by code_simp+
  moreover have "csr2coo 9 [0, 2, 2, 3] [1, 2, 0] = Some ([0, 0, 2], [1, 2, 0])"
    using csr2coo_rows [of "[[1, 2], [], [0]]" 9] calculation by simp
  ultimately show ?thesis using convert_round_trip [of "[[1, 2], [], [0]]" 9] by simp
qed

end
