(* ===== verification/Self_Loop.thy ===== *)
theory Self_Loop
  imports Convert
begin

text \<open>
  Adding the missing self loops, \<open>compress_op/add_self_loop.h\<close>.  Both functions read the edge
  arrays one cell past the end when the last row is exhausted; \<open>read_at\<close> gives that cell the
  arbitrary content \<open>junk\<close>.  The result of \<open>add_self_loop_csr\<close> does not depend on it; that of
  \<open>add_self_loop_coo\<close> does, and is right unless the cell happens to hold a vertex number.
\<close>

subsection \<open>The code\<close>

definition read_at :: "int \<Rightarrow> int list \<Rightarrow> int \<Rightarrow> int option" where
  "read_at junk xs i = (if i = int (length xs) then Some junk else vec_at xs i)"

text \<open>\<open>for (eid = start; eid < end && elist_ptr[eid] < vid; ++eid) elist.emplace_back(elist_ptr[eid]);\<close>\<close>

function copy_smaller :: "int list \<Rightarrow> int \<Rightarrow> int \<Rightarrow> int \<Rightarrow> int list \<Rightarrow> (int \<times> int list) option" where
  "copy_smaller elist_ptr end vid eid elist =
     (if eid < end then
        (case vec_at elist_ptr eid of None \<Rightarrow> None
         | Some x \<Rightarrow> if x < vid then copy_smaller elist_ptr end vid (eid + 1) (elist @ [x]) else Some (eid, elist))
      else Some (eid, elist))"
  by pat_completeness auto
termination
  by (relation "measure (\<lambda>(elist_ptr, end, vid, eid, elist). nat (end - eid))") auto

declare copy_smaller.simps [simp del]

definition add_self_loop_csr :: "int \<Rightarrow> int list \<Rightarrow> int list \<Rightarrow> (int list \<times> int list) option" where
  "add_self_loop_csr junk vlist_ptr elist_ptr = do {
     let vertex_cnt = to_u64 (int (length vlist_ptr) - 1);
     for_range 0 vertex_cnt (\<lambda>vid (vlist, elist). do {
       start \<leftarrow> vec_at vlist_ptr vid;
       end \<leftarrow> vec_at vlist_ptr (vid + 1);
       (eid, elist) \<leftarrow> copy_smaller elist_ptr end vid start elist;
       x \<leftarrow> read_at junk elist_ptr eid;
       let elist = (if x \<noteq> vid \<or> eid = end then elist @ [vid] else elist);
       elist \<leftarrow> for_range eid end (\<lambda>eid elist. do { x \<leftarrow> vec_at elist_ptr eid; Some (elist @ [x]) }) elist;
       Some (vlist @ [int (length elist)], elist)
     }) ([0], [])
   }"

text \<open>
  The coordinate form.  \<open>edge_loop\<close> is the state of its loops: the position in the edge list,
  the edge read last, and the output so far.
\<close>

record edge_loop =
  el_eid :: int
  el_src_id :: int
  el_dst_id :: int
  el_src :: "int list"
  el_dst :: "int list"

definition emit :: "int \<Rightarrow> int \<Rightarrow> edge_loop \<Rightarrow> edge_loop" where
  "emit s d st = st\<lparr>el_src := el_src st @ [s], el_dst := el_dst st @ [d]\<rparr>"

text \<open>\<open>src.emplace_back(src_id); dst.emplace_back(dst_id); eid++; src_id = src_ptr[eid]; dst_id = dst_ptr[eid];\<close>\<close>

definition copy_edge :: "int \<times> int \<Rightarrow> int list \<Rightarrow> int list \<Rightarrow> edge_loop \<Rightarrow> edge_loop option" where
  "copy_edge junk src_ptr dst_ptr st = do {
     let st = emit (el_src_id st) (el_dst_id st) st;
     let eid = el_eid st + 1;
     src_id \<leftarrow> read_at (fst junk) src_ptr eid;
     dst_id \<leftarrow> read_at (snd junk) dst_ptr eid;
     Some (st\<lparr>el_eid := eid, el_src_id := src_id, el_dst_id := dst_id\<rparr>)
   }"

lemma copy_edge_eid: "copy_edge junk src_ptr dst_ptr st = Some st' \<Longrightarrow>
    el_eid st' = el_eid st + 1 \<and> el_eid st' \<le> int (length src_ptr)"
  by (auto simp: copy_edge_def Let_def emit_def read_at_def vec_at_eq_Some_iff bind_eq_Some_conv split: if_splits)

text \<open>\<open>while (P(src_id, dst_id)) { \<dots> }\<close> with that body.\<close>

function copy_while ::
  "(int \<Rightarrow> int \<Rightarrow> bool) \<Rightarrow> int \<times> int \<Rightarrow> int list \<Rightarrow> int list \<Rightarrow> edge_loop \<Rightarrow> edge_loop option" where
  "copy_while P junk src_ptr dst_ptr st =
     (if P (el_src_id st) (el_dst_id st) then
        (case copy_edge junk src_ptr dst_ptr st of None \<Rightarrow> None
         | Some st' \<Rightarrow> copy_while P junk src_ptr dst_ptr st')
      else Some st)"
  by pat_completeness auto
termination
  by (relation "measure (\<lambda>(P, junk, src_ptr, dst_ptr, st). nat (int (length src_ptr) - el_eid st))")
    (auto dest: copy_edge_eid)

declare copy_while.simps [simp del]

text \<open>The edges of vertex \<open>vid\<close>.\<close>

definition self_loop_vertex ::
  "int \<times> int \<Rightarrow> int list \<Rightarrow> int list \<Rightarrow> int \<Rightarrow> edge_loop \<Rightarrow> edge_loop option" where
  "self_loop_vertex junk src_ptr dst_ptr vid st = do {
     src_id \<leftarrow> vec_at src_ptr (el_eid st);
     dst_id \<leftarrow> vec_at dst_ptr (el_eid st);
     st \<leftarrow> copy_while (\<lambda>s d. s = vid \<and> d < vid) junk src_ptr dst_ptr
       (st\<lparr>el_src_id := src_id, el_dst_id := dst_id\<rparr>);
     st \<leftarrow> (if el_src_id st = vid \<and> el_dst_id st = vid then copy_edge junk src_ptr dst_ptr st
            else Some (emit vid vid st));
     copy_while (\<lambda>s d. s = vid) junk src_ptr dst_ptr st
   }"

partial_function (option) self_loop_edges ::
  "int \<times> int \<Rightarrow> int list \<Rightarrow> int list \<Rightarrow> int \<Rightarrow> int \<Rightarrow> edge_loop \<Rightarrow> (int \<times> edge_loop) option" where
  "self_loop_edges junk src_ptr dst_ptr vertex_cnt vid st =
     (if el_eid st < int (length src_ptr) then do {
        st \<leftarrow> self_loop_vertex junk src_ptr dst_ptr vid st;
        if vid + 1 = vertex_cnt then Some (vid + 1, st)
        else self_loop_edges junk src_ptr dst_ptr vertex_cnt (vid + 1) st
      } else Some (vid, st))"

definition add_self_loop_coo ::
  "int \<times> int \<Rightarrow> int list \<Rightarrow> int list \<Rightarrow> int \<Rightarrow> (int list \<times> int list) option" where
  "add_self_loop_coo junk src_ptr dst_ptr vertex_cnt = do {
     (vid, st) \<leftarrow> self_loop_edges junk src_ptr dst_ptr vertex_cnt 0
       \<lparr>el_eid = 0, el_src_id = 0, el_dst_id = 0, el_src = [], el_dst = []\<rparr>;
     st \<leftarrow> for_range vid vertex_cnt (\<lambda>vid st. Some (emit vid vid st)) st;
     Some (el_src st, el_dst st)
   }"

subsection \<open>A row with its self loop\<close>

definition add_loop :: "int \<Rightarrow> int list \<Rightarrow> int list" where
  "add_loop v row = takeWhile (\<lambda>x. x < v) row @
     (case dropWhile (\<lambda>x. x < v) row of [] \<Rightarrow> [v] | x # xs \<Rightarrow> if x = v then x # xs else v # x # xs)"

lemma add_loop_Cons: "x < v \<Longrightarrow> add_loop v (x # row) = x # add_loop v row"
  by (simp add: add_loop_def)

lemma set_add_loop: "set (add_loop v row) = insert v (set row)"
proof (induction row)
  case (Cons x row)
  show ?case
  proof (cases "x < v")
    case True
    then show ?thesis using Cons.IH by (simp add: add_loop_Cons insert_commute)
  next
    case False
    then show ?thesis by (simp add: add_loop_def insert_absorb)
  qed
qed (simp add: add_loop_def)

lemma add_loop_sorted:
  assumes "sorted_wrt (<) row"
  shows "add_loop v row = sorted_list_of_set (insert v (set row))"
proof -
  have "sorted_wrt (<) (add_loop v row)"
    using assms
  proof (induction row)
    case (Cons x row)
    show ?case
    proof (cases "x < v")
      case True
      then show ?thesis using Cons by (simp add: add_loop_Cons set_add_loop)
    qed (use Cons.prems in \<open>auto simp: add_loop_def\<close>)
  qed (simp add: add_loop_def)
  then show ?thesis
    using sorted_list_of_set.idem_if_sorted_distinct [of "add_loop v row"]
    by (simp add: set_add_loop strict_sorted_iff)
qed

subsection \<open>Rows\<close>

lemma copy_smaller_run:
  assumes "lo \<le> hi" "hi \<le> length el"
  shows "copy_smaller el (int hi) v (int lo) out =
    Some (int (lo + length (takeWhile (\<lambda>x. x < v) (slice lo hi el))), out @ takeWhile (\<lambda>x. x < v) (slice lo hi el))"
  using assms
proof (induction "hi - lo" arbitrary: lo out)
  case 0
  then show ?case by (simp add: copy_smaller.simps)
next
  case (Suc k)
  then have lt: "lo < hi" "lo < length el" by auto
  have step: "copy_smaller el (int hi) v (int (Suc lo)) (out @ [el ! lo]) =
      Some (int (Suc lo + length (takeWhile (\<lambda>x. x < v) (slice (Suc lo) hi el))),
        (out @ [el ! lo]) @ takeWhile (\<lambda>x. x < v) (slice (Suc lo) hi el))"
    using Suc.hyps(2) Suc.prems by (intro Suc.hyps(1)) auto
  show ?case
    using step lt by (subst copy_smaller.simps) (auto simp: vec_at_nat slice_Cons add.commute)
qed

lemma add_self_loop_csr_rows:
  assumes wf: "wf_csr n vlist elist" and len: "length vlist = Suc n" and fits: "n < 2 ^ 64"
  defines "g \<equiv> map (\<lambda>v. add_loop (int v) (csr_row vlist elist v)) [0..<n]"
  shows "add_self_loop_csr junk vlist elist = Some (offsets g, concat g)"
proof -
  let ?f = "\<lambda>vid (vl, el). do { start \<leftarrow> vec_at vlist vid; end \<leftarrow> vec_at vlist (vid + 1);
       (eid, el) \<leftarrow> copy_smaller elist end vid start el; x \<leftarrow> read_at junk elist eid;
       let el = (if x \<noteq> vid \<or> eid = end then el @ [vid] else el);
       el \<leftarrow> for_range eid end (\<lambda>eid el. do { x \<leftarrow> vec_at elist eid; Some (el @ [x]) }) el;
       Some (vl @ [int (length el)], el) }"
  let ?S = "\<lambda>v. (offsets (take v g), concat (take v g))"
  have "for_range 0 (int n) ?f (?S 0) = Some (?S n)"
  proof (rule for_range_nat_eq)
    fix v assume v: "v < n"
    define lo hi where "lo = nat (vlist ! v)" and "hi = nat (vlist ! Suc v)"
    have at: "vec_at vlist (int v) = Some (int lo)" "vec_at vlist (int v + 1) = Some (int hi)"
      and le: "lo \<le> hi" "hi \<le> length elist"
      using wf_csr_at [OF wf, of "int v"] v by (auto simp: lo_def hi_def)
    define row a b where "row = slice lo hi elist" and "a = takeWhile (\<lambda>x. x < int v) row"
      and "b = dropWhile (\<lambda>x. x < int v) row"
    let ?eid = "lo + length a"
    have b: "b = slice ?eid hi elist" by (simp add: b_def a_def row_def drop_slice dropWhile_eq_drop)
    have eid: "?eid \<le> hi"
      using length_takeWhile_le [of "\<lambda>x. x < int v" row] le by (simp add: a_def row_def)
    have "\<exists>x. read_at junk elist (int ?eid) = Some x \<and> (?eid < hi \<longrightarrow> x = hd b)"
    proof (cases "?eid < hi")
      case True
      then show ?thesis using le slice_Cons [of ?eid hi elist] by (auto simp: read_at_def b vec_at_def)
    qed (use eid le in \<open>auto simp: read_at_def vec_at_def\<close>)
    then obtain x where x: "read_at junk elist (int ?eid) = Some x" "?eid < hi \<Longrightarrow> x = hd b" by blast
    have nil: "b = [] \<longleftrightarrow> ?eid = hi" using eid le slice_Cons [of ?eid hi elist] by (cases "?eid = hi") (auto simp: b)
    have "add_loop (int v) row = a @ (if x \<noteq> int v \<or> ?eid = hi then [int v] else []) @ b"
      using nil x(2) eid by (cases b) (auto simp: add_loop_def simp flip: a_def b_def)
    moreover have "g ! v = add_loop (int v) row" using v by (simp add: g_def row_def lo_def hi_def csr_row_def)
    moreover have "copy_smaller elist (int hi) (int v) (int lo) out = Some (int ?eid, out @ a)" for out
      using copy_smaller_run [OF le] by (simp add: a_def row_def)
    moreover have "for_range (int ?eid) (int hi) (\<lambda>eid el. do { x \<leftarrow> vec_at elist eid; Some (el @ [x]) }) out
        = Some (out @ b)" for out
      using append_range [OF eid le(2)] by (simp add: b)
    moreover have "int ?eid = int hi \<longleftrightarrow> ?eid = hi" by linarith
    ultimately show "?f (int v) (?S v) = Some (?S (Suc v))"
      using at x(1) v by (auto simp: take_Suc_conv_app_nth g_def Let_def offsets_snoc simp del: of_nat_add)
  qed
  then show ?thesis using fits len by (simp add: add_self_loop_csr_def g_def)
qed



subsection \<open>Coordinates\<close>

text \<open>The edges with the cell past their end, and what the loops read at each position.\<close>

abbreviation edges :: "int \<times> int \<Rightarrow> int list \<Rightarrow> int list \<Rightarrow> (int \<times> int) list" where
  "edges junk src dst \<equiv> zip src dst @ [junk]"

lemma read_edges:
  assumes "length src = length dst" "i \<le> length src"
  shows "read_at (fst junk) src (int i) = Some (fst (edges junk src dst ! i))"
    "read_at (snd junk) dst (int i) = Some (snd (edges junk src dst ! i))"
  using assms by (auto simp: read_at_def vec_at_def nth_append)

definition at_edge :: "(int \<times> int) list \<Rightarrow> (int \<times> int) list \<Rightarrow> edge_loop \<Rightarrow> edge_loop" where
  "at_edge pre rest st = st\<lparr>el_eid := int (length pre), el_src_id := fst (hd rest), el_dst_id := snd (hd rest)\<rparr>"

definition emit_all :: "(int \<times> int) list \<Rightarrow> edge_loop \<Rightarrow> edge_loop" where
  "emit_all xs st = st\<lparr>el_src := el_src st @ map fst xs, el_dst := el_dst st @ map snd xs\<rparr>"

lemma emit_all_append: "emit_all ys (emit_all xs st) = emit_all (xs @ ys) st"
  by (simp add: emit_all_def)

lemma emit_all_Nil [simp]: "emit_all [] st = st"
  by (simp add: emit_all_def)

lemma copy_edge_run:
  assumes len: "length src = length dst" and E: "edges junk src dst = pre @ x # rest" "rest \<noteq> []"
  shows "copy_edge junk src dst (at_edge pre (x # rest) st) = Some (at_edge (pre @ [x]) rest (emit_all [x] st))"
proof -
  have "length (edges junk src dst) = Suc (length src)" using len by simp
  then have "Suc (length pre) \<le> length src" using E by (cases rest) auto
  moreover have "edges junk src dst ! Suc (length pre) = hd rest"
    using E by (cases rest) (simp_all add: nth_append)
  ultimately have "read_at (fst junk) src (int (length pre) + 1) = Some (fst (hd rest))"
    "read_at (snd junk) dst (int (length pre) + 1) = Some (snd (hd rest))"
    using read_edges [OF len, of "Suc (length pre)" junk] by (simp_all add: add.commute)
  then show ?thesis by (simp add: copy_edge_def at_edge_def emit_def emit_all_def Let_def)
qed

lemma copy_while_run:
  assumes len: "length src = length dst" and E: "edges junk src dst = pre @ xs @ rest" and rest: "rest \<noteq> []"
    and P: "\<And>x. x \<in> set xs \<Longrightarrow> P (fst x) (snd x)" "\<not> P (fst (hd rest)) (snd (hd rest))"
  shows "copy_while P junk src dst (at_edge pre (xs @ rest) st) = Some (at_edge (pre @ xs) rest (emit_all xs st))"
  using E P(1)
proof (induction xs arbitrary: pre st)
  case Nil
  then show ?case using P(2) by (simp add: copy_while.simps at_edge_def)
next
  case (Cons x xs)
  have "copy_edge junk src dst (at_edge pre (x # xs @ rest) st) = Some (at_edge (pre @ [x]) (xs @ rest) (emit_all [x] st))"
    using copy_edge_run [OF len] Cons.prems(1) rest by simp
  moreover have "copy_while P junk src dst (at_edge (pre @ [x]) (xs @ rest) (emit_all [x] st))
      = Some (at_edge ((pre @ [x]) @ xs) rest (emit_all xs (emit_all [x] st)))"
    using Cons.prems by (intro Cons.IH) auto
  moreover have "P (el_src_id (at_edge pre (x # xs @ rest) st)) (el_dst_id (at_edge pre (x # xs @ rest) st))"
    using Cons.prems(2) [of x] by (simp add: at_edge_def)
  ultimately show ?case by (subst copy_while.simps) (simp add: emit_all_append)
qed

lemma self_loop_vertex_run:
  assumes len: "length src = length dst"
    and E: "edges junk src dst = pre @ map (Pair v) row @ rest" and rest: "rest \<noteq> []" "fst (hd rest) \<noteq> v"
    and eid: "el_eid st = int (length pre)" "length pre < length src"
  shows "self_loop_vertex junk src dst v st
    = Some (at_edge (pre @ map (Pair v) row) rest (emit_all (map (Pair v) (add_loop v row)) st))"
proof -
  let ?R = "map (Pair v) row @ rest"
  define a b where "a = takeWhile (\<lambda>x. x < v) row" and "b = dropWhile (\<lambda>x. x < v) row"
  have row: "row = a @ b" by (simp add: a_def b_def)
  have "?R \<noteq> []" using rest by simp
  have "edges junk src dst ! length pre = hd ?R"
    using E rest by (cases ?R) (simp_all add: nth_append)
  then have "hd ?R = (src ! length pre, dst ! length pre)" using eid len by (simp add: nth_append)
  then have first: "vec_at src (el_eid st) = Some (fst (hd ?R))" "vec_at dst (el_eid st) = Some (snd (hd ?R))"
    using eid len by (simp_all add: vec_at_nat nth_append)
  have at: "st\<lparr>el_src_id := fst (hd ?R), el_dst_id := snd (hd ?R)\<rparr> = at_edge pre ?R st"
    using eid by (simp add: at_edge_def)
  have small: "x < v" if "x \<in> set a" for x using that set_takeWhileD by (fastforce simp: a_def)
  have one: "copy_while (\<lambda>s d. s = v \<and> d < v) junk src dst (at_edge pre ?R st)
      = Some (at_edge (pre @ map (Pair v) a) (map (Pair v) b @ rest) (emit_all (map (Pair v) a) st))"
  proof -
    have "b \<noteq> [] \<Longrightarrow> \<not> hd b < v" using hd_dropWhile [of "\<lambda>x. x < v" row] by (simp add: b_def)
    then have "\<not> (fst (hd (map (Pair v) b @ rest)) = v \<and> snd (hd (map (Pair v) b @ rest)) < v)"
      using rest by (cases b) auto
    then have "copy_while (\<lambda>s d. s = v \<and> d < v) junk src dst (at_edge pre (map (Pair v) a @ map (Pair v) b @ rest) st)
      = Some (at_edge (pre @ map (Pair v) a) (map (Pair v) b @ rest) (emit_all (map (Pair v) a) st))"
      using E row rest small by (intro copy_while_run [OF len]) auto
    then show ?thesis using row by simp
  qed
  show ?thesis
  proof (cases "\<exists>b'. b = v # b'")
    case True
    then obtain b' where b': "b = v # b'" by blast
    have "add_loop v row = a @ b" by (simp add: add_loop_def b' flip: a_def b_def)
    moreover have "copy_edge junk src dst (at_edge (pre @ map (Pair v) a) ((v, v) # map (Pair v) b' @ rest) st')
        = Some (at_edge ((pre @ map (Pair v) a) @ [(v, v)]) (map (Pair v) b' @ rest) (emit_all [(v, v)] st'))" for st'
      using E rest row b' by (intro copy_edge_run [OF len]) auto
    moreover have "copy_while (\<lambda>s d. s = v) junk src dst
          (at_edge (pre @ map (Pair v) a @ [(v, v)]) (map (Pair v) b' @ rest) st')
        = Some (at_edge ((pre @ map (Pair v) a @ [(v, v)]) @ map (Pair v) b') rest (emit_all (map (Pair v) b') st'))" for st'
      using E rest row b' by (intro copy_while_run [OF len]) auto
    ultimately show ?thesis
      using first at one row b' by (simp add: self_loop_vertex_def emit_all_append) (simp add: at_edge_def)
  next
    case False
    have add: "add_loop v row = a @ v # b"
      using False by (cases b) (auto simp: add_loop_def simp flip: a_def b_def)
    have "\<not> (fst (hd (map (Pair v) b @ rest)) = v \<and> snd (hd (map (Pair v) b @ rest)) = v)"
      using rest False by (cases b) auto
    moreover have "copy_while (\<lambda>s d. s = v) junk src dst (at_edge (pre @ map (Pair v) a) (map (Pair v) b @ rest) st')
        = Some (at_edge ((pre @ map (Pair v) a) @ map (Pair v) b) rest (emit_all (map (Pair v) b) st'))" for st'
      using E rest row by (intro copy_while_run [OF len]) auto
    moreover have "emit v v (at_edge p r st') = at_edge p r (emit_all [(v, v)] st')" for p r st'
      by (simp add: emit_def emit_all_def at_edge_def)
    moreover have "el_src_id (at_edge p r st') = fst (hd r)" "el_dst_id (at_edge p r st') = snd (hd r)" for p r st'
      by (simp_all add: at_edge_def)
    ultimately show ?thesis
      using first at one row add by (auto simp: self_loop_vertex_def emit_all_append)
  qed
qed

text \<open>The edges from row \<open>v\<close> on, for edges sorted by source.\<close>

definition edges_from :: "int \<times> int \<Rightarrow> graph \<Rightarrow> nat \<Rightarrow> (int \<times> int) list" where
  "edges_from junk g v = concat (map (\<lambda>i. map (Pair (int i)) (g ! i)) [v..<length g]) @ [junk]"

definition edges_upto :: "graph \<Rightarrow> nat \<Rightarrow> (int \<times> int) list" where
  "edges_upto g v = concat (map (\<lambda>i. map (Pair (int i)) (g ! i)) [0..<v])"

lemma edges_upto_Suc: "edges_upto g (Suc v) = edges_upto g v @ map (Pair (int v)) (g ! v)"
  by (simp add: edges_upto_def)

lemma edges_upto_zip: "v \<le> length g \<Longrightarrow> edges_upto g v = zip (row_sources (take v g)) (concat (take v g))"
proof (induction v)
  case (Suc v)
  have "zip (replicate (length ys) x) ys = map (Pair x) ys" for x :: int and ys :: "int list"
    by (induction ys) auto
  then show ?case using Suc by (simp add: edges_upto_Suc take_Suc_conv_app_nth row_sources_snoc)
qed (simp add: edges_upto_def)

lemma length_edges_upto: "v \<le> length g \<Longrightarrow> length (edges_upto g v) = length (concat (take v g))"
  by (simp add: edges_upto_zip)

lemma edges_from_Suc: "v < length g \<Longrightarrow> edges_from junk g v = map (Pair (int v)) (g ! v) @ edges_from junk g (Suc v)"
  by (simp add: edges_from_def upt_conv_Cons)

lemma edges_split:
  "v \<le> length g \<Longrightarrow> edges junk (row_sources g) (concat g) = edges_upto g v @ edges_from junk g v"
proof (induction v)
  case 0
  then show ?case using edges_upto_zip [of "length g" g] by (simp add: edges_upto_def edges_from_def)
qed (simp add: edges_upto_Suc edges_from_Suc)

lemma edges_from_hd:
  assumes "fst junk \<noteq> int v"
  shows "edges_from junk g (Suc v) \<noteq> []" "fst (hd (edges_from junk g (Suc v))) \<noteq> int v"
proof -
  show ne: "edges_from junk g (Suc v) \<noteq> []" by (simp add: edges_from_def)
  have "x = junk \<or> int v < fst x" if "x \<in> set (edges_from junk g (Suc v))" for x
    using that by (auto simp: edges_from_def)
  then show "fst (hd (edges_from junk g (Suc v))) \<noteq> int v" using hd_in_set [OF ne] assms by fastforce
qed

definition loop_rows :: "graph \<Rightarrow> graph" where
  "loop_rows g = map (\<lambda>v. add_loop (int v) (g ! v)) [0..<length g]"

lemma length_loop_rows [simp]: "length (loop_rows g) = length g"
  by (simp add: loop_rows_def)

lemma loop_rows_nth [simp]: "v < length g \<Longrightarrow> loop_rows g ! v = add_loop (int v) (g ! v)"
  by (simp add: loop_rows_def)

definition loops_done :: "graph \<Rightarrow> nat \<Rightarrow> edge_loop \<Rightarrow> bool" where
  "loops_done g v st \<longleftrightarrow> el_src st = row_sources (take v (loop_rows g)) \<and> el_dst st = concat (take v (loop_rows g))"

lemma loops_done_Suc:
  assumes "loops_done g v st" "v < length g"
  shows "loops_done g (Suc v) (at_edge p r (emit_all (map (Pair (int v)) (add_loop (int v) (g ! v))) st))"
proof -
  have "map (fst \<circ> Pair (int v)) ys = replicate (length ys) (int v)" for ys :: "int list"
    by (induction ys) auto
  moreover have "map (snd \<circ> Pair (int v)) ys = ys" for ys :: "int list" by (simp add: comp_def)
  ultimately show ?thesis using assms
    by (simp add: loops_done_def at_edge_def emit_all_def take_Suc_conv_app_nth row_sources_snoc)
qed

lemma self_loop_edges_run:
  assumes junk: "\<And>v. v < length g \<Longrightarrow> fst junk \<noteq> int v"
    and "v \<le> length g" "v < length g \<or> el_eid st = int (length (concat g))"
    and "loops_done g v st" "el_eid st = int (length (concat (take v g)))"
  shows "\<exists>v' st'. self_loop_edges junk (row_sources g) (concat g) (int (length g)) (int v) st = Some (int v', st') \<and>
    v' \<le> length g \<and> loops_done g v' st' \<and> (\<forall>i. v' \<le> i \<and> i < length g \<longrightarrow> g ! i = [])"
  using assms(2-)
proof (induction "length g - v" arbitrary: v st)
  case 0
  then have "v = length g" by simp
  then show ?case using 0 by (subst self_loop_edges.simps) auto
next
  case (Suc k)
  have v: "v < length g" using Suc.hyps(2) by simp
  show ?case
  proof (cases "length (concat (take v g)) < length (concat g)")
    case False
    have "concat g = concat (take v g) @ concat (drop v g)" by (metis append_take_drop_id concat_append)
    then have "concat (drop v g) = []" using False by (metis length_append length_greater_0_conv less_add_same_cancel1)
    then have "g ! i = []" if "v \<le> i" "i < length g" for i
      using that nth_mem [of "i - v" "drop v g"] by (auto simp: concat_eq_Nil_conv)
    then show ?thesis using Suc.prems False by (subst self_loop_edges.simps) auto
  next
    case True
    let ?st = "at_edge (edges_upto g (Suc v)) (edges_from junk g (Suc v))
        (emit_all (map (Pair (int v)) (add_loop (int v) (g ! v))) st)"
    have step: "self_loop_vertex junk (row_sources g) (concat g) (int v) st = Some ?st"
      unfolding edges_upto_Suc
    proof (rule self_loop_vertex_run)
      show "edges junk (row_sources g) (concat g)
          = edges_upto g v @ map (Pair (int v)) (g ! v) @ edges_from junk g (Suc v)"
        using edges_split [of v g junk] v by (simp add: edges_from_Suc)
    qed (use edges_from_hd [OF junk [OF v]] Suc.prems True v in \<open>simp_all add: length_edges_upto\<close>)
    have fin: "loops_done g (Suc v) ?st" by (rule loops_done_Suc [OF Suc.prems(3) v])
    have eid: "el_eid ?st = int (length (concat (take (Suc v) g)))"
      using v by (simp add: at_edge_def length_edges_upto)
    show ?thesis
    proof (cases "Suc v = length g")
      case last: True
      have "int v + 1 = int (length g)" using last by simp
      then show ?thesis
        using step fin True Suc.prems(4) last
        by (subst self_loop_edges.simps) (auto intro!: exI [of _ "length g"])
    next
      case False
      then have "\<exists>v' st'. self_loop_edges junk (row_sources g) (concat g) (int (length g)) (int (Suc v)) ?st = Some (int v', st') \<and>
          v' \<le> length g \<and> loops_done g v' st' \<and> (\<forall>i. v' \<le> i \<and> i < length g \<longrightarrow> g ! i = [])"
        using Suc.hyps(2) v fin eid by (intro Suc.hyps(1)) auto
      moreover have "int v + 1 \<noteq> int (length g)" using False by linarith
      ultimately show ?thesis
        using step True Suc.prems(4) by (subst self_loop_edges.simps) (simp add: add.commute)
    qed
  qed
qed

lemma add_self_loop_coo_rows:
  assumes junk: "\<And>v. v < length g \<Longrightarrow> fst junk \<noteq> int v"
  shows "add_self_loop_coo junk (row_sources g) (concat g) (int (length g))
    = Some (row_sources (loop_rows g), concat (loop_rows g))"
proof -
  let ?st = "\<lparr>el_eid = 0, el_src_id = 0, el_dst_id = 0, el_src = [], el_dst = []\<rparr>"
  obtain v' st' where run: "self_loop_edges junk (row_sources g) (concat g) (int (length g)) 0 ?st = Some (int v', st')"
    and v': "v' \<le> length g" "loops_done g v' st'" and empty: "\<And>i. v' \<le> i \<Longrightarrow> i < length g \<Longrightarrow> g ! i = []"
    using self_loop_edges_run [OF junk, of g 0 ?st] by (auto simp: loops_done_def)
  have "\<exists>st. for_range (int v') (int (length g)) (\<lambda>vid st. Some (emit vid vid st)) st' = Some st \<and> loops_done g (length g) st"
  proof (rule for_range_from_rule [where I = "\<lambda>v st. loops_done g v st"])
    fix i st assume "v' \<le> i" "i < length g" "loops_done g i st"
    then show "\<exists>st'. Some (emit (int i) (int i) st) = Some st' \<and> loops_done g (Suc i) st'"
      using empty by (simp add: loops_done_def emit_def take_Suc_conv_app_nth row_sources_snoc add_loop_def)
  qed (use v' in simp_all)
  then show ?thesis using run by (auto simp: add_self_loop_coo_def loops_done_def)
qed



end
