(* ===== verification/Masks.thy ===== *)
theory Masks
  imports Inlining
begin

text \<open>
  The evaluation orders of a compressed graph and the masks made from them,
  \<open>compress_op/gen_mask.h\<close>.  The order of a rule is the length of the longest chain of uses that
  leads to it; the three \<open>gen_\<dots>_order\<close> functions compute it level by level.
\<close>

subsection \<open>The code\<close>

definition INIT :: int where "INIT = 100000"

text \<open>The state of the worklist loops: \<open>order\<close>, \<open>in_degree\<close> and \<open>out_worklist\<close>.\<close>

record order_state =
  os_order :: "int list"
  os_degree :: "int list"
  os_out :: "int list"

text \<open>\<open>in_degree[i]++\<close> and \<open>in_degree[i]--\<close> on a vector of \<open>int\<close>.\<close>

definition add_at :: "int list \<Rightarrow> int \<Rightarrow> int \<Rightarrow> int list option" where
  "add_at xs i d = do { x \<leftarrow> vec_at xs i; y \<leftarrow> i32_arith (x + d); vec_set xs i y }"

definition relax_edge :: "int \<Rightarrow> int \<Rightarrow> int \<Rightarrow> order_state \<Rightarrow> order_state option" where
  "relax_edge vertex_cnt step dst st = do {
     ord \<leftarrow> vec_at (os_order st) dst;
     if ord = INIT \<and> vertex_cnt \<le> dst then do {
       in_degree \<leftarrow> add_at (os_degree st) (dst - vertex_cnt) (-1);
       deg \<leftarrow> vec_at in_degree (dst - vertex_cnt);
       if deg = 0 then do {
         order \<leftarrow> vec_set (os_order st) dst step;
         Some \<lparr>os_order = order, os_degree = in_degree, os_out = os_out st @ [dst]\<rparr>
       } else Some (st\<lparr>os_degree := in_degree\<rparr>)
     } else Some st
   }"

definition relax_vertex ::
  "int list \<Rightarrow> int list \<Rightarrow> int \<Rightarrow> int \<Rightarrow> int \<Rightarrow> order_state \<Rightarrow> order_state option" where
  "relax_vertex vlist elist vertex_cnt step src st = do {
     start \<leftarrow> vec_at vlist src;
     end \<leftarrow> vec_at vlist (src + 1);
     for_range start end (\<lambda>eid st. do { dst \<leftarrow> vec_at elist eid; relax_edge vertex_cnt step dst st }) st
   }"

text \<open>
  The loop over the levels, the same in \<open>gen_vertex_order_csc\<close> and \<open>gen_vertex_order_csr\<close>; a round
  works off \<open>in_worklist\<close> and then swaps the two worklists.
\<close>

partial_function (option) order_levels ::
  "int list \<Rightarrow> int list \<Rightarrow> int \<Rightarrow> int \<Rightarrow> int list \<Rightarrow> int list \<Rightarrow> int list \<Rightarrow> (int list \<times> int) option" where
  "order_levels vlist elist vertex_cnt step in_worklist order in_degree =
     (if in_worklist \<noteq> [] then do {
        st \<leftarrow> for_each (relax_vertex vlist elist vertex_cnt step) in_worklist
          \<lparr>os_order = order, os_degree = in_degree, os_out = []\<rparr>;
        step \<leftarrow> i32_arith (step + 1);
        order_levels vlist elist vertex_cnt step (os_out st) (os_order st) (os_degree st)
      } else Some (order, step))"

declare order_levels.simps [code]

definition gen_vertex_order_csc :: "int list \<Rightarrow> int list \<Rightarrow> int \<Rightarrow> int \<Rightarrow> (int list \<times> int) option" where
  "gen_vertex_order_csc vlist elist vertex_cnt rule_cnt = do {
     let order = replicate (nat (vertex_cnt + rule_cnt)) INIT;
     in_degree \<leftarrow> for_range 0 rule_cnt (\<lambda>src in_degree. do {
       start \<leftarrow> vec_at vlist (src + vertex_cnt);
       end \<leftarrow> vec_at vlist (src + vertex_cnt + 1);
       for_range start end (\<lambda>eid in_degree. do {
         dst \<leftarrow> vec_at elist eid;
         if vertex_cnt \<le> dst then add_at in_degree (dst - vertex_cnt) 1 else Some in_degree
       }) in_degree
     }) (replicate (nat rule_cnt) 0);
     (order, in_worklist) \<leftarrow> for_range 0 rule_cnt (\<lambda>src (order, in_worklist). do {
       deg \<leftarrow> vec_at in_degree src;
       if deg = 0 then do {
         order \<leftarrow> vec_set order (src + vertex_cnt) 0;
         Some (order, in_worklist @ [src + vertex_cnt])
       } else Some (order, in_worklist)
     }) (order, []);
     (order, step) \<leftarrow> order_levels vlist elist vertex_cnt 1 in_worklist order in_degree;
     order \<leftarrow> for_range 0 vertex_cnt (\<lambda>src order. vec_set order src (step - 1)) order;
     Some (order, step)
   }"

definition gen_vertex_order_csr :: "int list \<Rightarrow> int list \<Rightarrow> int \<Rightarrow> int \<Rightarrow> (int list \<times> int) option" where
  "gen_vertex_order_csr vlist elist vertex_cnt rule_cnt = do {
     let order = replicate (nat (vertex_cnt + rule_cnt)) INIT;
     let edge_cnt = int (length elist);
     in_degree \<leftarrow> for_range 0 edge_cnt (\<lambda>src in_degree. do {
       x \<leftarrow> vec_at elist src;
       if vertex_cnt \<le> x then add_at in_degree (x - vertex_cnt) 1 else Some in_degree
     }) (replicate (nat rule_cnt) 0);
     (order, in_worklist) \<leftarrow> for_range 0 vertex_cnt (\<lambda>src (order, in_worklist). do {
       order \<leftarrow> vec_set order src 0;
       Some (order, in_worklist @ [src])
     }) (order, []);
     (order, step) \<leftarrow> order_levels vlist elist vertex_cnt 1 in_worklist order in_degree;
     Some (order, step - 1)
   }"

text \<open>
  The masks.  The double loop that fills \<open>mask\<close> is the same in \<open>gen_mask_edge\<close> and in both
  branches of \<open>gen_mask_vertex\<close>; \<open>junk\<close> is the content of the fresh array.
\<close>

definition fill_mask :: "bool \<Rightarrow> int list \<Rightarrow> int \<Rightarrow> int \<Rightarrow> bool list option" where
  "fill_mask junk order sz m_depth = do {
     total \<leftarrow> i32_arith (sz * m_depth);
     for_range 0 m_depth (\<lambda>d. for_range 0 sz (\<lambda>s mask. do {
       x \<leftarrow> vec_at order s;
       vec_set mask (d * sz + s) (x = d)
     })) (replicate (nat total) junk)
   }"

text \<open>
  \<open>asserts\<close> tells whether the library was compiled with assertions.  The assertion fails for
  exactly the two graph types the function handles, and for any other type control reaches
  the end of a function that should return a value.
\<close>

definition gen_mask_vertex ::
  "bool \<Rightarrow> bool \<Rightarrow> int list \<Rightarrow> int list \<Rightarrow> int \<Rightarrow> int \<Rightarrow> string \<Rightarrow> (bool list \<times> int) option" where
  "gen_mask_vertex asserts junk vlist elist vertex_cnt rule_cnt graph_type =
     (if asserts \<and> \<not> (graph_type \<noteq> ''csc'' \<and> graph_type \<noteq> ''csr'') then None
      else if graph_type = ''csc'' then do {
        (order, m_depth) \<leftarrow> gen_vertex_order_csc vlist elist vertex_cnt rule_cnt;
        mask \<leftarrow> fill_mask junk order (to_i32 (vertex_cnt + rule_cnt)) m_depth;
        Some (mask, m_depth)
      } else if graph_type = ''csr'' then do {
        (order, m_depth) \<leftarrow> gen_vertex_order_csr vlist elist vertex_cnt rule_cnt;
        mask \<leftarrow> fill_mask junk order (to_i32 (vertex_cnt + rule_cnt)) m_depth;
        Some (mask, m_depth)
      } else None)"

subsection \<open>The depth of a rule\<close>

text \<open>
  \<open>depth lo g n x\<close> is the length of the longest chain of uses that ends in \<open>x\<close> and starts in
  a row from \<open>lo\<close> on: with \<open>lo = 0\<close> chains start at vertices, with \<open>lo = n\<close> only rules count.
  Users of a rule are vertices or rules with a larger number, so the recursion ends.
\<close>

function depth :: "nat \<Rightarrow> graph \<Rightarrow> nat \<Rightarrow> nat \<Rightarrow> nat" where
  "depth lo g n x = (if x < n then 0 else
     foldr max (map (\<lambda>w. if int x \<in> set (g ! w) then
         (if w < n then 1 else if x < w \<and> w < length g then Suc (depth lo g n w) else 0)
       else 0) [lo..<length g]) 0)"
  by pat_completeness auto
termination
  by (relation "measure (\<lambda>(lo, g, n, x). length g - x)") auto

declare depth.simps [simp del]

lemma foldr_max_ge: "x \<in> set xs \<Longrightarrow> x \<le> foldr max xs (0 :: nat)"
  by (induction xs) auto

lemma foldr_max_least: "(\<And>x. x \<in> set xs \<Longrightarrow> x \<le> b) \<Longrightarrow> foldr max xs (0 :: nat) \<le> b"
  by (induction xs) auto

lemma foldr_max_in: "0 < foldr max xs (0 :: nat) \<Longrightarrow> foldr max xs 0 \<in> set xs"
  by (induction xs) (auto simp: max_def)

lemma depth_vertex [simp]: "x < n \<Longrightarrow> depth lo g n x = 0"
  by (simp add: depth.simps)

text \<open>The users of a rule, seen from row \<open>lo\<close> on.\<close>

definition users :: "nat \<Rightarrow> graph \<Rightarrow> nat \<Rightarrow> nat set" where
  "users lo g x = {w. lo \<le> w \<and> w < length g \<and> int x \<in> set (g ! w)}"

lemma user_later:
  assumes "wf_grammar g (int n)" "w \<in> users lo g x" "n \<le> w"
  shows "x < w"
  using assms orderedD(2) [OF wf_grammar_ordered [OF assms(1)], of "int w" "int x"] by (simp add: users_def)

lemma depth_rule:
  assumes wf: "wf_grammar g (int n)" and x: "n \<le> x"
  shows "depth lo g n x = foldr max (map (\<lambda>w. if w \<in> users lo g x then Suc (depth lo g n w) else 0) [lo..<length g]) 0"
proof -
  have "(if int x \<in> set (g ! w) then (if w < n then 1 else if x < w \<and> w < length g then Suc (depth lo g n w) else 0) else 0)
      = (if w \<in> users lo g x then Suc (depth lo g n w) else 0)" if "w \<in> set [lo..<length g]" for w
    using that user_later [OF wf, of w lo x] by (auto simp: users_def)
  then have eq: "map (\<lambda>w. if int x \<in> set (g ! w) then
        (if w < n then 1 else if x < w \<and> w < length g then Suc (depth lo g n w) else 0) else 0) [lo..<length g]
      = map (\<lambda>w. if w \<in> users lo g x then Suc (depth lo g n w) else 0) [lo..<length g]"
    by (rule map_cong [OF refl])
  show ?thesis using x by (subst depth.simps) (simp only: eq not_less [symmetric] if_False)
qed

text \<open>The depth of a rule is one more than that of its deepest user.\<close>

lemma depth_le_iff:
  assumes "wf_grammar g (int n)" "n \<le> x"
  shows "depth lo g n x \<le> d \<longleftrightarrow> (\<forall>w\<in>users lo g x. depth lo g n w < d)"
proof
  assume "depth lo g n x \<le> d"
  then show "\<forall>w\<in>users lo g x. depth lo g n w < d"
    using foldr_max_ge [of "Suc (depth lo g n _)" "map (\<lambda>w. if w \<in> users lo g x then Suc (depth lo g n w) else 0) [lo..<length g]"]
    unfolding depth_rule [OF assms] by (fastforce simp: users_def image_iff)
next
  assume "\<forall>w\<in>users lo g x. depth lo g n w < d"
  then show "depth lo g n x \<le> d" unfolding depth_rule [OF assms] by (intro foldr_max_least) auto
qed

lemma depth_user:
  assumes "wf_grammar g (int n)" "n \<le> x" "0 < depth lo g n x"
  obtains w where "w \<in> users lo g x" "depth lo g n x = Suc (depth lo g n w)"
proof -
  let ?xs = "map (\<lambda>w. if w \<in> users lo g x then Suc (depth lo g n w) else 0) [lo..<length g]"
  have "foldr max ?xs 0 \<in> set ?xs" using assms(3) depth_rule [OF assms(1,2), of lo] by (intro foldr_max_in) simp
  then have "depth lo g n x \<in> set ?xs" using depth_rule [OF assms(1,2), of lo] by simp
  then have "\<exists>w. depth lo g n x = (if w \<in> users lo g x then Suc (depth lo g n w) else 0)" by (auto simp only: set_map image_iff)
  then show thesis using that assms(3) by (metis less_numeral_extra(3))
qed

lemma depth_pos_iff: "wf_grammar g (int n) \<Longrightarrow> n \<le> x \<Longrightarrow> 0 < depth lo g n x \<longleftrightarrow> users lo g x \<noteq> {}"
  using depth_le_iff [of g n x lo 0] by (auto simp: not_le [symmetric])

text \<open>The number of levels.\<close>

definition levels :: "nat \<Rightarrow> graph \<Rightarrow> nat \<Rightarrow> nat" where
  "levels lo g n = foldr max (map (\<lambda>x. Suc (depth lo g n x)) [lo..<length g]) 0"

lemma depth_less_levels: "lo \<le> x \<Longrightarrow> x < length g \<Longrightarrow> depth lo g n x < levels lo g n"
  unfolding levels_def using foldr_max_ge [of "Suc (depth lo g n x)" "map (\<lambda>x. Suc (depth lo g n x)) [lo..<length g]"]
  by (simp add: less_eq_Suc_le)

lemma level_inhabited:
  assumes wf: "wf_grammar g (int n)" and k: "k < levels lo g n"
  obtains x where "lo \<le> x" "x < length g" "depth lo g n x = k"
proof -
  have "\<exists>x. lo \<le> x \<and> x < length g \<and> depth lo g n x = levels lo g n - 1 - j" if "j < levels lo g n" for j
    using that
  proof (induction j)
    case 0
    then have "levels lo g n \<in> set (map (\<lambda>x. Suc (depth lo g n x)) [lo..<length g])"
      unfolding levels_def by (intro foldr_max_in)
    then show ?case by (force simp: image_iff)
  next
    case (Suc j)
    then obtain x where x: "lo \<le> x" "x < length g" "depth lo g n x = levels lo g n - 1 - j" by auto
    have pos: "0 < depth lo g n x" using x(3) Suc.prems by simp
    then have "n \<le> x" by (cases "x < n") auto
    then obtain w where w: "w \<in> users lo g x" "depth lo g n x = Suc (depth lo g n w)" using depth_user [OF wf _ pos] by blast
    then show ?case using x(3) by (auto simp: users_def intro!: exI [of _ w])
  qed
  from this [of "levels lo g n - 1 - k"] k show thesis using that by auto
qed

subsection \<open>One round\<close>

lemma add_at_Some:
  assumes "i < length xs" "- (2 ^ 31) \<le> xs ! i + d" "xs ! i + d < 2 ^ 31"
  shows "add_at xs (int i) d = Some (xs[i := xs ! i + d])"
  using assms by (simp add: add_at_def vec_simps)

text \<open>
  What a round does to \<open>order\<close> and \<open>in_degree\<close> depends only on how often each rule occurs
  among the destinations it meets.
\<close>

definition relaxed_order :: "nat \<Rightarrow> int \<Rightarrow> int list \<Rightarrow> int list \<Rightarrow> int list \<Rightarrow> int list" where
  "relaxed_order n step ds order deg = map (\<lambda>x. if n \<le> x \<and> order ! x = INIT \<and> deg ! (x - n) = int (count_list ds (int x))
     then step else order ! x) [0..<length order]"

definition relaxed_degree :: "nat \<Rightarrow> int list \<Rightarrow> int list \<Rightarrow> int list \<Rightarrow> int list" where
  "relaxed_degree n ds order deg = map (\<lambda>i. if order ! (n + i) = INIT then deg ! i - int (count_list ds (int (n + i)))
     else deg ! i) [0..<length deg]"

definition relaxed_out :: "nat \<Rightarrow> int list \<Rightarrow> int list \<Rightarrow> int list \<Rightarrow> int set" where
  "relaxed_out n ds order deg =
     int ` {x. n \<le> x \<and> x < length order \<and> order ! x = INIT \<and> deg ! (x - n) = int (count_list ds (int x))}"

lemma relax_edges:
  assumes len: "length order = n + length deg"
    and ds: "\<And>d. d \<in> set ds \<Longrightarrow> 0 \<le> d \<and> d < int (length order)" and step: "step \<noteq> INIT"
    and deg: "\<And>x. n \<le> x \<Longrightarrow> x < length order \<Longrightarrow> order ! x = INIT \<Longrightarrow>
      0 < deg ! (x - n) \<and> int (count_list ds (int x)) \<le> deg ! (x - n) \<and> deg ! (x - n) < 2 ^ 31"
  shows "\<exists>out. for_each (relax_edge (int n) step) ds \<lparr>os_order = order, os_degree = deg, os_out = []\<rparr>
      = Some \<lparr>os_order = relaxed_order n step ds order deg, os_degree = relaxed_degree n ds order deg, os_out = out\<rparr> \<and>
    distinct out \<and> set out = relaxed_out n ds order deg"
proof -
  let ?I = "\<lambda>pre (st :: order_state). os_order st = relaxed_order n step pre order deg \<and> os_degree st = relaxed_degree n pre order deg \<and>
    distinct (os_out st) \<and> set (os_out st) = relaxed_out n pre order deg"
  have "\<exists>st. for_each (relax_edge (int n) step) ds \<lparr>os_order = order, os_degree = deg, os_out = []\<rparr> = Some st \<and> ?I ds st"
  proof (rule for_each_rule [where I = ?I])
    have none: "x < length order \<Longrightarrow> n \<le> x \<Longrightarrow> order ! x = INIT \<Longrightarrow> deg ! (x - n) \<noteq> 0" for x using deg [of x] by auto
    show "?I [] \<lparr>os_order = order, os_degree = deg, os_out = []\<rparr>"
      using none by (auto simp: relaxed_order_def relaxed_degree_def relaxed_out_def intro!: nth_equalityI)
  next
    fix pre d post st assume split: "ds = pre @ d # post" and I: "?I pre st"
    have d: "0 \<le> d" "d < int (length order)" using ds [of d] split by auto
    define x where "x = nat d"
    have x: "d = int x" "x < length order" using d by (auto simp: x_def)
    have eq: "int x = int n + int i \<longleftrightarrow> x = n + i" for i by linarith
    have at: "vec_at (os_order st) d = Some (relaxed_order n step pre order deg ! x)"
      using I x by (simp add: vec_at_nat relaxed_order_def)
    show "\<exists>st'. relax_edge (int n) step d st = Some st' \<and> ?I (pre @ [d]) st'"
    proof (cases "n \<le> x \<and> order ! x = INIT")
      case False
      then have "relax_edge (int n) step d st = Some st"
        using at x by (auto simp: relax_edge_def relaxed_order_def)
      moreover have "relaxed_order n step (pre @ [d]) order deg = relaxed_order n step pre order deg"
        "relaxed_degree n (pre @ [d]) order deg = relaxed_degree n pre order deg"
        "relaxed_out n (pre @ [d]) order deg = relaxed_out n pre order deg"
        using False x len by (auto simp: relaxed_order_def relaxed_degree_def relaxed_out_def eq)
      ultimately show ?thesis using I by simp
    next
      case True
      then obtain i where i: "x = n + i" using le_Suc_ex by blast
      have less: "int (count_list pre d) < deg ! i" and fits: "0 < deg ! i" "deg ! i < 2 ^ 31"
        using deg [of x] True x split i by auto
      have ord: "relaxed_order n step pre order deg ! x = INIT" using x True less i by (simp add: relaxed_order_def)
      have il: "i < length deg" using x i len by simp
      have degi: "relaxed_degree n pre order deg ! i = deg ! i - int (count_list pre d)"
        using il True i x by (simp add: relaxed_degree_def)
      let ?deg = "(relaxed_degree n pre order deg)[i := deg ! i - int (count_list pre d) - 1]"
      have lenr: "length (relaxed_degree n pre order deg) = length deg" by (simp add: relaxed_degree_def)
      have add: "add_at (os_degree st) (d - int n) (-1) = Some ?deg" "vec_at ?deg (d - int n) = Some (deg ! i - int (count_list pre d) - 1)"
        using add_at_Some [of i "relaxed_degree n pre order deg" "-1"] I il lenr degi less fits i x by (simp_all add: vec_at_nat)
      have deg': "relaxed_degree n (pre @ [d]) order deg = ?deg"
        using True i x by (intro nth_equalityI) (auto simp: relaxed_degree_def nth_list_update)
      show ?thesis
      proof (cases "deg ! i = int (count_list pre d) + 1")
        case last: True
        have lastx: "deg ! (x - n) = int (count_list pre (int x)) + 1" using last x(1) i by simp
        have "relax_edge (int n) step d st = Some \<lparr>os_order = (relaxed_order n step pre order deg)[x := step],
            os_degree = ?deg, os_out = os_out st @ [d]\<rparr>"
          using at ord add last x True i I by (simp add: relax_edge_def vec_set_def relaxed_order_def)
        moreover have "relaxed_order n step (pre @ [d]) order deg = (relaxed_order n step pre order deg)[x := step]"
          using last x True i by (intro nth_equalityI) (auto simp: relaxed_order_def nth_list_update)
        moreover have "relaxed_out n (pre @ [d]) order deg = insert d (relaxed_out n pre order deg)"
        proof -
          let ?Q = "\<lambda>ds. {y. n \<le> y \<and> y < length order \<and> order ! y = INIT \<and> deg ! (y - n) = int (count_list ds (int y))}"
          have "?Q (pre @ [int x]) = insert x (?Q pre)" using lastx x(2) True by auto
          then show ?thesis by (simp add: relaxed_out_def x(1))
        qed
        moreover have "d \<notin> relaxed_out n pre order deg" using lastx by (auto simp: relaxed_out_def x(1))
        ultimately show ?thesis using I deg' by simp
      next
        case more: False
        have "relax_edge (int n) step d st = Some (st\<lparr>os_degree := ?deg\<rparr>)"
          using at ord add more x True i I by (simp add: relax_edge_def)
        moreover have "relaxed_order n step (pre @ [d]) order deg = relaxed_order n step pre order deg"
          "relaxed_out n (pre @ [d]) order deg = relaxed_out n pre order deg"
        proof -
          have "deg ! (x - n) \<noteq> int (count_list pre (int x)) + 1" "deg ! (x - n) \<noteq> int (count_list pre (int x))"
            using more less x(1) i by auto
          then show "relaxed_order n step (pre @ [d]) order deg = relaxed_order n step pre order deg"
            "relaxed_out n (pre @ [d]) order deg = relaxed_out n pre order deg"
            by (auto simp: relaxed_order_def relaxed_out_def x(1))
        qed
        ultimately show ?thesis using I deg' by simp
      qed
    qed
  qed
  then obtain st where st: "for_each (relax_edge (int n) step) ds \<lparr>os_order = order, os_degree = deg, os_out = []\<rparr> = Some st"
    "?I ds st" by blast
  then have "st = \<lparr>os_order = relaxed_order n step ds order deg, os_degree = relaxed_degree n ds order deg, os_out = os_out st\<rparr>"
    by simp
  then show ?thesis using st by (metis)
qed

subsection \<open>The state between the rounds\<close>

text \<open>
  Before the round that gives order \<open>k + 1\<close>, the rows of depth at most \<open>k\<close> have their order,
  the worklist has the rows of depth \<open>k\<close>, and \<open>in_degree\<close> counts the uses in rows of depth at
  least \<open>k\<close>.
\<close>

definition pending :: "nat \<Rightarrow> graph \<Rightarrow> nat \<Rightarrow> nat \<Rightarrow> nat \<Rightarrow> nat" where
  "pending lo g n k x = (\<Sum>w \<in> {w. lo \<le> w \<and> w < length g \<and> k \<le> depth lo g n w}. count_list (g ! w) (int x))"

definition level_order :: "nat \<Rightarrow> graph \<Rightarrow> nat \<Rightarrow> nat \<Rightarrow> int list" where
  "level_order lo g n k = map (\<lambda>x. if lo \<le> x \<and> depth lo g n x \<le> k then int (depth lo g n x) else INIT) [0..<length g]"

definition level_degree :: "nat \<Rightarrow> graph \<Rightarrow> nat \<Rightarrow> nat \<Rightarrow> int list" where
  "level_degree lo g n k = map (\<lambda>i. int (pending lo g n k (n + i))) [0..<length g - n]"

definition level_list :: "nat \<Rightarrow> graph \<Rightarrow> nat \<Rightarrow> nat \<Rightarrow> int list \<Rightarrow> bool" where
  "level_list lo g n k wl \<longleftrightarrow> distinct wl \<and> set wl = int ` {x. lo \<le> x \<and> x < length g \<and> depth lo g n x = k}"

lemma pending_zero_iff:
  assumes "wf_grammar g (int n)" "n \<le> x"
  shows "pending lo g n k x = 0 \<longleftrightarrow> depth lo g n x \<le> k"
  unfolding depth_le_iff [OF assms] pending_def users_def
  by (auto simp: count_list_0_iff not_less)

lemma pending_le: "pending lo g n k x \<le> length (concat g)"
proof -
  have "pending lo g n k x \<le> (\<Sum>w<length g. count_list (g ! w) (int x))"
    unfolding pending_def by (intro sum_mono2) auto
  also have "\<dots> \<le> (\<Sum>w<length g. length (g ! w))" by (intro sum_mono count_le_length)
  also have "\<dots> = length (concat g)"
    by (simp add: length_concat sum_list_sum_nth atLeast0LessThan)
  finally show ?thesis .
qed

lemma count_level:
  assumes "level_list lo g n k wl"
  shows "count_list (concat (map (\<lambda>w. g ! nat w) wl)) (int x)
    = (\<Sum>w \<in> {w. lo \<le> w \<and> w < length g \<and> depth lo g n w = k}. count_list (g ! w) (int x))"
proof -
  have "count_list (concat (map (\<lambda>w. g ! nat w) wl)) (int x) = sum_list (map (\<lambda>w. count_list (g ! nat w) (int x)) wl)"
    by (simp add: count_list_concat comp_def)
  also have "\<dots> = (\<Sum>w \<in> set wl. count_list (g ! nat w) (int x))"
    using assms by (simp add: level_list_def sum_list_distinct_conv_sum_set)
  finally show ?thesis using assms by (simp add: level_list_def sum.reindex)
qed

lemma pending_Suc:
  assumes "level_list lo g n k wl"
  shows "pending lo g n k x = count_list (concat (map (\<lambda>w. g ! nat w) wl)) (int x) + pending lo g n (Suc k) x"
proof -
  have "{w. lo \<le> w \<and> w < length g \<and> k \<le> depth lo g n w} =
      {w. lo \<le> w \<and> w < length g \<and> depth lo g n w = k} \<union> {w. lo \<le> w \<and> w < length g \<and> Suc k \<le> depth lo g n w}"
    by auto
  then show ?thesis unfolding pending_def count_level [OF assms] by (simp add: sum.union_disjoint disjoint_iff)
qed

lemma level_round:
  assumes wf: "wf_csr N vlist elist" and G: "g = csr_graph N vlist elist" "wf_grammar g (int n)" "lo \<le> n"
    and fits: "length (concat g) < 2 ^ 31" "levels lo g n < 100000" and k: "k < levels lo g n"
    and wl: "level_list lo g n k wl"
  shows "\<exists>out. for_each (relax_vertex vlist elist (int n) (int (Suc k))) wl
      \<lparr>os_order = level_order lo g n k, os_degree = level_degree lo g n k, os_out = []\<rparr>
    = Some \<lparr>os_order = level_order lo g n (Suc k), os_degree = level_degree lo g n (Suc k), os_out = out\<rparr> \<and>
    level_list lo g n (Suc k) out"
proof -
  let ?ds = "concat (map (\<lambda>w. g ! nat w) wl)" and ?ord = "level_order lo g n k" and ?deg = "level_degree lo g n k"
  have len: "length g = N" "n \<le> length g" using G by (simp_all add: wf_grammar_def)
  have small: "depth lo g n x < 100000" if "lo \<le> x" "x < length g" for x
    using depth_less_levels [OF that, of n] fits(2) by simp
  have wl_in: "\<exists>v. w = int v \<and> v < N" if "w \<in> set wl" for w using that wl len by (auto simp: level_list_def)
  have loop: "for_each (relax_vertex vlist elist (int n) (int (Suc k))) wl s = for_each (relax_edge (int n) (int (Suc k))) ?ds s" for s
  proof (rule for_each_concat)
    fix w s assume "w \<in> set wl"
    then obtain v where "w = int v" "v < N" using wl_in by blast
    then show "relax_vertex vlist elist (int n) (int (Suc k)) w s = for_each (relax_edge (int n) (int (Suc k))) (g ! nat w) s"
      using csr_row_loop [OF wf, of v "relax_edge (int n) (int (Suc k))" s] G(1) by (simp add: relax_vertex_def)
  qed
  have init: "?ord ! x = INIT \<longleftrightarrow> k < depth lo g n x" if "n \<le> x" "x < length g" for x
    using that small [of x] G(3) by (simp add: level_order_def INIT_def)
  have degree: "?deg ! (x - n) = int (pending lo g n k x)" if "n \<le> x" "x < length g" for x
    using that diff_less_mono [of x "length g" n] by (simp add: level_degree_def)
  have "\<exists>out. for_each (relax_edge (int n) (int (Suc k))) ?ds \<lparr>os_order = ?ord, os_degree = ?deg, os_out = []\<rparr>
      = Some \<lparr>os_order = relaxed_order n (int (Suc k)) ?ds ?ord ?deg, os_degree = relaxed_degree n ?ds ?ord ?deg, os_out = out\<rparr> \<and>
    distinct out \<and> set out = relaxed_out n ?ds ?ord ?deg"
  proof (rule relax_edges)
    show "length ?ord = n + length ?deg" using len by (simp add: level_order_def level_degree_def)
    show "int (Suc k) \<noteq> INIT" using k fits(2) by (simp add: INIT_def)
  next
    fix d assume "d \<in> set ?ds"
    then obtain w where w: "w \<in> set wl" "d \<in> set (g ! nat w)" by auto
    then obtain v where v: "w = int v" "v < N" using wl_in by blast
    then show "0 \<le> d \<and> d < int (length ?ord)"
      using wf_grammar_row [OF G(2), of v d] w len by (simp add: level_order_def)
  next
    fix x assume x: "n \<le> x" "x < length ?ord" "?ord ! x = INIT"
    then have lt: "x < length g" by (simp add: level_order_def)
    have "pending lo g n k x \<noteq> 0" using pending_zero_iff [OF G(2) x(1), of lo k] init [OF x(1) lt] x(3) by simp
    moreover have "int (pending lo g n k x) < 2 ^ 31"
      using pending_le [of lo g n k x] fits(1)
      by (meson le_less_trans of_nat_less_numeral_power_cancel_iff)
    ultimately show "0 < ?deg ! (x - n) \<and> int (count_list ?ds (int x)) \<le> ?deg ! (x - n) \<and> ?deg ! (x - n) < 2 ^ 31"
      using degree [OF x(1) lt] pending_Suc [OF wl, of x] by linarith
  qed
  then obtain out where out: "for_each (relax_edge (int n) (int (Suc k))) ?ds \<lparr>os_order = ?ord, os_degree = ?deg, os_out = []\<rparr>
      = Some \<lparr>os_order = relaxed_order n (int (Suc k)) ?ds ?ord ?deg, os_degree = relaxed_degree n ?ds ?ord ?deg, os_out = out\<rparr>"
    "distinct out" "set out = relaxed_out n ?ds ?ord ?deg" by blast
  have hit: "?ord ! x = INIT \<and> ?deg ! (x - n) = int (count_list ?ds (int x)) \<longleftrightarrow> depth lo g n x = Suc k"
    if "n \<le> x" "x < length g" for x
    using init [OF that] degree [OF that] pending_Suc [OF wl, of x] pending_zero_iff [OF G(2) that(1), of lo "Suc k"] by auto
  have "relaxed_order n (int (Suc k)) ?ds ?ord ?deg ! x = level_order lo g n (Suc k) ! x" if x: "x < length g" for x
  proof (cases "n \<le> x")
    case True
    then show ?thesis using hit [OF True x] x G(3) by (auto simp: relaxed_order_def level_order_def le_Suc_eq)
  next
    case False
    then show ?thesis using x by (simp add: relaxed_order_def level_order_def)
  qed
  then have "relaxed_order n (int (Suc k)) ?ds ?ord ?deg = level_order lo g n (Suc k)"
    by (intro nth_equalityI) (simp_all add: relaxed_order_def level_order_def)
  moreover have "relaxed_degree n ?ds ?ord ?deg ! i = level_degree lo g n (Suc k) ! i" if "i < length g - n" for i
    using init [of "n + i"] that pending_Suc [OF wl, of "n + i"] pending_zero_iff [OF G(2), of "n + i" lo k]
    by (auto simp: relaxed_degree_def level_degree_def)
  then have "relaxed_degree n ?ds ?ord ?deg = level_degree lo g n (Suc k)"
    by (intro nth_equalityI) (simp_all add: relaxed_degree_def level_degree_def)
  moreover have "{x. n \<le> x \<and> x < length ?ord \<and> ?ord ! x = INIT \<and> ?deg ! (x - n) = int (count_list ?ds (int x))}
      = {x. lo \<le> x \<and> x < length g \<and> depth lo g n x = Suc k}"
    using hit G(3) by (auto simp: level_order_def) (metis depth_vertex nat.distinct(1) not_le)+
  then have "level_list lo g n (Suc k) out" using out(2,3) by (simp add: level_list_def relaxed_out_def)
  ultimately show ?thesis using out(1) loop by auto
qed

lemma order_levels_run:
  assumes wf: "wf_csr N vlist elist" and G: "g = csr_graph N vlist elist" "wf_grammar g (int n)" "lo \<le> n"
    and fits: "length (concat g) < 2 ^ 31" "levels lo g n < 100000"
    and "k \<le> levels lo g n" "level_list lo g n k wl"
  shows "order_levels vlist elist (int n) (int (Suc k)) wl (level_order lo g n k) (level_degree lo g n k)
    = Some (level_order lo g n (levels lo g n), int (Suc (levels lo g n)))"
  using assms(7,8)
proof (induction "levels lo g n - k" arbitrary: k wl)
  case 0
  then have k: "k = levels lo g n" by simp
  have none: "{x. lo \<le> x \<and> x < length g \<and> depth lo g n x = levels lo g n} = {}"
    using depth_less_levels [of lo _ g n] by (auto dest: less_imp_neq)
  have "wl = []" using 0 none by (simp add: level_list_def k)
  then show ?case by (subst order_levels.simps) (simp add: k)
next
  case (Suc m)
  then have k: "k < levels lo g n" by simp
  obtain x where "lo \<le> x" "x < length g" "depth lo g n x = k" using level_inhabited [OF G(2) k] by blast
  then have "wl \<noteq> []" using Suc.prems(2) by (auto simp: level_list_def)
  moreover obtain out where "for_each (relax_vertex vlist elist (int n) (int (Suc k))) wl
      \<lparr>os_order = level_order lo g n k, os_degree = level_degree lo g n k, os_out = []\<rparr>
    = Some \<lparr>os_order = level_order lo g n (Suc k), os_degree = level_degree lo g n (Suc k), os_out = out\<rparr>"
    and out: "level_list lo g n (Suc k) out"
    using level_round [OF wf G fits k Suc.prems(2)] by blast
  moreover have "i32_arith (int (Suc k) + 1) = Some (int (Suc (Suc k)))" using k fits(2) by simp
  moreover have "order_levels vlist elist (int n) (int (Suc (Suc k))) out (level_order lo g n (Suc k)) (level_degree lo g n (Suc k))
    = Some (level_order lo g n (levels lo g n), int (Suc (levels lo g n)))"
    using Suc.hyps(2) k out by (intro Suc.hyps(1)) auto
  ultimately show ?case by (subst order_levels.simps) (simp del: of_nat_Suc)
qed

lemma level_order_last:
  "level_order 0 g n (levels 0 g n) = map (\<lambda>x. int (depth 0 g n x)) [0..<length g]"
  using depth_less_levels [of 0 _ g n] by (auto simp: level_order_def less_imp_le)

subsection \<open>The initial counts\<close>

text \<open>Counting the occurrences of the rules in a list of symbols.\<close>

lemma count_rules:
  assumes "\<And>x. x \<in> set xs \<Longrightarrow> 0 \<le> x \<and> x < int (n + r)" "length deg = r"
    and "\<And>i. i < r \<Longrightarrow> 0 \<le> deg ! i \<and> deg ! i + int (length xs) < 2 ^ 31"
  shows "for_each (\<lambda>x deg. if int n \<le> x then add_at deg (x - int n) 1 else Some deg) xs deg
    = Some (map (\<lambda>i. deg ! i + int (count_list xs (int (n + i)))) [0..<r])"
  using assms
proof (induction xs arbitrary: deg)
  case Nil
  then show ?case by (auto intro: nth_equalityI)
next
  case (Cons x xs)
  show ?case
  proof (cases "int n \<le> x")
    case False
    have "for_each (\<lambda>x deg. if int n \<le> x then add_at deg (x - int n) 1 else Some deg) xs deg
        = Some (map (\<lambda>i. deg ! i + int (count_list xs (int (n + i)))) [0..<r])"
      using Cons.prems by (intro Cons.IH) force+
    then show ?thesis using False by auto
  next
    case True
    define i where "i = nat (x - int n)"
    have i: "x = int (n + i)" "i < r" using True Cons.prems(1) [of x] by (auto simp: i_def)
    have add: "add_at deg (x - int n) 1 = Some (deg[i := deg ! i + 1])"
      using add_at_Some [of i deg 1] i Cons.prems by force
    have "for_each (\<lambda>x deg. if int n \<le> x then add_at deg (x - int n) 1 else Some deg) xs (deg[i := deg ! i + 1])
        = Some (map (\<lambda>j. deg[i := deg ! i + 1] ! j + int (count_list xs (int (n + j)))) [0..<r])"
    proof (rule Cons.IH)
      fix j assume j: "j < r"
      have "0 \<le> deg ! j" "deg ! j + int (length xs) + 1 < 2 ^ 31" using Cons.prems(3) [OF j] by auto
      then show "0 \<le> deg[i := deg ! i + 1] ! j \<and> deg[i := deg ! i + 1] ! j + int (length xs) < 2 ^ 31"
        using j Cons.prems(2) by (cases "j = i") auto
    qed (use Cons.prems in auto)
    moreover have "deg[i := deg ! i + 1] ! j + int (count_list xs (int (n + j)))
        = deg ! j + int (count_list (x # xs) (int (n + j)))" if "j < r" for j
      using that i Cons.prems(2) by (auto simp: nth_list_update)
    ultimately show ?thesis using True add by simp
  qed
qed

lemma count_rules_zero:
  assumes "\<And>x. x \<in> set xs \<Longrightarrow> 0 \<le> x \<and> x < int (n + r)" "length xs < 2 ^ 31"
  shows "for_each (\<lambda>x deg. if int n \<le> x then add_at deg (x - int n) 1 else Some deg) xs (replicate r 0)
    = Some (map (\<lambda>i. int (count_list xs (int (n + i)))) [0..<r])"
proof -
  have "int (length xs) < 2 ^ 31" using assms(2) by (simp only: of_nat_less_numeral_power_cancel_iff)
  then have "for_each (\<lambda>x deg. if int n \<le> x then add_at deg (x - int n) 1 else Some deg) xs (replicate r 0)
    = Some (map (\<lambda>i. replicate r 0 ! i + int (count_list xs (int (n + i)))) [0..<r])"
    using assms(1) by (intro count_rules) simp_all
  then show ?thesis by simp
qed

lemma pending_0: "pending lo g n 0 x = count_list (concat (drop lo g)) (int x)"
proof -
  have "count_list (concat (drop lo g)) (int x) = (\<Sum>w = 0..<length g - lo. count_list (g ! (lo + w)) (int x))"
    by (simp add: count_list_concat sum_list_sum_nth add.commute)
  also have "\<dots> = (\<Sum>w = lo..<length g. count_list (g ! w) (int x))"
    using sum.shift_bounds_nat_ivl [of "\<lambda>w. count_list (g ! w) (int x)" 0 lo "length g - lo"]
    by (cases "lo \<le> length g") (simp_all add: add.commute)
  finally have "count_list (concat (drop lo g)) (int x) = (\<Sum>w = lo..<length g. count_list (g ! w) (int x))" .
  moreover have "{w. lo \<le> w \<and> w < length g \<and> 0 \<le> depth lo g n w} = {lo..<length g}" by auto
  ultimately show ?thesis by (simp add: pending_def)
qed

subsection \<open>The vertex orders\<close>

lemma vec_set_prefix:
  assumes "j < k"
  shows "vec_set (replicate j a @ replicate (k - j) b) (int j) a = Some (replicate (Suc j) a @ replicate (k - Suc j) b)"
proof -
  have "replicate (k - j) b = b # replicate (k - Suc j) b" using assms by (simp add: Suc_diff_Suc flip: replicate_Suc)
  moreover have "replicate (Suc j) a = replicate j a @ [a]" by (simp add: replicate_append_same)
  ultimately show ?thesis using vec_set_append [of "replicate j a" j b "replicate (k - Suc j) b" a] by (simp del: replicate_Suc)
qed

lemma gen_vertex_order_csr_order:
  assumes "full_csr (n + r) vlist elist" and "sound_rules n (csr_graph (n + r) vlist elist)"
    and "length elist < 2 ^ 31" and "levels 0 (csr_graph (n + r) vlist elist) n < 100000"
  shows "gen_vertex_order_csr vlist elist (int n) (int r) =
    Some (map (\<lambda>x. int (depth 0 (csr_graph (n + r) vlist elist) n x)) [0..<n + r],
      int (levels 0 (csr_graph (n + r) vlist elist) n))"
proof -
  define g where "g = csr_graph (n + r) vlist elist"
  have len: "length g = n + r" by (simp add: g_def)
  have con: "concat g = elist" using full_csr_concat [OF assms(1)] by (simp add: g_def)
  have wf: "wf_grammar g (int n)" using assms(2) by (simp add: sound_rules_def g_def)
  have used: "0 < depth 0 g n x" if "n \<le> x" "x < n + r" for x
    using assms(2) that depth_pos_iff [OF wf that(1), of 0] by (auto simp: sound_rules_def users_def g_def)
  have range: "0 \<le> x \<and> x < int (n + r)" if "x \<in> set elist" for x
    using that wf len con by (auto simp: wf_grammar_def)
  have "for_range 0 (int (length elist)) (\<lambda>e deg. do { x \<leftarrow> vec_at elist e;
      if int n \<le> x then add_at deg (x - int n) 1 else Some deg }) (replicate r 0) = Some (level_degree 0 g n 0)"
    using for_range_slice [of 0 "length elist" elist "\<lambda>x deg. if int n \<le> x then add_at deg (x - int n) 1 else Some deg"]
      count_rules_zero [OF range assms(3)] len con
    by (simp add: level_degree_def pending_0)
  moreover have "for_range 0 (int n) (\<lambda>src (order, wl). do { order \<leftarrow> vec_set order src 0; Some (order, wl @ [src]) })
      (replicate (n + r) INIT, []) = Some (level_order 0 g n 0, map int [0..<n])"
  proof -
    let ?S = "\<lambda>j. (replicate j 0 @ replicate (n + r - j) INIT, map int [0..<j])"
    have "for_range 0 (int n) (\<lambda>src (order, wl). do { order \<leftarrow> vec_set order src 0; Some (order, wl @ [src]) }) (?S 0) = Some (?S n)"
    proof (rule for_range_nat_eq)
      fix j assume j: "j < n"
      then show "(\<lambda>(order, wl). do { order \<leftarrow> vec_set order (int j) 0; Some (order, wl @ [int j]) }) (?S j) = Some (?S (Suc j))"
        using vec_set_prefix [of j "n + r" 0 INIT] by (simp del: replicate_Suc)
    qed
    moreover have "replicate n 0 @ replicate r INIT = level_order 0 g n 0"
    proof (rule nth_equalityI)
      fix x assume "x < length (replicate n 0 @ replicate r INIT)"
      then show "(replicate n 0 @ replicate r INIT) ! x = level_order 0 g n 0 ! x"
        using used [of x] len by (cases "x < n") (auto simp: level_order_def nth_append)
    qed (simp add: level_order_def len)
    ultimately show ?thesis by simp
  qed
  moreover have "x < n + r \<and> depth 0 g n x = 0 \<longleftrightarrow> x < n" for x using used [of x] by (cases "x < n") auto
  then have "{x. x < n + r \<and> depth 0 g n x = 0} = {0..<n}" by (simp add: atLeast0LessThan lessThan_def)
  then have "level_list 0 g n 0 (map int [0..<n])" using len by (simp add: level_list_def distinct_map)
  then have "order_levels vlist elist (int n) (int (Suc 0)) (map int [0..<n]) (level_order 0 g n 0) (level_degree 0 g n 0)
      = Some (level_order 0 g n (levels 0 g n), int (Suc (levels 0 g n)))"
    using assms(1,3,4) con wf by (intro order_levels_run [OF full_csrD [OF assms(1)]]) (auto simp: g_def)
  ultimately show ?thesis
    by (simp add: gen_vertex_order_csr_def Let_def level_order_last len flip: g_def)
qed

text \<open>
  Property C10. On a sound compressed graph with fewer than \<open>INIT\<close> levels \<open>gen_vertex_order_csr\<close>
  terminates and returns, for every row, the length of the longest chain of uses from a vertex to
  it, and the number of levels.
\<close>

theorem gen_vertex_order_csr_depth:
  assumes "full_csr (n + r) vlist elist" and "sound_rules n (csr_graph (n + r) vlist elist)"
    and "length elist < 2 ^ 31" and "levels 0 (csr_graph (n + r) vlist elist) n < 100000"
  shows "gen_vertex_order_csr vlist elist (int n) (int r) =
    Some (map (\<lambda>x. int (depth 0 (csr_graph (n + r) vlist elist) n x)) [0..<n + r],
      int (levels 0 (csr_graph (n + r) vlist elist) n))"
  by (rule gen_vertex_order_csr_order [OF assms])

theorem gen_vertex_order_csr_depth_witness:
  "gen_vertex_order_csr [0, 2, 4, 6, 8] [3, 1, 2, 3, 0, 1, 2, 0] 2 2 = Some ([0, 0, 2, 1], 3)"
proof -
  let ?vl = "[0, 2, 4, 6, 8]" and ?el = "[3, 1, 2, 3, 0, 1, 2, 0] :: int list"
  let ?g = "csr_graph (2 + 2) ?vl ?el"
  have "wf_csr (2 + 2) ?vl ?el" "sound_rules 2 ?g" by code_simp+
  moreover have "levels 0 ?g 2 = 3" "map (\<lambda>x. int (depth 0 ?g 2 x)) [0..<2 + 2] = [0, 0, 2, 1]" by code_simp+
  ultimately show ?thesis
    using gen_vertex_order_csr_depth [of 2 2 ?vl ?el] by (simp add: full_csr_def)
qed

text \<open>
  Property C11. On a well-formed compressed graph \<open>gen_vertex_order_csc\<close> terminates and returns
  for every rule the length of the longest chain of rules that leads to it, puts the vertices
  after all the rules, and returns the number of levels including theirs.
\<close>

theorem gen_vertex_order_csc_depth:
  assumes "wf_csr (n + r) vlist elist" and "wf_grammar (csr_graph (n + r) vlist elist) (int n)"
    and "length (concat (csr_graph (n + r) vlist elist)) < 2 ^ 31" and "levels n (csr_graph (n + r) vlist elist) n < 100000"
  shows "gen_vertex_order_csc vlist elist (int n) (int r) =
    Some (replicate n (int (levels n (csr_graph (n + r) vlist elist) n)) @
        map (\<lambda>x. int (depth n (csr_graph (n + r) vlist elist) n x)) [n..<n + r],
      int (levels n (csr_graph (n + r) vlist elist) n) + 1)"
proof -
  define g where "g = csr_graph (n + r) vlist elist"
  let ?L = "levels n g n"
  have len: "length g = n + r" by (simp add: g_def)
  have wf: "wf_grammar g (int n)" using assms(2) by (simp add: g_def)
  have rows: "map (\<lambda>j. g ! (n + j)) [0..<r] = drop n g" by (rule nth_equalityI) (simp_all add: len)
  have range: "0 \<le> x \<and> x < int (n + r)" if "x \<in> set (concat (drop n g))" for x
    using that wf len in_set_dropD by (fastforce simp: wf_grammar_def)
  have small: "length (concat (drop n g)) < 2 ^ 31"
    using assms(3) arg_cong [OF concat_append [of "take n g" "drop n g"], of length] by (simp add: g_def)
  have loop: "do { start \<leftarrow> vec_at vlist (int j + int n); end \<leftarrow> vec_at vlist (int j + int n + 1);
      for_range start end (\<lambda>eid deg. do { dst \<leftarrow> vec_at elist eid;
        if int n \<le> dst then add_at deg (dst - int n) 1 else Some deg }) s }
      = for_each (\<lambda>x deg. if int n \<le> x then add_at deg (x - int n) 1 else Some deg) (g ! (n + j)) s" if "j < r" for j s
    using csr_row_loop [OF assms(1), of "n + j"] that by (simp add: g_def add.commute)
  have deg: "for_range 0 (int r) (\<lambda>src deg. do { start \<leftarrow> vec_at vlist (src + int n); end \<leftarrow> vec_at vlist (src + int n + 1);
      for_range start end (\<lambda>eid deg. do { dst \<leftarrow> vec_at elist eid;
        if int n \<le> dst then add_at deg (dst - int n) 1 else Some deg }) deg }) (replicate r 0) = Some (level_degree n g n 0)"
    using for_range_concat [of r _ "\<lambda>x deg. if int n \<le> x then add_at deg (x - int n) 1 else Some deg" "\<lambda>j. g ! (n + j)", OF loop]
      count_rules_zero [OF range small] rows len
    by (simp add: level_degree_def pending_0)
  have zero: "level_degree n g n 0 ! j = 0 \<longleftrightarrow> depth n g n (n + j) = 0" if "j < r" for j
    using that pending_zero_iff [OF wf, of "n + j" n 0] len by (simp add: level_degree_def)
  let ?w = "\<lambda>j. map (\<lambda>i. int (n + i)) (filter (\<lambda>i. depth n g n (n + i) = 0) [0..<j])"
  let ?o = "\<lambda>j. map (\<lambda>x. if n \<le> x \<and> x < n + j \<and> depth n g n x = 0 then 0 else INIT) [0..<n + r]"
  have "for_range 0 (int r) (\<lambda>src (order, wl). do { d \<leftarrow> vec_at (level_degree n g n 0) src;
      if d = 0 then do { order \<leftarrow> vec_set order (src + int n) 0; Some (order, wl @ [src + int n]) } else Some (order, wl) })
      (?o 0, ?w 0) = Some (?o r, ?w r)"
  proof (rule for_range_nat_eq [where S = "\<lambda>j. (?o j, ?w j)"])
    fix j assume j: "j < r"
    have "vec_at (level_degree n g n 0) (int j) = Some (level_degree n g n 0 ! j)"
      using j len by (simp add: vec_at_nat level_degree_def)
    moreover have "vec_set (?o j) (int j + int n) 0 = Some (?o (Suc j))" if "depth n g n (n + j) = 0"
      using that j by (auto simp: vec_set_def nth_list_update add.commute less_Suc_eq intro!: nth_equalityI)
    moreover have "?o (Suc j) = ?o j" if "depth n g n (n + j) \<noteq> 0" using that by (auto simp: less_Suc_eq)
    ultimately show "(\<lambda>(order, wl). do { d \<leftarrow> vec_at (level_degree n g n 0) (int j);
        if d = 0 then do { order \<leftarrow> vec_set order (int j + int n) 0; Some (order, wl @ [int j + int n]) } else Some (order, wl) })
        (?o j, ?w j) = Some (?o (Suc j), ?w (Suc j))"
      using zero [OF j] by (cases "depth n g n (n + j) = 0") (simp_all add: add.commute)
  qed
  moreover have "?o 0 = replicate (n + r) INIT" by (intro nth_equalityI) auto
  moreover have "?o r = level_order n g n 0" using len by (auto simp: level_order_def)
  ultimately have init: "for_range 0 (int r) (\<lambda>src (order, wl). do { d \<leftarrow> vec_at (level_degree n g n 0) src;
      if d = 0 then do { order \<leftarrow> vec_set order (src + int n) 0; Some (order, wl @ [src + int n]) } else Some (order, wl) })
      (replicate (n + r) INIT, []) = Some (level_order n g n 0, ?w r)"
    by simp
  have "set (?w r) = int ` {x. n \<le> x \<and> x < length g \<and> depth n g n x = 0}"
  proof -
    have "{x. n \<le> x \<and> x < length g \<and> depth n g n x = 0} = (\<lambda>i. n + i) ` {i. i < r \<and> depth n g n (n + i) = 0}"
    proof (intro equalityI subsetI)
      fix x assume x: "x \<in> {x. n \<le> x \<and> x < length g \<and> depth n g n x = 0}"
      then show "x \<in> (\<lambda>i. n + i) ` {i. i < r \<and> depth n g n (n + i) = 0}"
        using len by (intro image_eqI [of _ _ "x - n"]) auto
    qed (use len in auto)
    then show ?thesis by (auto simp: image_image)
  qed
  then have "level_list n g n 0 (?w r)" by (simp add: level_list_def distinct_map inj_on_def)
  then have run: "order_levels vlist elist (int n) (int (Suc 0)) (?w r) (level_order n g n 0) (level_degree n g n 0)
      = Some (level_order n g n ?L, int (Suc ?L))"
    using assms wf by (intro order_levels_run [OF assms(1)]) (auto simp: g_def)
  have "level_order n g n ?L = replicate n INIT @ map (\<lambda>x. int (depth n g n x)) [n..<n + r]"
    using depth_less_levels [of n _ g n] len
    by (intro nth_equalityI) (auto simp: level_order_def nth_append less_imp_le)
  moreover have "for_range 0 (int n) (\<lambda>src order. vec_set order src a) (replicate n INIT @ xs) = Some (replicate n a @ xs)" for a xs
  proof -
    let ?S = "\<lambda>j. (replicate j a @ replicate (n - j) INIT) @ xs"
    have "for_range 0 (int n) (\<lambda>src order. vec_set order src a) (?S 0) = Some (?S n)"
    proof (rule for_range_nat_eq)
      fix j assume "j < n"
      then show "vec_set (?S j) (int j) a = Some (?S (Suc j))"
        using vec_set_prefix [of j n a INIT] by (auto simp: vec_set_eq_Some_iff vec_set_def list_update_append)
    qed
    then show ?thesis by simp
  qed
  ultimately show ?thesis
    using deg init run by (simp add: gen_vertex_order_csc_def Let_def flip: g_def)
qed

theorem gen_vertex_order_csc_depth_witness:
  "gen_vertex_order_csc [0, 2, 4, 6, 8] [3, 1, 2, 3, 0, 1, 2, 0] 2 2 = Some ([2, 2, 1, 0], 3)"
proof -
  let ?vl = "[0, 2, 4, 6, 8]" and ?el = "[3, 1, 2, 3, 0, 1, 2, 0] :: int list"
  let ?g = "csr_graph (2 + 2) ?vl ?el"
  have "wf_csr (2 + 2) ?vl ?el" "wf_grammar ?g (int 2)" by code_simp+
  moreover have "levels 2 ?g 2 = 2" "map (\<lambda>x. int (depth 2 ?g 2 x)) [2..<2 + 2] = [1, 0]" "length (concat ?g) = 8" by code_simp+
  moreover have "replicate 2 (2 :: int) = [2, 2]" by (simp add: numeral_2_eq_2)
  ultimately show ?thesis
    using gen_vertex_order_csc_depth [of 2 2 ?vl ?el] by simp
qed

subsection \<open>The masks\<close>

lemma fill_mask_run:
  assumes "length order = sz" "int (sz * m) < 2 ^ 31"
  shows "fill_mask junk order (int sz) (int m) = Some (concat (map (\<lambda>d. map (\<lambda>x. x = int d) order) [0..<m]))"
proof -
  let ?row = "\<lambda>d. map (\<lambda>x. x = int d) order"
  let ?pre = "\<lambda>d. concat (map ?row [0..<d])"
  have lenpre: "length (?pre d) = d * sz" for d using assms(1) by (induction d) auto
  let ?S = "\<lambda>d. ?pre d @ replicate (sz * m - d * sz) junk"
  let ?f = "\<lambda>d s mask. do { x \<leftarrow> vec_at order s; vec_set mask (d * int sz + s) (x = d) }"
  have "for_range 0 (int m) (\<lambda>d. for_range 0 (int sz) (?f d)) (?S 0) = Some (?S m)"
  proof (rule for_range_nat_eq)
    fix d assume d: "d < m"
    have room: "d * sz + sz \<le> sz * m" using mult_le_mono1 [of "Suc d" m sz] d by (simp add: mult.commute add.commute)
    let ?T = "\<lambda>s. ?pre d @ take s (?row d) @ replicate (sz * m - (d * sz + s)) junk"
    have "for_range 0 (int sz) (?f (int d)) (?T 0) = Some (?T sz)"
    proof (rule for_range_nat_eq)
      fix s assume s: "s < sz"
      have rep: "replicate (sz * m - (d * sz + s)) junk = junk # replicate (sz * m - (d * sz + Suc s)) junk"
        using room s by (simp add: Suc_diff_Suc flip: replicate_Suc)
      have "vec_set ((?pre d @ take s (?row d)) @ junk # replicate (sz * m - (d * sz + Suc s)) junk) (int (d * sz + s)) (order ! s = int d)
          = Some ((?pre d @ take s (?row d)) @ (order ! s = int d) # replicate (sz * m - (d * sz + Suc s)) junk)"
        using s assms(1) lenpre by (intro vec_set_append) simp
      then show "?f (int d) (int s) (?T s) = Some (?T (Suc s))"
        using s assms(1) rep by (simp add: vec_at_nat take_Suc_conv_app_nth)
    qed
    moreover have "sz * m - (d * sz + sz) = sz * m - Suc d * sz" by (simp add: add.commute)
    ultimately show "for_range 0 (int sz) (?f (int d)) (?S d) = Some (?S (Suc d))"
      using assms(1) by simp
  qed
  moreover have "i32_arith (int (sz * m)) = Some (int (sz * m))"
    using assms(2) of_nat_0_le_iff [of "sz * m"] by (intro i32_arith_Some) linarith+
  ultimately show ?thesis by (simp add: fill_mask_def mult.commute nat_mult_distrib)
qed

text \<open>In a mask of orders below the number of rows, every column is marked in exactly one row, that of its order.\<close>

lemma mask_at:
  assumes "d < m" "s < length order"
  shows "concat (map (\<lambda>d. map (\<lambda>x. x = int d) order) [0..<m]) ! (d * length order + s) \<longleftrightarrow> order ! s = int d"
proof -
  have "length (concat (map (\<lambda>d. map (\<lambda>x. x = int d) order) [0..<d])) = d * length order" for d by (induction d) auto
  moreover have "[0..<m] = [0..<d] @ d # [Suc d..<m]"
    using assms(1) upt_add_eq_append [of 0 d "m - d"] by (simp add: upt_conv_Cons)
  ultimately show ?thesis using assms(2) by (simp add: nth_append)
qed




end
