(* ===== verification/Edge_Order.thy ===== *)
theory Edge_Order
  imports Masks
begin

text \<open>
  The order of the edges of a compressed graph in coordinate form, \<open>gen_edge_order\<close> and
  \<open>gen_mask_edge\<close> of \<open>compress_op/gen_mask.h\<close>.
\<close>

subsection \<open>The code\<close>

text \<open>
  The order of the edges.  A round gives the edges whose source has no pending use the
  current step, and collects in \<open>tmp_degree\<close> what to subtract from \<open>in_degree\<close> afterwards.
\<close>

record edge_state =
  es_order :: "int list"
  es_degree :: "int list"
  es_processed :: int

definition start_edge :: "int list \<Rightarrow> int list \<Rightarrow> int \<Rightarrow> int \<Rightarrow> edge_state \<Rightarrow> edge_state option" where
  "start_edge src dst vertex_cnt i st = do {
     srcID \<leftarrow> vec_at src i;
     dstID \<leftarrow> vec_at dst i;
     if srcID < vertex_cnt then do {
       order \<leftarrow> vec_set (es_order st) i 0;
       in_degree \<leftarrow> (if vertex_cnt \<le> dstID then add_at (es_degree st) (dstID - vertex_cnt) (-1) else Some (es_degree st));
       Some \<lparr>es_order = order, es_degree = in_degree, es_processed = es_processed st + 1\<rparr>
     } else Some st
   }"

definition visit_edge ::
  "int list \<Rightarrow> int list \<Rightarrow> int \<Rightarrow> int \<Rightarrow> int \<Rightarrow> edge_state \<times> int list \<Rightarrow> (edge_state \<times> int list) option" where
  "visit_edge src dst vertex_cnt step i = (\<lambda>(st, tmp_degree). do {
     srcID \<leftarrow> vec_at src i;
     dstID \<leftarrow> vec_at dst i;
     if vertex_cnt \<le> srcID then do {
       deg \<leftarrow> vec_at (es_degree st) (srcID - vertex_cnt);
       ord \<leftarrow> vec_at (es_order st) i;
       if deg = 0 \<and> ord = INIT then do {
         order \<leftarrow> vec_set (es_order st) i step;
         let st = st\<lparr>es_order := order, es_processed := es_processed st + 1\<rparr>;
         if vertex_cnt \<le> dstID then do {
           deg \<leftarrow> vec_at (es_degree st) (dstID - vertex_cnt);
           tmp_degree \<leftarrow> (if 0 < deg then add_at tmp_degree (dstID - vertex_cnt) 1 else Some tmp_degree);
           Some (st, tmp_degree)
         } else Some (st, tmp_degree)
       } else Some (st, tmp_degree)
     } else Some (st, tmp_degree)
   })"

partial_function (option) edge_rounds ::
  "int list \<Rightarrow> int list \<Rightarrow> int \<Rightarrow> int \<Rightarrow> int \<Rightarrow> edge_state \<Rightarrow> (int list \<times> int) option" where
  "edge_rounds src dst vertex_cnt rule_cnt step st =
     (if es_processed st < int (length src) then do {
        (st, tmp_degree) \<leftarrow> for_range 0 (int (length src)) (visit_edge src dst vertex_cnt step)
          (st, replicate (nat rule_cnt) 0);
        in_degree \<leftarrow> for_range 0 rule_cnt (\<lambda>i in_degree. do {
          t \<leftarrow> vec_at tmp_degree i; add_at in_degree i (- t) }) (es_degree st);
        step \<leftarrow> i32_arith (step + 1);
        edge_rounds src dst vertex_cnt rule_cnt step (st\<lparr>es_degree := in_degree\<rparr>)
      } else Some (es_order st, step))"

declare edge_rounds.simps [code]

definition gen_edge_order :: "int list \<Rightarrow> int list \<Rightarrow> int \<Rightarrow> int \<Rightarrow> (int list \<times> int) option" where
  "gen_edge_order src dst vertex_cnt rule_cnt =
     (if length src \<noteq> length dst then None else do {
       let edge_cnt = int (length src);
       in_degree \<leftarrow> for_range 0 edge_cnt (\<lambda>i in_degree. do {
         dstID \<leftarrow> vec_at dst i;
         if vertex_cnt \<le> dstID then add_at in_degree (dstID - vertex_cnt) 1 else Some in_degree
       }) (replicate (nat rule_cnt) 0);
       st \<leftarrow> for_range 0 edge_cnt (start_edge src dst vertex_cnt)
         \<lparr>es_order = replicate (nat edge_cnt) INIT, es_degree = in_degree, es_processed = 0\<rparr>;
       edge_rounds src dst vertex_cnt rule_cnt 1 st
     })"

definition gen_mask_edge :: "bool \<Rightarrow> int list \<Rightarrow> int list \<Rightarrow> int \<Rightarrow> int \<Rightarrow> (bool list \<times> int) option" where
  "gen_mask_edge junk src dst vertex_cnt rule_cnt = do {
     (order, m_depth) \<leftarrow> gen_edge_order src dst vertex_cnt rule_cnt;
     mask \<leftarrow> fill_mask junk order (to_i32 (int (length src))) m_depth;
     Some (mask, m_depth)
   }"

subsection \<open>The order of the edges\<close>

definition count_below :: "(nat \<Rightarrow> bool) \<Rightarrow> nat \<Rightarrow> nat" where
  "count_below P j = length (filter P [0..<j])"

lemma count_below_0 [simp]: "count_below P 0 = 0"
  by (simp add: count_below_def)

lemma count_below_Suc: "count_below P (Suc j) = count_below P j + (if P j then 1 else 0)"
  by (simp add: count_below_def)

lemma count_below_le: "count_below P j \<le> j"
  using length_filter_le [of P "[0..<j]"] by (simp add: count_below_def)

lemma count_below_mono: "i \<le> j \<Longrightarrow> count_below P i \<le> count_below P j"
  by (induction j rule: dec_induct) (auto simp: count_below_Suc)

lemma count_below_zero_iff: "count_below P j = 0 \<longleftrightarrow> (\<forall>i<j. \<not> P i)"
  by (auto simp: count_below_def filter_empty_conv)

lemma count_below_split:
  "(\<And>i. P i \<longleftrightarrow> Q i \<or> R i) \<Longrightarrow> (\<And>i. \<not> (Q i \<and> R i)) \<Longrightarrow> count_below P j = count_below Q j + count_below R j"
  by (induction j) (auto simp: count_below_Suc)

lemma count_below_all: "(\<And>i. i < j \<Longrightarrow> P i) \<Longrightarrow> count_below P j = j"
  by (simp add: count_below_def filter_id_conv)

lemma count_below_lt: "i < j \<Longrightarrow> \<not> P i \<Longrightarrow> count_below P j < j"
  using count_below_split [of "\<lambda>_. True" P "\<lambda>i. \<not> P i" j] count_below_zero_iff [of "\<lambda>i. \<not> P i" j] count_below_all [of j "\<lambda>_. True"]
  by (auto simp: neq0_conv [symmetric] simp del: neq0_conv)

definition edge_levels :: "(nat \<Rightarrow> nat) \<Rightarrow> nat \<Rightarrow> nat" where
  "edge_levels dep m = foldr max (map (\<lambda>i. Suc (dep i)) [0..<m]) 1"

text \<open>
  The edges \<open>(src, dst)\<close> of a compressed graph, and the depth \<open>dep\<close> of the source of each: what
  the rounds need of them.
\<close>

definition edge_depths :: "nat \<Rightarrow> nat \<Rightarrow> int list \<Rightarrow> int list \<Rightarrow> (nat \<Rightarrow> nat) \<Rightarrow> bool" where
  "edge_depths n r src dst dep \<longleftrightarrow> length dst = length src \<and> length src < 2 ^ 31 \<and> (\<forall>e<length src.
     0 \<le> src ! e \<and> src ! e < int (n + r) \<and> 0 \<le> dst ! e \<and> dst ! e < int (n + r) \<and> dep e < 100000 \<and>
     (src ! e < int n \<longleftrightarrow> dep e = 0) \<and>
     (int n \<le> src ! e \<longrightarrow> (\<forall>k. dep e \<le> k \<longleftrightarrow> (\<forall>e'<length src. dst ! e' = src ! e \<longrightarrow> dep e' < k))))"

definition round_order :: "(nat \<Rightarrow> nat) \<Rightarrow> nat \<Rightarrow> nat \<Rightarrow> nat \<Rightarrow> int list" where
  "round_order dep m k j = map (\<lambda>i. if dep i < k \<or> i < j \<and> dep i = k then int (dep i) else INIT) [0..<m]"

definition round_degree :: "(nat \<Rightarrow> nat) \<Rightarrow> int list \<Rightarrow> nat \<Rightarrow> nat \<Rightarrow> nat \<Rightarrow> int list" where
  "round_degree dep dst n r k = map (\<lambda>i. int (count_below (\<lambda>e. k \<le> dep e \<and> dst ! e = int (n + i)) (length dst))) [0..<r]"

definition round_tmp :: "(nat \<Rightarrow> nat) \<Rightarrow> int list \<Rightarrow> nat \<Rightarrow> nat \<Rightarrow> nat \<Rightarrow> nat \<Rightarrow> int list" where
  "round_tmp dep dst n r k j = map (\<lambda>i. int (count_below (\<lambda>e. dep e = k \<and> dst ! e = int (n + i)) j)) [0..<r]"

lemma int_count_fits: "j \<le> m \<Longrightarrow> m < 2 ^ 31 \<Longrightarrow> int (count_below P j) < 2 ^ 31"
  using count_below_le [of P j] by (meson le_less_trans of_nat_less_numeral_power_cancel_iff)

lemma visit_edge_run:
  assumes E: "edge_depths n r src dst dep" and k: "0 < k" and j: "j < length src"
  shows "visit_edge src dst (int n) (int k) (int j)
      (\<lparr>es_order = round_order dep (length src) k j, es_degree = round_degree dep dst n r k,
         es_processed = int (p + count_below (\<lambda>e. dep e = k) j)\<rparr>, round_tmp dep dst n r k j)
    = Some (\<lparr>es_order = round_order dep (length src) k (Suc j), es_degree = round_degree dep dst n r k,
         es_processed = int (p + count_below (\<lambda>e. dep e = k) (Suc j))\<rparr>, round_tmp dep dst n r k (Suc j))"
    (is "_ = Some (?st', ?tmp')")
proof -
  let ?m = "length src"
  have len: "length dst = ?m" and small: "?m < 2 ^ 31" using E by (auto simp: edge_depths_def)
  have e: "0 \<le> src ! j" "src ! j < int (n + r)" "0 \<le> dst ! j" "dst ! j < int (n + r)" "dep j < 100000"
    "src ! j < int n \<longleftrightarrow> dep j = 0"
    and dep: "int n \<le> src ! j \<Longrightarrow> dep j \<le> k \<longleftrightarrow> (\<forall>e'<length src. dst ! e' = src ! j \<longrightarrow> dep e' < k)"
    using E j by (auto simp: edge_depths_def)
  have at: "vec_at src (int j) = Some (src ! j)" "vec_at dst (int j) = Some (dst ! j)"
    using j len by (simp_all add: vec_at_nat)
  have ord: "vec_at (round_order dep ?m k j) (int j) = Some (if dep j < k then int (dep j) else INIT)"
    using j by (simp add: vec_at_nat round_order_def)
  have deg: "vec_at (round_degree dep dst n r k) (x - int n)
      = Some (int (count_below (\<lambda>e. k \<le> dep e \<and> dst ! e = x) ?m))" if "int n \<le> x" "x < int (n + r)" for x
  proof -
    define i where "i = nat (x - int n)"
    have i: "x = int (n + i)" "i < r" using that by (auto simp: i_def)
    then show ?thesis using len by (simp add: vec_at_nat round_degree_def)
  qed
  have zero: "count_below (\<lambda>e. k \<le> dep e \<and> dst ! e = src ! j) ?m = 0 \<longleftrightarrow> dep j \<le> k" if "int n \<le> src ! j"
    using dep [OF that] by (auto simp: count_below_zero_iff not_less)
  show ?thesis
  proof (cases "dep j = k")
    case False
    have "round_order dep ?m k (Suc j) = round_order dep ?m k j" "round_tmp dep dst n r k (Suc j) = round_tmp dep dst n r k j"
      using False by (auto simp: round_order_def round_tmp_def count_below_Suc less_Suc_eq)
    moreover have "\<not> (count_below (\<lambda>e. k \<le> dep e \<and> dst ! e = src ! j) ?m = 0 \<and> \<not> dep j < k)" if "int n \<le> src ! j"
      using zero [OF that] False by auto
    ultimately show ?thesis
      using at ord deg [of "src ! j"] e False
      by (auto simp: visit_edge_def count_below_Suc INIT_def not_less)
  next
    case True
    have src: "int n \<le> src ! j" using e(6) True k by auto
    have z: "count_below (\<lambda>e. k \<le> dep e \<and> dst ! e = src ! j) ?m = 0" using zero [OF src] True by simp
    have set: "vec_set (round_order dep ?m k j) (int j) (int k) = Some (round_order dep ?m k (Suc j))"
      using j True by (auto simp: vec_set_def round_order_def nth_list_update less_Suc_eq intro!: nth_equalityI)
    show ?thesis
    proof (cases "int n \<le> dst ! j")
      case False
      then have "round_tmp dep dst n r k (Suc j) = round_tmp dep dst n r k j" by (auto simp: round_tmp_def count_below_Suc)
      then show ?thesis using at ord deg [OF src e(2)] z src set True False
        by (simp add: visit_edge_def count_below_Suc Let_def)
    next
      case dst: True
      define i where "i = nat (dst ! j - int n)"
      have i: "dst ! j = int (n + i)" "i < r" using dst e(4) by (auto simp: i_def)
      have pos: "0 < count_below (\<lambda>e. k \<le> dep e \<and> dst ! e = dst ! j) ?m"
        using j True count_below_zero_iff [of "\<lambda>e. k \<le> dep e \<and> dst ! e = dst ! j" ?m] by auto
      have "round_tmp dep dst n r k j ! i + 1 < 2 ^ 31"
        using int_count_fits [of "Suc j" ?m "\<lambda>e. dep e = k \<and> dst ! e = int (n + i)"] i j True small
        by (simp add: round_tmp_def count_below_Suc)
      then have "add_at (round_tmp dep dst n r k j) (int i) 1 = Some ((round_tmp dep dst n r k j)[i := round_tmp dep dst n r k j ! i + 1])"
        using i by (intro add_at_Some) (simp_all add: round_tmp_def)
      moreover have "(round_tmp dep dst n r k j)[i := round_tmp dep dst n r k j ! i + 1] = round_tmp dep dst n r k (Suc j)"
        using i True by (intro nth_equalityI) (auto simp: round_tmp_def nth_list_update count_below_Suc)
      ultimately show ?thesis using at ord deg [OF src e(2)] deg [OF dst e(4)] z pos src set True dst i
        by (simp add: visit_edge_def count_below_Suc Let_def)
    qed
  qed
qed

text \<open>The first loops: every edge out of a vertex has order 0, and its destination one use less.\<close>

lemma count_below_degree:
  "count_below (\<lambda>e. k \<le> dep e \<and> P e) j = count_below (\<lambda>e. Suc k \<le> dep e \<and> P e) j + count_below (\<lambda>e. dep e = k \<and> P e) j"
  by (rule count_below_split) auto

lemma all_uses_run:
  assumes E: "edge_depths n r src dst dep"
  shows "for_range 0 (int (length src)) (\<lambda>i in_degree. do {
         dstID \<leftarrow> vec_at dst i;
         if int n \<le> dstID then add_at in_degree (dstID - int n) 1 else Some in_degree
       }) (replicate r 0) = Some (round_degree dep dst n r 0)"
proof -
  let ?m = "length src"
  have len: "length dst = ?m" and small: "?m < 2 ^ 31" using E by (auto simp: edge_depths_def)
  let ?S = "\<lambda>j. map (\<lambda>i. int (count_below (\<lambda>e. dst ! e = int (n + i)) j)) [0..<r]"
  have "for_range 0 (int ?m) (\<lambda>i in_degree. do {
         dstID \<leftarrow> vec_at dst i;
         if int n \<le> dstID then add_at in_degree (dstID - int n) 1 else Some in_degree
       }) (?S 0) = Some (?S ?m)"
  proof (rule for_range_nat_eq)
    fix j assume j: "j < ?m"
    have at: "vec_at dst (int j) = Some (dst ! j)" "dst ! j < int (n + r)"
      using j len E by (simp_all add: vec_at_nat edge_depths_def)
    show "(do { dstID \<leftarrow> vec_at dst (int j);
        if int n \<le> dstID then add_at (?S j) (dstID - int n) 1 else Some (?S j) }) = Some (?S (Suc j))"
    proof (cases "int n \<le> dst ! j")
      case True
      define i where "i = nat (dst ! j - int n)"
      have i: "dst ! j = int (n + i)" "i < r" using True at(2) by (auto simp: i_def)
      have "add_at (?S j) (int i) 1 = Some ((?S j)[i := ?S j ! i + 1])"
        using i int_count_fits [of "Suc j" ?m "\<lambda>e. dst ! e = int (n + i)"] j small
        by (intro add_at_Some) (simp_all add: count_below_Suc)
      moreover have "(?S j)[i := ?S j ! i + 1] = ?S (Suc j)"
        using i by (intro nth_equalityI) (auto simp: nth_list_update count_below_Suc)
      ultimately show ?thesis using at True i by simp
    qed (use at in \<open>auto simp: count_below_Suc\<close>)
  qed
  moreover have "?S 0 = replicate r 0" by (simp add: map_replicate_const)
  ultimately show ?thesis using len by (simp add: round_degree_def)
qed

lemma start_edges_run:
  assumes E: "edge_depths n r src dst dep"
  shows "for_range 0 (int (length src)) (start_edge src dst (int n))
      \<lparr>es_order = replicate (length src) INIT, es_degree = round_degree dep dst n r 0, es_processed = 0\<rparr>
    = Some \<lparr>es_order = round_order dep (length src) 1 0, es_degree = round_degree dep dst n r 1,
        es_processed = int (count_below (\<lambda>e. dep e < 1) (length src))\<rparr>"
proof -
  let ?m = "length src"
  have len: "length dst = ?m" and small: "?m < 2 ^ 31" using E by (auto simp: edge_depths_def)
  let ?D = "\<lambda>j. map (\<lambda>i. int (count_below (\<lambda>e. dst ! e = int (n + i)) ?m) - int (count_below (\<lambda>e. dep e = 0 \<and> dst ! e = int (n + i)) j)) [0..<r]"
  let ?S = "\<lambda>j. \<lparr>es_order = round_order dep ?m 0 j, es_degree = ?D j, es_processed = int (count_below (\<lambda>e. dep e = 0) j)\<rparr>"
  have "for_range 0 (int ?m) (start_edge src dst (int n)) (?S 0) = Some (?S ?m)"
  proof (rule for_range_nat_eq)
    fix j assume j: "j < ?m"
    have e: "vec_at src (int j) = Some (src ! j)" "vec_at dst (int j) = Some (dst ! j)"
      "dst ! j < int (n + r)" "src ! j < int n \<longleftrightarrow> dep j = 0"
      using j len E by (simp_all add: vec_at_nat edge_depths_def)
    show "start_edge src dst (int n) (int j) (?S j) = Some (?S (Suc j))"
    proof (cases "dep j = 0")
      case False
      then have "round_order dep ?m 0 (Suc j) = round_order dep ?m 0 j" by (auto simp: round_order_def less_Suc_eq)
      with False e show ?thesis by (simp add: start_edge_def count_below_Suc)
    next
      case True
      then have set: "vec_set (round_order dep ?m 0 j) (int j) 0 = Some (round_order dep ?m 0 (Suc j))"
        using j by (auto simp: vec_set_def round_order_def nth_list_update less_Suc_eq intro!: nth_equalityI)
      show ?thesis
      proof (cases "int n \<le> dst ! j")
        case dst: True
        define i where "i = nat (dst ! j - int n)"
        have i: "dst ! j = int (n + i)" "i < r" using dst e(3) by (auto simp: i_def)
        have "count_below (\<lambda>e. dep e = 0 \<and> dst ! e = int (n + i)) j \<le> ?m"
          using count_below_le [of _ j] j by (meson le_trans less_imp_le)
        then have "add_at (?D j) (int i) (-1) = Some ((?D j)[i := ?D j ! i + -1])"
          using i int_count_fits [of ?m ?m "\<lambda>e. dst ! e = int (n + i)"] small
            int_count_fits [of "Suc j" ?m "\<lambda>e. dep e = 0 \<and> dst ! e = int (n + i)"] j True
          by (intro add_at_Some) (simp_all add: count_below_Suc)
        moreover have "(?D j)[i := ?D j ! i + -1] = ?D (Suc j)"
          using i True by (intro nth_equalityI) (auto simp: nth_list_update count_below_Suc)
        ultimately show ?thesis using e True dst set i by (simp add: start_edge_def count_below_Suc)
      qed (use e True set in \<open>auto simp: start_edge_def count_below_Suc\<close>)
    qed
  qed
  moreover have "round_order dep ?m 0 0 = replicate ?m INIT" by (simp add: round_order_def map_replicate_const)
  moreover have "?D 0 = round_degree dep dst n r 0" using len by (simp add: round_degree_def)
  moreover have "?D ?m = round_degree dep dst n r 1"
  proof (rule nth_equalityI)
    fix i assume "i < length (?D ?m)"
    then show "?D ?m ! i = round_degree dep dst n r 1 ! i"
      using len count_below_degree [of 0 dep "\<lambda>e. dst ! e = int (n + i)" ?m] by (simp add: round_degree_def)
  qed (simp add: round_degree_def)
  moreover have "round_order dep ?m 0 ?m = round_order dep ?m 1 0" by (simp add: round_order_def)
  ultimately show ?thesis by simp
qed

text \<open>A round takes the edges of one more level.\<close>

lemma edge_round_run:
  assumes E: "edge_depths n r src dst dep" and k: "0 < k"
  shows "for_range 0 (int (length src)) (visit_edge src dst (int n) (int k))
      (\<lparr>es_order = round_order dep (length src) k 0, es_degree = round_degree dep dst n r k,
         es_processed = int (count_below (\<lambda>e. dep e < k) (length src))\<rparr>, replicate r 0)
    = Some (\<lparr>es_order = round_order dep (length src) (Suc k) 0, es_degree = round_degree dep dst n r k,
         es_processed = int (count_below (\<lambda>e. dep e < Suc k) (length src))\<rparr>, round_tmp dep dst n r k (length src))"
proof -
  let ?m = "length src" and ?p = "count_below (\<lambda>e. dep e < k) (length src)"
  let ?S = "\<lambda>j. (\<lparr>es_order = round_order dep ?m k j, es_degree = round_degree dep dst n r k,
    es_processed = int (?p + count_below (\<lambda>e. dep e = k) j)\<rparr>, round_tmp dep dst n r k j)"
  have "for_range 0 (int ?m) (visit_edge src dst (int n) (int k)) (?S 0) = Some (?S ?m)"
    using visit_edge_run [OF E k] by (intro for_range_nat_eq) blast
  moreover have "round_tmp dep dst n r k 0 = replicate r 0" by (simp add: round_tmp_def map_replicate_const)
  moreover have "round_order dep ?m k ?m = round_order dep ?m (Suc k) 0" by (auto simp: round_order_def)
  moreover have "?p + count_below (\<lambda>e. dep e = k) ?m = count_below (\<lambda>e. dep e < Suc k) ?m"
    by (rule count_below_split [symmetric]) auto
  ultimately show ?thesis by simp
qed

lemma subtract_run:
  assumes "length dst < 2 ^ 31"
  shows "for_range 0 (int r) (\<lambda>i in_degree. do {
          t \<leftarrow> vec_at (round_tmp dep dst n r k (length dst)) i; add_at in_degree i (- t) }) (round_degree dep dst n r k)
    = Some (round_degree dep dst n r (Suc k))"
proof -
  let ?a = "\<lambda>k. round_degree dep dst n r k" and ?t = "round_tmp dep dst n r k (length dst)"
  let ?S = "\<lambda>j. take j (?a (Suc k)) @ drop j (?a k)"
  have len: "length (?a k) = r" "length ?t = r" for k by (simp_all add: round_degree_def round_tmp_def)
  have "for_range 0 (int r) (\<lambda>i in_degree. do { t \<leftarrow> vec_at ?t i; add_at in_degree i (- t) }) (?S 0) = Some (?S r)"
  proof (rule for_range_nat_eq)
    fix j assume j: "j < r"
    have at: "vec_at ?t (int j) = Some (?t ! j)" using j len by (simp add: vec_at_nat)
    have sub: "?a k ! j - ?t ! j = ?a (Suc k) ! j"
      using j count_below_degree [of k dep "\<lambda>e. dst ! e = int (n + j)"] by (simp add: round_degree_def round_tmp_def)
    have nth: "?S j ! j = ?a k ! j" "length (?S j) = r" using j len by (simp_all add: nth_append)
    have "0 \<le> ?a (Suc k) ! j" "?a (Suc k) ! j < 2 ^ 31"
      using j int_count_fits [of "length dst" "length dst"] assms by (simp_all add: round_degree_def)
    then have "add_at (?S j) (int j) (- (?t ! j)) = Some ((?S j)[j := ?a (Suc k) ! j])"
      using add_at_Some [of j "?S j" "- (?t ! j)"] nth sub j by (simp del: length_append length_take length_drop)
    moreover have "(?S j)[j := ?a (Suc k) ! j] = ?S (Suc j)"
      using j len by (intro nth_equalityI) (auto simp: nth_append nth_list_update less_Suc_eq min_def)
    ultimately show "(do { t \<leftarrow> vec_at ?t (int j); add_at (?S j) (int j) (- t) }) = Some (?S (Suc j))"
      using at by simp
  qed
  then show ?thesis using len by simp
qed

lemma edge_levels_pos: "0 < edge_levels dep m"
proof -
  have "1 \<le> foldr max xs (1 :: nat)" for xs by (induction xs) auto
  then show ?thesis by (simp add: edge_levels_def Suc_le_eq)
qed

lemma edge_levels_le_iff: "edge_levels dep m \<le> k \<longleftrightarrow> 0 < k \<and> (\<forall>i<m. dep i < k)"
proof -
  have "foldr max xs (1 :: nat) \<le> k \<longleftrightarrow> 0 < k \<and> (\<forall>x\<in>set xs. x \<le> k)" for xs by (induction xs) auto
  then show ?thesis by (auto simp: edge_levels_def less_eq_Suc_le)
qed

lemma edge_rounds_run:
  assumes E: "edge_depths n r src dst dep" and k: "0 < k" "k \<le> edge_levels dep (length src)"
  shows "edge_rounds src dst (int n) (int r) (int k) \<lparr>es_order = round_order dep (length src) k 0,
      es_degree = round_degree dep dst n r k, es_processed = int (count_below (\<lambda>e. dep e < k) (length src))\<rparr>
    = Some (map (\<lambda>e. int (dep e)) [0..<length src], int (edge_levels dep (length src)))"
  using k
proof (induction "edge_levels dep (length src) - k" arbitrary: k)
  case 0
  then have k: "k = edge_levels dep (length src)" by simp
  then have all: "dep i < k" if "i < length src" for i using edge_levels_le_iff [of dep "length src" k] that by simp
  then have "count_below (\<lambda>e. dep e < k) (length src) = length src" by (rule count_below_all)
  moreover have "round_order dep (length src) k 0 = map (\<lambda>e. int (dep e)) [0..<length src]"
    using all by (simp add: round_order_def)
  ultimately show ?case using k by (subst edge_rounds.simps) simp
next
  case (Suc d)
  have len: "length dst = length src" and small: "length src < 2 ^ 31" and below: "dep i < 100000" if "i < length src" for i
    using E that by (auto simp: edge_depths_def)
  have lt: "k < edge_levels dep (length src)" using Suc.hyps(2) by simp
  then obtain i where i: "i < length src" "\<not> dep i < k"
    using edge_levels_le_iff [of dep "length src" k] Suc.prems by auto
  then have "count_below (\<lambda>e. dep e < k) (length src) < length src" by (intro count_below_lt)
  moreover have "int k + 1 < 2 ^ 31" using below [OF i(1)] i by simp
  moreover have "Suc k \<le> edge_levels dep (length src)" "d = edge_levels dep (length src) - Suc k" using lt Suc.hyps(2) by auto
  ultimately show ?case
    using edge_round_run [OF E Suc.prems(1)] subtract_run [of dst r dep n k] Suc.hyps(1) [of "Suc k"] len [OF i(1)] small [OF i(1)]
    by (subst edge_rounds.simps) (simp add: add.commute [of 1])
qed

lemma gen_edge_order_run:
  assumes "edge_depths n r src dst dep"
  shows "gen_edge_order src dst (int n) (int r) = Some (map (\<lambda>e. int (dep e)) [0..<length src], int (edge_levels dep (length src)))"
proof -
  have "1 \<le> edge_levels dep (length src)" using edge_levels_pos by (simp add: Suc_le_eq)
  then show ?thesis
    using all_uses_run [OF assms] start_edges_run [OF assms] edge_rounds_run [OF assms, of 1] assms
    by (simp add: gen_edge_order_def edge_depths_def)
qed

text \<open>The depth of the source of an edge, from the compressed graph the edges make up.\<close>

lemma set_coo_graph_row:
  assumes "length dst = length src" "w < n"
  shows "x \<in> set (coo_graph n src dst ! w) \<longleftrightarrow> (\<exists>e<length src. src ! e = int w \<and> dst ! e = x)"
  using assms by (force simp: coo_graph_def coo_row_def set_zip image_iff)

definition sound_edges :: "nat \<Rightarrow> nat \<Rightarrow> int list \<Rightarrow> int list \<Rightarrow> bool" where
  "sound_edges n r src dst \<longleftrightarrow> 0 < n \<and> length dst = length src \<and> length src < 2 ^ 31 \<and>
     list_all (\<lambda>x. 0 \<le> x \<and> x < int (n + r)) (src @ dst) \<and>
     sound_rules n (coo_graph (n + r) src dst) \<and> levels 0 (coo_graph (n + r) src dst) n < 100000"

lemma sound_edge_depths:
  assumes S: "sound_edges n r src dst"
  shows "edge_depths n r src dst (\<lambda>e. depth 0 (coo_graph (n + r) src dst) n (nat (src ! e)))"
proof -
  define g where "g = coo_graph (n + r) src dst"
  have len: "length g = n + r" "length dst = length src" using S by (auto simp: g_def sound_edges_def)
  have wf: "wf_grammar g (int n)" and used: "\<And>x. n \<le> x \<Longrightarrow> x < n + r \<Longrightarrow> users 0 g x \<noteq> {}"
    and lev: "levels 0 g n < 100000"
    using S len by (auto simp: sound_edges_def sound_rules_def users_def simp flip: g_def)
  show ?thesis unfolding edge_depths_def g_def [symmetric]
  proof (intro conjI allI impI)
    fix e assume e: "e < length src"
    define x where "x = nat (src ! e)"
    have r: "0 \<le> src ! e" "src ! e < int (n + r)" "0 \<le> dst ! e" "dst ! e < int (n + r)"
      using S e len by (auto simp: sound_edges_def list_all_iff)
    have x: "src ! e = int x" "x < n + r" using r by (auto simp: x_def)
    show "0 \<le> src ! e" "src ! e < int (n + r)" "0 \<le> dst ! e" "dst ! e < int (n + r)" by (fact r)+
    show "depth 0 g n (nat (src ! e)) < 100000"
      using depth_less_levels [of 0 x g n] lev len x by simp
    show "(src ! e < int n) = (depth 0 g n (nat (src ! e)) = 0)"
      using x depth_pos_iff [OF wf, of x 0] used [of x] by (cases "x < n") auto
    fix k assume "int n \<le> src ! e"
    then have nx: "n \<le> x" using x by simp
    have "(\<forall>w\<in>users 0 g x. depth 0 g n w < k) \<longleftrightarrow> (\<forall>e'<length src. dst ! e' = int x \<longrightarrow> depth 0 g n (nat (src ! e')) < k)"
    proof (intro iffI ballI allI impI)
      fix e' assume H: "\<forall>w\<in>users 0 g x. depth 0 g n w < k" and e': "e' < length src" "dst ! e' = int x"
      have "0 \<le> src ! e'" "src ! e' < int (n + r)" using S e' by (auto simp: sound_edges_def list_all_iff)
      then have "nat (src ! e') \<in> users 0 g x"
        using e' len set_coo_graph_row [of dst src "nat (src ! e')" "n + r" "int x"] by (auto simp: users_def g_def nat_less_iff)
      then show "depth 0 g n (nat (src ! e')) < k" using H by blast
    next
      fix w assume H: "\<forall>e'<length src. dst ! e' = int x \<longrightarrow> depth 0 g n (nat (src ! e')) < k" and w: "w \<in> users 0 g x"
      then obtain e' where "e' < length src" "src ! e' = int w" "dst ! e' = int x"
        using len set_coo_graph_row [of dst src w "n + r" "int x"] by (auto simp: users_def g_def)
      then show "depth 0 g n w < k" using H by auto
    qed
    then show "(depth 0 g n (nat (src ! e)) \<le> k) = (\<forall>e'<length src. dst ! e' = src ! e \<longrightarrow> depth 0 g n (nat (src ! e')) < k)"
      using depth_le_iff [OF wf nx, of 0 k] x by simp
  qed (use S in \<open>auto simp: sound_edges_def\<close>)
qed

text \<open>No rule is empty, so that the edges reach every level.\<close>

lemma sound_edge_levels:
  assumes S: "sound_edges n r src dst"
  shows "edge_levels (\<lambda>e. depth 0 (coo_graph (n + r) src dst) n (nat (src ! e))) (length src)
    = levels 0 (coo_graph (n + r) src dst) n"
proof -
  define g where "g = coo_graph (n + r) src dst"
  have len: "length g = n + r" "length dst = length src" and n: "0 < n" using S by (auto simp: g_def sound_edges_def)
  let ?dep = "\<lambda>e. depth 0 g n (nat (src ! e))"
  have "edge_levels ?dep (length src) \<le> levels 0 g n"
    unfolding edge_levels_le_iff
  proof (intro conjI allI impI)
    show "0 < levels 0 g n" using depth_less_levels [of 0 0 g n] n len by simp
    fix e assume "e < length src"
    then have "0 \<le> src ! e" "src ! e < int (n + r)" using S by (auto simp: sound_edges_def list_all_iff)
    then show "?dep e < levels 0 g n" using len by (intro depth_less_levels) auto
  qed
  moreover have "levels 0 g n \<le> edge_levels ?dep (length src)"
    unfolding levels_def
  proof (rule foldr_max_least)
    fix y assume "y \<in> set (map (\<lambda>x. Suc (depth 0 g n x)) [0..<length g])"
    then obtain x where x: "x < n + r" "y = Suc (depth 0 g n x)" using len by auto
    show "y \<le> edge_levels ?dep (length src)"
    proof (cases "x < n")
      case True
      then show ?thesis using x edge_levels_pos [of ?dep "length src"] by simp
    next
      case False
      then have "g ! x \<noteq> []" using S x len by (auto simp: sound_edges_def sound_rules_def simp flip: g_def)
      then obtain e where "e < length src" "src ! e = int x"
        using len x set_coo_graph_row [of dst src x "n + r" "hd (g ! x)"] hd_in_set by (auto simp: g_def)
      then show ?thesis using x edge_levels_le_iff [of ?dep "length src" "edge_levels ?dep (length src)"] by auto
    qed
  qed
  ultimately show ?thesis by (simp add: g_def)
qed

lemma gen_edge_order_sound:
  assumes "sound_edges n r src dst"
  shows "gen_edge_order src dst (int n) (int r) =
    Some (map (\<lambda>s. int (depth 0 (coo_graph (n + r) src dst) n (nat s))) src, int (levels 0 (coo_graph (n + r) src dst) n))"
proof -
  have "map (\<lambda>e. f (src ! e)) [0..<length src] = map f src" for f :: "int \<Rightarrow> int"
    by (intro nth_equalityI) auto
  then show ?thesis
    using gen_edge_order_run [OF sound_edge_depths [OF assms]] sound_edge_levels [OF assms] by simp
qed

text \<open>
  Property C14. \<open>gen_edge_order\<close> and \<open>gen_mask_edge\<close> terminate on the edges of a sound compressed
  graph.  The order of an edge is the depth of its source, the longest chain of uses that leads
  to it, and row \<open>d\<close> of the mask marks exactly the edges of depth \<open>d\<close>.
\<close>

theorem gen_mask_edge_depth:
  assumes S: "sound_edges n r src dst" and fits: "length src * levels 0 (coo_graph (n + r) src dst) n < 2 ^ 31"
  shows "gen_edge_order src dst (int n) (int r) =
      Some (map (\<lambda>s. int (depth 0 (coo_graph (n + r) src dst) n (nat s))) src, int (levels 0 (coo_graph (n + r) src dst) n)) \<and>
    (\<exists>mask. gen_mask_edge junk src dst (int n) (int r) = Some (mask, int (levels 0 (coo_graph (n + r) src dst) n)) \<and>
      (\<forall>d<levels 0 (coo_graph (n + r) src dst) n. \<forall>e<length src.
         mask ! (d * length src + e) \<longleftrightarrow> depth 0 (coo_graph (n + r) src dst) n (nat (src ! e)) = d))"
proof -
  let ?g = "coo_graph (n + r) src dst"
  let ?L = "levels 0 ?g n" and ?o = "map (\<lambda>s. int (depth 0 ?g n (nat s))) src"
  have "int (length src * ?L) < 2 ^ 31" "int (length src) < 2 ^ 31"
    using fits S by (simp_all only: of_nat_less_numeral_power_cancel_iff sound_edges_def)
  moreover from this have "fill_mask junk ?o (int (length src)) (int ?L) = Some (concat (map (\<lambda>d. map (\<lambda>x. x = int d) ?o) [0..<?L]))"
    by (intro fill_mask_run) simp_all
  ultimately show ?thesis
    using mask_at [of _ ?L _ ?o] gen_edge_order_sound [OF S] by (simp add: gen_mask_edge_def)
qed

theorem gen_mask_edge_depth_witness:
  "gen_edge_order [0, 0, 1, 1, 2, 2, 3, 3] [3, 1, 2, 3, 0, 1, 2, 0] 2 2 = Some ([0, 0, 0, 0, 2, 2, 1, 1], 3)"
proof -
  let ?src = "[0, 0, 1, 1, 2, 2, 3, 3] :: int list" and ?dst = "[3, 1, 2, 3, 0, 1, 2, 0] :: int list"
  let ?g = "coo_graph (2 + 2) ?src ?dst"
  have "sound_rules 2 ?g" by code_simp
  moreover have "levels 0 ?g 2 = 3" "map (\<lambda>s. int (depth 0 ?g 2 (nat s))) ?src = [0, 0, 0, 0, 2, 2, 1, 1]" by code_simp+
  ultimately show ?thesis
    using gen_mask_edge_depth [of 2 2 ?src ?dst] by (simp add: sound_edges_def)
qed

end
