(* ===== verification/Depth_Filter.thy ===== *)
theory Depth_Filter
  imports Masks
begin

text \<open>
  The depth filter, \<open>compress_op/depth_filter.h\<close>: from the deepest level up to \<open>max_depth\<close>, every
  level of rules with fewer than \<open>min_edge\<close> edges is merged into the rows that use it.
\<close>

subsection \<open>The code\<close>

text \<open>What the loops update: \<open>graph\<close>, \<open>graphT\<close> and \<open>flag\<close>.\<close>

record depth_state =
  ds_graph :: graph
  ds_graphT :: graph
  ds_flag :: "bool list"

definition mergeRule_rows :: "int \<Rightarrow> graph \<Rightarrow> graph \<Rightarrow> int \<Rightarrow> (graph \<times> graph) option" where
  "mergeRule_rows rule_id graph graphT vertex_cnt = do {
     let ID = rule_id + vertex_cnt;
     users \<leftarrow> vec_at graphT ID;
     graph \<leftarrow> for_each (splice_row ID) users graph;
     row \<leftarrow> vec_at graph ID;
     graphT \<leftarrow> for_each (splice_row ID) row graphT;
     Some (graph, graphT)
   }"

text \<open>The body of the loop that merges the rules of level \<open>m_depth\<close>.\<close>

definition depth_step :: "int \<times> int list \<times> int \<Rightarrow> int \<Rightarrow> depth_state \<Rightarrow> depth_state option" where
  "depth_step c r st = (case c of (vertex_cnt, depth_ptr, m_depth) \<Rightarrow> do {
     d \<leftarrow> vec_at depth_ptr (r + vertex_cnt);
     if d = m_depth then do {
       (graph, graphT) \<leftarrow> mergeRule_rows r (ds_graph st) (ds_graphT st) vertex_cnt;
       flag \<leftarrow> vec_set (ds_flag st) r True;
       Some \<lparr>ds_graph = graph, ds_graphT = graphT, ds_flag = flag\<rparr>
     } else Some st
   })"

definition row_degrees :: "graph \<Rightarrow> int \<Rightarrow> int \<Rightarrow> int list \<Rightarrow> int list option" where
  "row_degrees graph vertex_cnt rule_cnt degree =
     for_range vertex_cnt (vertex_cnt + rule_cnt) (\<lambda>i degree. do {
       row \<leftarrow> vec_at graph i;
       vec_set degree (i - vertex_cnt) (to_i32 (int (length row)))
     }) degree"

text \<open>
  The level sizes: at first over all rules, with \<open>flag\<close> all false, and after a level was
  merged over those that are left.
\<close>

definition count_levels :: "int list \<Rightarrow> bool list \<Rightarrow> int list \<Rightarrow> int \<Rightarrow> int \<Rightarrow> int list \<Rightarrow> int list option" where
  "count_levels depth_ptr flag degree vertex_cnt rule_cnt depth_count =
     for_range 0 rule_cnt (\<lambda>i depth_count. do {
       d \<leftarrow> vec_at depth_ptr (i + vertex_cnt);
       f \<leftarrow> vec_at flag i;
       k \<leftarrow> (if f = True then Some 0 else vec_at degree i);
       old \<leftarrow> vec_at depth_count d;
       new \<leftarrow> i32_arith (old + k);
       vec_set depth_count d new
     }) depth_count"

function depth_loop ::
  "int list \<Rightarrow> int \<Rightarrow> int \<Rightarrow> int \<Rightarrow> int \<Rightarrow> int list \<Rightarrow> int list \<Rightarrow> int \<Rightarrow> depth_state \<Rightarrow> depth_state option" where
  "depth_loop depth_ptr max_depth min_edge vertex_cnt rule_cnt degree depth_count m_depth st =
     (if m_depth \<ge> max_depth then do {
        c \<leftarrow> vec_at depth_count m_depth;
        if c \<ge> min_edge then
          depth_loop depth_ptr max_depth min_edge vertex_cnt rule_cnt degree depth_count (m_depth - 1) st
        else do {
          st \<leftarrow> for_range 0 rule_cnt (depth_step (vertex_cnt, depth_ptr, m_depth)) st;
          degree \<leftarrow> row_degrees (ds_graph st) vertex_cnt rule_cnt degree;
          depth_count \<leftarrow> for_range 0 (m_depth - 1 + 1) (\<lambda>i depth_count. vec_set depth_count i 0) depth_count;
          depth_count \<leftarrow> count_levels depth_ptr (ds_flag st) degree vertex_cnt rule_cnt depth_count;
          depth_loop depth_ptr max_depth min_edge vertex_cnt rule_cnt degree depth_count (m_depth - 1) st
        }
      } else Some st)"
  by pat_completeness auto
termination
  by (relation "measure (\<lambda>(depth_ptr, max_depth, min_edge, vertex_cnt, rule_cnt, degree, depth_count, m_depth, st).
    nat (m_depth - max_depth + 1))") auto

declare depth_loop.simps [simp del]

definition depth_filter ::
  "depth_state \<Rightarrow> int list \<Rightarrow> int \<Rightarrow> int \<Rightarrow> int \<Rightarrow> int \<Rightarrow> int \<Rightarrow> depth_state option" where
  "depth_filter st depth_ptr m_depth max_depth min_edge vertex_cnt rule_cnt = do {
     degree \<leftarrow> row_degrees (ds_graph st) vertex_cnt rule_cnt (replicate (nat rule_cnt) 0);
     depth_count \<leftarrow> count_levels depth_ptr (replicate (nat rule_cnt) False) degree vertex_cnt rule_cnt
       (replicate (nat (m_depth + 1)) 0);
     depth_loop depth_ptr max_depth min_edge vertex_cnt rule_cnt degree depth_count m_depth st
   }"

definition depth_filter_csr ::
  "int list \<Rightarrow> int list \<Rightarrow> int \<Rightarrow> int \<Rightarrow> int \<Rightarrow> int \<Rightarrow> (int list \<times> int list \<times> int \<times> int) option" where
  "depth_filter_csr vlist elist vertex_cnt rule_cnt max_depth min_edge = do {
     graph \<leftarrow> csr_convert (replicate (nat (vertex_cnt + rule_cnt)) []) vlist elist (vertex_cnt + rule_cnt);
     graphT \<leftarrow> csr_convert_idx (replicate (nat (vertex_cnt + rule_cnt)) []) vlist elist (vertex_cnt + rule_cnt);
     (depth, m_depth) \<leftarrow> gen_vertex_order_csr vlist elist vertex_cnt rule_cnt;
     st \<leftarrow> depth_filter \<lparr>ds_graph = graph, ds_graphT = graphT, ds_flag = replicate (nat rule_cnt) False\<rparr>
       depth m_depth max_depth min_edge vertex_cnt rule_cnt;
     (newRuleId, newRule_cnt) \<leftarrow> genNewIdForRule (replicate (nat rule_cnt) 0) (ds_flag st) vertex_cnt rule_cnt;
     (new_vlist, new_elist) \<leftarrow> genNewGraphCSR [] [] (ds_graph st) newRuleId (ds_flag st) vertex_cnt;
     Some (map to_i32 new_vlist, map to_i32 new_elist, vertex_cnt, newRule_cnt)
   }"

subsection \<open>Merging a level\<close>

text \<open>
  The rules of the levels \<open>L\<close>, all deeper than \<open>m\<close>, are merged, and of level \<open>m\<close> those
  among the first \<open>j\<close>.
\<close>

definition level_rules :: "nat \<Rightarrow> graph \<Rightarrow> int list \<Rightarrow> int set \<Rightarrow> nat set" where
  "level_rules n g order L = {x. n \<le> x \<and> x < length g \<and> order ! x \<in> L}"

definition depth_aux ::
  "(int \<times> int list \<times> int) \<times> int set \<Rightarrow> nat \<Rightarrow> nat \<Rightarrow> graph \<Rightarrow> nat set \<Rightarrow> depth_state \<Rightarrow> bool" where
  "depth_aux c n j g0 D st \<longleftrightarrow> (case c of ((v, order, m), L) \<Rightarrow> v = int n \<and> length order = length g0 \<and>
     length g0 = n + length (ds_flag st) \<and> flags_merged n D (ds_flag st) \<and> L \<subseteq> {m<..} \<and>
     D = level_rules n g0 order L \<union> (level_rules n g0 order {m} \<inter> {..<n + j}))"

definition depth_picks :: "(int \<times> int list \<times> int) \<times> int set \<Rightarrow> nat \<Rightarrow> depth_state \<Rightarrow> bool" where
  "depth_picks c j st \<longleftrightarrow> (case c of ((v, order, m), L) \<Rightarrow> order ! (nat v + j) = m)"

lemma depth_auxE:
  assumes "depth_aux c n j g0 D st"
  obtains order m L where "c = ((int n, order, m), L)" "length order = length g0" "length g0 = n + length (ds_flag st)"
    "flags_merged n D (ds_flag st)" "L \<subseteq> {m<..}"
    "D = level_rules n g0 order L \<union> (level_rules n g0 order {m} \<inter> {..<n + j})"
  using assms by (auto simp: depth_aux_def split: prod.splits)

lemma mergeRule_rows_run:
  assumes M: "merged_away n g0 g t D" and j: "n + j < length g0" "n + j \<notin> D"
  shows "mergeRule_rows (int j) g t (int n) = Some (inline_rule (n + j) g t, inline_rule (n + j) t g)"
proof -
  note len = merged_awayD(2,9) [OF M]
  have "vec_at t (int j + int n) = Some (t ! (n + j))" "vec_at (inline_rule (n + j) g t) (int j + int n) = Some (g ! (n + j))"
    using j len splice_users(3) [OF M, of "n + j"] by (simp_all add: vec_simps add.commute)
  moreover have "int j + int n = int (n + j)" by simp
  ultimately show ?thesis
    using splice_users(1,2) [OF M, of "n + j"] j len by (simp add: mergeRule_rows_def Let_def add.commute [of "int j"])
qed

lemma depth_merges:
  assumes M: "merged_away n g0 (ds_graph s) (ds_graphT s) D" and aux: "depth_aux c n j g0 D s"
    and j: "n + j < length g0" and pick: "depth_picks c j s"
  shows "n + j \<notin> D \<and> (\<exists>s'. depth_step (fst c) (int j) s = Some s' \<and>
    ds_graph s' = inline_rule (n + j) (ds_graph s) (ds_graphT s) \<and>
    ds_graphT s' = inline_rule (n + j) (ds_graphT s) (ds_graph s) \<and>
    depth_aux c n (Suc j) g0 (insert (n + j) D) s')"
proof -
  obtain order m L where c: "c = ((int n, order, m), L)" and len: "length order = length g0" "length g0 = n + length (ds_flag s)"
    and F: "flags_merged n D (ds_flag s)" and L: "L \<subseteq> {m<..}"
      "D = level_rules n g0 order L \<union> (level_rules n g0 order {m} \<inter> {..<n + j})"
    by (rule depth_auxE [OF aux])
  have ord: "order ! (n + j) = m" using pick by (simp add: c depth_picks_def)
  have D: "n + j \<notin> D" using L ord by (auto simp: level_rules_def)
  let ?s = "\<lparr>ds_graph = inline_rule (n + j) (ds_graph s) (ds_graphT s),
    ds_graphT = inline_rule (n + j) (ds_graphT s) (ds_graph s), ds_flag = (ds_flag s)[j := True]\<rparr>"
  have "depth_step (fst c) (int j) s = Some ?s"
    using mergeRule_rows_run [OF M j D] ord len j by (simp add: depth_step_def c vec_simps add.commute)
  moreover have "flags_merged n (insert (n + j) D) ((ds_flag s)[j := True])"
    using F j len by (auto simp: flags_merged_def nth_list_update)
  moreover have "insert (n + j) D = level_rules n g0 order L \<union> (level_rules n g0 order {m} \<inter> {..<n + Suc j})"
    using L(2) ord j by (auto simp: level_rules_def less_Suc_eq)
  ultimately show ?thesis using D len L(1) by (auto simp: depth_aux_def c)
qed

lemma depth_skips:
  assumes M: "merged_away n g0 (ds_graph s) (ds_graphT s) D" and aux: "depth_aux c n j g0 D s"
    and j: "n + j < length g0" and pick: "\<not> depth_picks c j s"
  shows "\<exists>s'. depth_step (fst c) (int j) s = Some s' \<and> ds_graph s' = ds_graph s \<and> ds_graphT s' = ds_graphT s \<and>
    depth_aux c n (Suc j) g0 D s'"
proof -
  obtain order m L where c: "c = ((int n, order, m), L)" and len: "length order = length g0" "length g0 = n + length (ds_flag s)"
    and F: "flags_merged n D (ds_flag s)" and L: "L \<subseteq> {m<..}"
      "D = level_rules n g0 order L \<union> (level_rules n g0 order {m} \<inter> {..<n + j})"
    by (rule depth_auxE [OF aux])
  have ord: "order ! (n + j) \<noteq> m" using pick by (simp add: c depth_picks_def)
  have "D = level_rules n g0 order L \<union> (level_rules n g0 order {m} \<inter> {..<n + Suc j})"
    using L(2) ord by (auto simp: level_rules_def less_Suc_eq)
  then have "depth_aux c n (Suc j) g0 D s" using len L(1) F by (auto simp: depth_aux_def c)
  moreover have "depth_step (fst c) (int j) s = Some s"
    using ord len j by (simp add: depth_step_def c vec_simps add.commute)
  ultimately show ?thesis by blast
qed

interpretation levelling: rule_merger ds_graph ds_graphT "\<lambda>c. depth_step (fst c)" depth_picks depth_aux
  by unfold_locales (use depth_merges depth_skips in blast)+

lemma merge_level:
  assumes M: "merged_away n g0 (ds_graph st) (ds_graphT st) (level_rules n g0 order L)" and sound: "sound_rules n g0"
    and L: "L \<subseteq> {m<..}" and F: "flags_merged n (level_rules n g0 order L) (ds_flag st)"
    and len: "length order = length g0" "length g0 = n + r" "length (ds_flag st) = r"
  shows "\<exists>st'. for_range 0 (int r) (depth_step (int n, order, m)) st = Some st' \<and> length (ds_flag st') = r \<and>
    merged_away n g0 (ds_graph st') (ds_graphT st') (level_rules n g0 order (insert m L)) \<and>
    flags_merged n (level_rules n g0 order (insert m L)) (ds_flag st')"
proof -
  have "depth_aux ((int n, order, m), L) n 0 g0 (level_rules n g0 order L) st"
    using L F len by (auto simp: depth_aux_def level_rules_def)
  then obtain st' D where st': "for_range 0 (int r) (depth_step (int n, order, m)) st = Some st'"
    "merged_away n g0 (ds_graph st') (ds_graphT st') D" "depth_aux ((int n, order, m), L) n r g0 D st'"
    using levelling.pass [OF M sound _ len(2), of "((int n, order, m), L)"] by auto
  moreover from this have "D = level_rules n g0 order (insert m L)"
    using len by (auto simp: depth_aux_def level_rules_def)
  ultimately show ?thesis using len by (auto simp: depth_aux_def)
qed

subsection \<open>Counting\<close>

lemma row_degrees_run:
  assumes "length g = n + r" "length degree = r" "\<And>w. w < length g \<Longrightarrow> length (g ! w) < 2 ^ 31"
  shows "row_degrees g (int n) (int r) degree = Some (map (\<lambda>i. int (length (g ! (n + i)))) [0..<r])"
proof -
  let ?S = "\<lambda>w. map (\<lambda>i. int (length (g ! (n + i)))) [0..<w - n] @ drop (w - n) degree"
  have "for_range (int n) (int (n + r)) (\<lambda>i degree. do {
       row \<leftarrow> vec_at g i;
       vec_set degree (i - int n) (to_i32 (int (length row))) }) (?S n) = Some (?S (n + r))"
  proof (rule for_range_from_eq)
    fix w assume "n \<le> w" "w < n + r"
    then obtain j where j: "w = n + j" "j < r" using le_Suc_ex by fastforce
    have "int (length (g ! (n + j))) < 2 ^ 31"
      using assms(1,3) j by (simp only: of_nat_less_numeral_power_cancel_iff)
    then have "to_i32 (int (length (g ! (n + j)))) = int (length (g ! (n + j)))" by (intro to_i32_id) linarith+
    moreover have "drop j degree = degree ! j # drop (Suc j) degree" using j assms by (simp add: Cons_nth_drop_Suc)
    ultimately show "(do { row \<leftarrow> vec_at g (int w);
        vec_set (?S w) (int w - int n) (to_i32 (int (length row))) }) = Some (?S (Suc w))"
      using j assms by (simp add: vec_simps list_update_append Suc_diff_le)
  qed simp
  then show ?thesis using assms by (simp add: row_degrees_def)
qed

text \<open>Every level size stays between 0 and a bound.\<close>

definition counts_within :: "nat \<Rightarrow> int \<Rightarrow> int list \<Rightarrow> bool" where
  "counts_within m B dc \<longleftrightarrow> length dc = m \<and> (\<forall>i<m. 0 \<le> dc ! i \<and> dc ! i \<le> B)"

lemma count_levels_run:
  assumes dc: "counts_within m B dc" and len: "length order = n + r" "length flag = r" "length degree = r"
    and order: "\<And>i. i < r \<Longrightarrow> 0 \<le> order ! (n + i) \<and> order ! (n + i) < int m"
    and degree: "\<And>i. i < r \<Longrightarrow> 0 \<le> degree ! i" and fits: "B + sum_list degree < 2 ^ 31"
  shows "\<exists>dc'. count_levels order flag degree (int n) (int r) dc = Some dc' \<and> counts_within m (B + sum_list degree) dc'"
proof -
  have "\<exists>dc'. count_levels order flag degree (int n) (int r) dc = Some dc' \<and> counts_within m (B + sum_list (take r degree)) dc'"
    unfolding count_levels_def
  proof (rule for_range_nat_rule)
    show "counts_within m (B + sum_list (take 0 degree)) dc" using dc by simp
    fix j dc assume j: "j < r" and I: "counts_within m (B + sum_list (take j degree)) dc"
    have take: "sum_list (take (Suc j) degree) = sum_list (take j degree) + degree ! j"
      using j len by (simp add: take_Suc_conv_app_nth)
    have "sum_list (take (Suc j) degree) + sum_list (drop (Suc j) degree) = sum_list degree"
      by (metis append_take_drop_id sum_list_append)
    moreover have "0 \<le> sum_list (drop (Suc j) degree)"
      using degree len by (intro sum_list_nonneg) (auto simp: in_set_conv_nth)
    ultimately have le: "B + sum_list (take (Suc j) degree) < 2 ^ 31" using fits by linarith
    define d where "d = nat (order ! (n + j))"
    have d: "order ! (n + j) = int d" "d < m" using order [OF j] by (auto simp: d_def)
    define k where "k = (if flag ! j then 0 else degree ! j)"
    have k: "0 \<le> k" "k \<le> degree ! j" using degree [OF j] by (auto simp: k_def)
    have dcd: "0 \<le> dc ! d" "dc ! d \<le> B + sum_list (take j degree)" "length dc = m" using I d by (auto simp: counts_within_def)
    have "i32_arith (dc ! d + k) = Some (dc ! d + k)"
      using dcd k le take by (intro i32_arith_Some) linarith+
    then have "(do { d \<leftarrow> vec_at order (int j + int n); f \<leftarrow> vec_at flag (int j);
        k \<leftarrow> (if f = True then Some 0 else vec_at degree (int j)); old \<leftarrow> vec_at dc d;
        new \<leftarrow> i32_arith (old + k); vec_set dc d new }) = Some (dc[d := dc ! d + k])"
      using j len d dcd by (auto simp: vec_simps add.commute k_def)
    moreover have "counts_within m (B + sum_list (take (Suc j) degree)) (dc[d := dc ! d + k])"
      unfolding counts_within_def
    proof (intro conjI allI impI)
      fix i assume "i < m"
      then have "0 \<le> dc ! i" "dc ! i \<le> B + sum_list (take j degree)" using I by (auto simp: counts_within_def)
      then show "0 \<le> dc[d := dc ! d + k] ! i" "dc[d := dc ! d + k] ! i \<le> B + sum_list (take (Suc j) degree)"
        using k take dcd d(2) by (auto simp: nth_list_update)
    qed (use dcd in simp)
    ultimately show "\<exists>dc'. (do { d \<leftarrow> vec_at order (int j + int n); f \<leftarrow> vec_at flag (int j);
        k \<leftarrow> (if f = True then Some 0 else vec_at degree (int j)); old \<leftarrow> vec_at dc d;
        new \<leftarrow> i32_arith (old + k); vec_set dc d new }) = Some dc' \<and> counts_within m (B + sum_list (take (Suc j) degree)) dc'"
      by blast
  qed
  then show ?thesis using len by simp
qed

lemma reset_levels:
  assumes "counts_within m B dc" "k \<le> int m"
  shows "\<exists>dc'. for_range 0 k (\<lambda>i dc. vec_set dc i 0) dc = Some dc' \<and> counts_within m B dc'"
proof -
  have "\<exists>dc'. for_range 0 (int (nat k)) (\<lambda>i dc. vec_set dc i 0) dc = Some dc' \<and> counts_within m B dc'"
  proof (rule for_range_nat_rule)
    fix j dc assume "j < nat k" and I: "counts_within m B dc"
    then have j: "j < m" using assms(2) by linarith
    moreover have "0 \<le> B" using I j by (auto simp: counts_within_def intro: order_trans)
    ultimately show "\<exists>dc'. vec_set dc (int j) 0 = Some dc' \<and> counts_within m B dc'"
      using I by (auto simp: counts_within_def vec_simps nth_list_update)
  qed (rule assms)
  then show ?thesis by (cases "0 \<le> k") (auto simp: for_range_done)
qed

lemma merged_degrees:
  assumes M: "merged_away n g0 g t D" and sound: "sound_rules n g0" and len: "length g = n + r"
  shows "sum_list (map (\<lambda>i. int (length (g ! (n + i)))) [0..<r]) \<le> int (total_expansion n g0)"
    and "w < length g \<Longrightarrow> length (g ! w) \<le> total_expansion n g0"
proof -
  have "(\<Sum>i<r. length (g ! (n + i))) \<le> (\<Sum>w<n + r. length (g ! w))"
    by (induction r) auto
  then have "(\<Sum>i<r. length (g ! (n + i))) \<le> total_expansion n g0"
    using merged_total_length [OF M sound] len by simp
  moreover have "sum_list (map (\<lambda>i. int (length (g ! (n + i)))) [0..<r]) = int (\<Sum>i<r. length (g ! (n + i)))"
    by (simp add: interv_sum_list_conv_sum_set_nat atLeast0LessThan)
  ultimately show "sum_list (map (\<lambda>i. int (length (g ! (n + i)))) [0..<r]) \<le> int (total_expansion n g0)"
    by (metis of_nat_le_iff)
  show "length (g ! w) \<le> total_expansion n g0" if "w < length g"
    using member_le_sum [of w "{..<length g}" "\<lambda>w. length (g ! w)"] that merged_total_length [OF M sound] by simp
qed

subsection \<open>The filter\<close>

lemma depth_loop_run:
  assumes sound: "sound_rules n g0" and len: "length order = length g0" "length g0 = n + r"
    and order: "\<And>i. i < r \<Longrightarrow> 0 \<le> order ! (n + i) \<and> order ! (n + i) < int k"
    and max: "0 \<le> max_depth" and T: "int (total_expansion n g0) = T"
    and M: "merged_away n g0 (ds_graph st) (ds_graphT st) (level_rules n g0 order L)"
    and F: "flags_merged n (level_rules n g0 order L) (ds_flag st)" "length (ds_flag st) = r"
    and L: "L \<subseteq> {m<..}" "L \<subseteq> {max_depth..}" and m: "m < int k" "length degree = r"
    and dc: "counts_within k B dc" "B + (m + 1) * T < 2 ^ 31" "T < 2 ^ 31"
  shows "\<exists>st' L'. depth_loop order max_depth min_edge (int n) (int r) degree dc m st = Some st' \<and>
    L' \<subseteq> {max_depth..} \<and> length (ds_flag st') = r \<and>
    merged_away n g0 (ds_graph st') (ds_graphT st') (level_rules n g0 order L') \<and>
    flags_merged n (level_rules n g0 order L') (ds_flag st')"
  using M F L m dc
proof (induction "nat (m - max_depth + 1)" arbitrary: st L m degree dc B rule: less_induct)
  case less
  show ?case
  proof (cases "m \<ge> max_depth")
    case False
    then show ?thesis using less.prems by (subst depth_loop.simps) auto
  next
    case True
    have at: "vec_at dc m = Some (dc ! nat m)" using True max less.prems(6,8) by (simp add: vec_at_def counts_within_def)
    have mes: "nat (m - 1 - max_depth + 1) < nat (m - max_depth + 1)" using True by simp
    have T0: "0 \<le> T" using T by auto
    have split: "(m + 1) * T = m * T + T" by (simp add: distrib_right)
    show ?thesis
    proof (cases "dc ! nat m \<ge> min_edge")
      case skip: True
      have "L \<subseteq> {m - 1<..}" using less.prems(4) by auto
      then show ?thesis
        using less.hyps [OF mes less.prems(1-3) _ less.prems(5) _ less.prems(7,8)] less.prems(6,9,10) split T0 at True skip
        by (subst depth_loop.simps) simp
    next
      case False
      obtain st' where st': "for_range 0 (int r) (depth_step (int n, order, m)) st = Some st'" "length (ds_flag st') = r"
        "merged_away n g0 (ds_graph st') (ds_graphT st') (level_rules n g0 order (insert m L))"
        "flags_merged n (level_rules n g0 order (insert m L)) (ds_flag st')"
        using merge_level [OF less.prems(1) sound less.prems(4,2) len less.prems(3)] by auto
      have lg: "length (ds_graph st') = n + r" using merged_awayD(2) [OF st'(3)] len by simp
      note degs = merged_degrees [OF st'(3) sound lg]
      have "length (ds_graph st' ! w) < 2 ^ 31" if "w < length (ds_graph st')" for w
        using degs(2) [OF that] T less.prems(10) by (meson le_less_trans of_nat_less_numeral_power_cancel_iff)
      then have deg: "row_degrees (ds_graph st') (int n) (int r) degree = Some (map (\<lambda>i. int (length (ds_graph st' ! (n + i)))) [0..<r])"
        using row_degrees_run [OF lg less.prems(7)] by blast
      let ?deg = "map (\<lambda>i. int (length (ds_graph st' ! (n + i)))) [0..<r]"
      obtain dc1 where dc1: "for_range 0 (m - 1 + 1) (\<lambda>i dc. vec_set dc i 0) dc = Some dc1" "counts_within k B dc1"
        using reset_levels [OF less.prems(8), of "m - 1 + 1"] less.prems(6) by auto
      have mT: "0 \<le> m * T" using True max T0 by simp
      have "B + sum_list ?deg < 2 ^ 31" using degs(1) less.prems(9) split mT T by linarith
      then obtain dc2 where dc2: "count_levels order (ds_flag st') ?deg (int n) (int r) dc1 = Some dc2"
        "counts_within k (B + sum_list ?deg) dc2"
        using count_levels_run [OF dc1(2), of order n r "ds_flag st'" ?deg] order len st'(2) by auto
      have "B + sum_list ?deg + m * T < 2 ^ 31" using degs(1) less.prems(9) split T by linarith
      moreover have "insert m L \<subseteq> {m - 1<..}" "insert m L \<subseteq> {max_depth..}" using less.prems(4,5) True by auto
      ultimately show ?thesis
        using less.hyps [OF mes st'(3,4,2) _ _ _ _ dc2(2)] less.prems(6,10) at True False st'(1) deg dc1(1) dc2(1)
        by (subst depth_loop.simps) simp
    qed
  qed
qed

lemma kept_index_card: "kept_index keep k = card {x. x < k \<and> keep x}"
  using distinct_card [of "filter keep [0..<k]"] by (simp add: kept_index_def conj_commute)

text \<open>Sizes within the range of the \<open>int\<close> counters.\<close>

definition depth_sizes :: "nat \<Rightarrow> graph \<Rightarrow> bool" where
  "depth_sizes n g \<longleftrightarrow> length g < 2 ^ 31 \<and> levels 0 g n < 100000 \<and> length (concat g) < 2 ^ 31 \<and>
     (levels 0 g n + 2) * total_expansion n g < 2 ^ 31"

lemma depth_filter_run:
  assumes sound: "sound_rules n g0" and sizes: "depth_sizes n g0" and len: "length g0 = n + r" and max: "0 \<le> max_depth"
    and order: "order = map (\<lambda>x. int (depth 0 g0 n x)) [0..<n + r]"
  shows "\<exists>st' L. depth_filter \<lparr>ds_graph = g0, ds_graphT = transposed g0, ds_flag = replicate r False\<rparr>
      order (int (levels 0 g0 n)) max_depth min_edge (int n) (int r) = Some st' \<and>
    L \<subseteq> {max_depth..} \<and> length (ds_flag st') = r \<and>
    merged_away n g0 (ds_graph st') (ds_graphT st') (level_rules n g0 order L) \<and>
    flags_merged n (level_rules n g0 order L) (ds_flag st')"
proof -
  define T where "T = int (total_expansion n g0)"
  define lv where "lv = levels 0 g0 n"
  have "int ((lv + 2) * total_expansion n g0) < 2 ^ 31"
    using sizes by (simp only: depth_sizes_def lv_def of_nat_less_numeral_power_cancel_iff)
  then have fits: "T + (int lv + 1) * T < 2 ^ 31" by (simp add: T_def algebra_simps)
  have T0: "0 \<le> T" "0 \<le> (int lv + 1) * T" by (simp_all add: T_def)
  have ord: "0 \<le> order ! (n + i) \<and> order ! (n + i) < int (lv + 1)" if "i < r" for i
    using that len depth_less_levels [of 0 "n + i" g0 n] by (simp add: order lv_def)
  let ?st = "\<lparr>ds_graph = g0, ds_graphT = transposed g0, ds_flag = replicate r False\<rparr>"
  let ?deg = "map (\<lambda>i. int (length (g0 ! (n + i)))) [0..<r]"
  note start = merged_away_start [OF sound]
  note degs = merged_degrees [OF start sound len, folded T_def]
  have "int (length (g0 ! w)) < 2 ^ 31" if "w < length g0" for w
    using degs(2) [OF that] fits T0 unfolding T_def by linarith
  then have deg: "row_degrees g0 (int n) (int r) (replicate r 0) = Some ?deg"
    using row_degrees_run [OF len, of "replicate r 0"] by (simp only: of_nat_less_numeral_power_cancel_iff length_replicate)
  have sum: "0 + sum_list ?deg < 2 ^ 31" "T < 2 ^ 31" using degs(1) fits T0 by linarith+
  have "counts_within (lv + 1) 0 (replicate (lv + 1) 0)" by (simp add: counts_within_def del: replicate_Suc)
  then obtain dc where dc: "count_levels order (replicate r False) ?deg (int n) (int r) (replicate (lv + 1) 0) = Some dc"
    "counts_within (lv + 1) (0 + sum_list ?deg) dc"
    using count_levels_run [of "lv + 1" 0 "replicate (lv + 1) 0" order n r "replicate r False" ?deg] ord sum
    by (auto simp: order)
  have M: "merged_away n g0 (ds_graph ?st) (ds_graphT ?st) (level_rules n g0 order {})"
    using start by (simp add: level_rules_def)
  have "\<exists>st' L. depth_loop order max_depth min_edge (int n) (int r) ?deg dc (int lv) ?st = Some st' \<and>
    L \<subseteq> {max_depth..} \<and> length (ds_flag st') = r \<and>
    merged_away n g0 (ds_graph st') (ds_graphT st') (level_rules n g0 order L) \<and>
    flags_merged n (level_rules n g0 order L) (ds_flag st')"
    using degs(1) sum fits T0 len
    by (intro depth_loop_run [OF sound _ len ord max T_def [symmetric] M _ _ _ _ _ _ dc(2)])
      (auto simp: flags_merged_def level_rules_def order)
  moreover have "nat (int lv + 1) = lv + 1" by simp
  ultimately show ?thesis using deg dc(1) by (simp add: depth_filter_def lv_def)
qed



end
