(* ===== verification/Splice.thy ===== *)
theory Splice
  imports Csr
begin

text \<open>
  Taking part of a weighted graph, \<open>compress_op/splice.h\<close> and \<open>compress_op/get_part_graph_info.h\<close>.
  The rows marked in \<open>index\<close> are kept, with or without renumbering the rows and the columns.
  Weights are only copied, so their type is left open.
\<close>

subsection \<open>The code\<close>

text \<open>The local variables of the four functions: each uses those it declares.\<close>

record 'w splice_state =
  sp_vlist :: "int list"
  sp_elist :: "int list"
  sp_weight :: "'w list"
  sp_esize :: int
  sp_rows :: "int list"
  sp_map :: "int \<rightharpoonup> int"
  sp_cols :: "int list"
  sp_maxID :: int

definition splice_init :: "'w splice_state" where
  "splice_init = \<lparr>sp_vlist = [0], sp_elist = [], sp_weight = [], sp_esize = 0, sp_rows = [],
     sp_map = Map.empty, sp_cols = [], sp_maxID = 0\<rparr>"

text \<open>A row of edges, each pushed with its weight by \<open>push\<close>.\<close>

definition copy_edges ::
  "(int \<Rightarrow> 'w \<Rightarrow> 'w splice_state \<Rightarrow> 'w splice_state option) \<Rightarrow> int list \<Rightarrow> int list \<Rightarrow> 'w list \<Rightarrow> int \<Rightarrow>
    'w splice_state \<Rightarrow> 'w splice_state option" where
  "copy_edges push vlist elist weight vid st = do {
     start \<leftarrow> vec_at vlist vid;
     end \<leftarrow> vec_at vlist (vid + 1);
     for_range start end (\<lambda>eid st. do {
       dst \<leftarrow> vec_at elist eid;
       w \<leftarrow> vec_at weight eid;
       push dst w st
     }) st
   }"

definition push_edge :: "int \<Rightarrow> 'w \<Rightarrow> 'w splice_state \<Rightarrow> 'w splice_state option" where
  "push_edge dst w st =
     Some (st\<lparr>sp_elist := sp_elist st @ [dst], sp_weight := sp_weight st @ [w], sp_esize := sp_esize st + 1\<rparr>)"

text \<open>With renumbered columns: a destination seen for the first time gets the next number.\<close>

definition push_renamed :: "int \<Rightarrow> 'w \<Rightarrow> 'w splice_state \<Rightarrow> 'w splice_state option" where
  "push_renamed dst w st = do {
     let st = (if sp_map st dst = None
       then st\<lparr>sp_map := (sp_map st)(dst \<mapsto> sp_maxID st), sp_maxID := sp_maxID st + 1, sp_cols := sp_cols st @ [dst]\<rparr>
       else st);
     new \<leftarrow> sp_map st dst;
     push_edge new w st
   }"

definition close_row :: "'w splice_state \<Rightarrow> 'w splice_state option" where
  "close_row st = Some (st\<lparr>sp_vlist := sp_vlist st @ [sp_esize st]\<rparr>)"

definition splice_csr ::
  "int list \<Rightarrow> int list \<Rightarrow> 'w list \<Rightarrow> bool list \<Rightarrow> (int list \<times> int list \<times> 'w list) option" where
  "splice_csr vlist elist weight index = do {
     st \<leftarrow> for_range 0 (int (length vlist) - 1) (\<lambda>vid st. do {
       active \<leftarrow> vec_at index vid;
       if active = False then close_row st
       else do { st \<leftarrow> copy_edges push_edge vlist elist weight vid st; close_row st }
     }) splice_init;
     Some (sp_vlist st, sp_elist st, sp_weight st)
   }"

definition splice_csr_condense_row ::
  "int list \<Rightarrow> int list \<Rightarrow> 'w list \<Rightarrow> bool list \<Rightarrow> (int list \<times> int list \<times> 'w list \<times> int list) option" where
  "splice_csr_condense_row vlist elist weight index = do {
     st \<leftarrow> for_range 0 (int (length vlist) - 1) (\<lambda>vid st. do {
       active \<leftarrow> vec_at index vid;
       if active = True then do {
         st \<leftarrow> copy_edges push_edge vlist elist weight vid (st\<lparr>sp_rows := sp_rows st @ [vid]\<rparr>);
         close_row st
       } else Some st
     }) splice_init;
     Some (sp_vlist st, sp_elist st, sp_weight st, sp_rows st)
   }"

definition splice_csr_condense_col ::
  "int list \<Rightarrow> int list \<Rightarrow> 'w list \<Rightarrow> bool list \<Rightarrow> (int list \<times> int list \<times> 'w list \<times> int list) option" where
  "splice_csr_condense_col vlist elist weight index = do {
     st \<leftarrow> for_range 0 (int (length vlist) - 1) (\<lambda>vid st. do {
       active \<leftarrow> vec_at index vid;
       if active = True then do { st \<leftarrow> copy_edges push_renamed vlist elist weight vid st; close_row st }
       else close_row st
     }) splice_init;
     Some (sp_vlist st, sp_elist st, sp_weight st, sp_cols st)
   }"

definition splice_csr_condense_row_and_col ::
  "int list \<Rightarrow> int list \<Rightarrow> 'w list \<Rightarrow> bool list \<Rightarrow> (int list \<times> int list \<times> 'w list \<times> int list \<times> int list) option" where
  "splice_csr_condense_row_and_col vlist elist weight index = do {
     st \<leftarrow> for_range 0 (int (length vlist) - 1) (\<lambda>vid st. do {
       active \<leftarrow> vec_at index vid;
       if active = True then do {
         st \<leftarrow> copy_edges push_renamed vlist elist weight vid (st\<lparr>sp_rows := sp_rows st @ [vid]\<rparr>);
         close_row st
       } else Some st
     }) splice_init;
     Some (sp_vlist st, sp_elist st, sp_weight st, sp_rows st, sp_cols st)
   }"

text \<open>The unordered set \<open>col_set\<close> is the list of its members.\<close>

definition get_active_row_and_col :: "int list \<Rightarrow> int list \<Rightarrow> bool list \<Rightarrow> (int \<times> int) option" where
  "get_active_row_and_col vlist elist index = do {
     (active_row, active_col, col_set) \<leftarrow> for_range 0 (int (length vlist) - 1) (\<lambda>vid (active_row, active_col, col_set). do {
       active \<leftarrow> vec_at index vid;
       if active = True then do {
         start \<leftarrow> vec_at vlist vid;
         end \<leftarrow> vec_at vlist (vid + 1);
         (active_col, col_set) \<leftarrow> for_range start end (\<lambda>eid st. do {
           dst \<leftarrow> vec_at elist eid;
           (case st of (active_col, col_set) \<Rightarrow>
             Some (if dst \<notin> set col_set then (active_col + 1, dst # col_set) else (active_col, col_set)))
         }) (active_col, col_set);
         Some (active_row + 1, active_col, col_set)
       } else Some (active_row, active_col, col_set)
     }) (0, 0, []);
     Some (active_row, active_col)
   }"

text \<open>The reduction adds up the local degrees; the order of the summands does not matter.\<close>

definition get_out_degree :: "int list \<Rightarrow> int list \<Rightarrow> int list \<Rightarrow> int option" where
  "get_out_degree vlist elist row_map =
     for_range 0 (int (length row_map)) (\<lambda>row degree. do {
       vid \<leftarrow> vec_at row_map row;
       start \<leftarrow> vec_at vlist vid;
       end \<leftarrow> vec_at vlist (vid + 1);
       Some (degree + (end - start))
     }) 0"

subsection \<open>The rows that are copied\<close>

text \<open>The edges of a row with their weights.\<close>

definition weighted_row :: "int list \<Rightarrow> int list \<Rightarrow> 'w list \<Rightarrow> nat \<Rightarrow> (int \<times> 'w) list" where
  "weighted_row vlist elist weight v = slice (nat (vlist ! v)) (nat (vlist ! Suc v)) (zip elist weight)"

lemma weighted_row_fst: "length weight = length elist \<Longrightarrow> map fst (weighted_row vlist elist weight v) = csr_row vlist elist v"
  by (simp add: weighted_row_def csr_row_def slice_def take_map [symmetric] drop_map [symmetric])

lemma copy_edges_run:
  assumes wf: "wf_csr n vlist elist" and v: "v < n" and len: "length weight = length elist"
  shows "copy_edges push vlist elist weight (int v) st = for_each (\<lambda>(x, w). push x w) (weighted_row vlist elist weight v) st"
proof -
  have at: "vec_at vlist (int v) = Some (int (nat (vlist ! v)))" "vec_at vlist (int v + 1) = Some (int (nat (vlist ! Suc v)))"
    "nat (vlist ! v) \<le> nat (vlist ! Suc v)" "nat (vlist ! Suc v) \<le> length elist"
    using wf_csr_at [OF wf, of "int v"] v by auto
  have zip: "(do { x \<leftarrow> vec_at elist e; w \<leftarrow> vec_at weight e; push x w s })
      = (do { p \<leftarrow> vec_at (zip elist weight) e; (case p of (x, w) \<Rightarrow> push x w) s })" for e s
    using len by (auto simp: vec_at_def)
  show ?thesis
    using for_range_slice [of "nat (vlist ! v)" "nat (vlist ! Suc v)" "zip elist weight" "\<lambda>(x, w). push x w" st] at len
    by (simp add: copy_edges_def weighted_row_def zip)
qed

text \<open>The rows \<open>gs\<close> were copied to the output so far, and the rows \<open>rs\<close> were active.\<close>

definition copied :: "(int \<times> 'w) list list \<Rightarrow> int list \<Rightarrow> 'w splice_state \<Rightarrow> bool" where
  "copied gs rs st \<longleftrightarrow> sp_vlist st = offsets (map (map fst) gs) \<and> sp_weight st = map snd (concat gs) \<and>
     sp_esize st = int (length (concat gs)) \<and> sp_rows st = rs"

text \<open>
  The interface of the two ways to push an edge: \<open>holds st xs\<close> tells that the edge array stands for
  the destinations \<open>xs\<close>.
\<close>

locale edge_push =
  fixes push :: "int \<Rightarrow> 'w \<Rightarrow> 'w splice_state \<Rightarrow> 'w splice_state option"
    and holds :: "'w splice_state \<Rightarrow> int list \<Rightarrow> bool"
  assumes holds_init: "holds splice_init []"
    and holds_frame: "holds (st\<lparr>sp_vlist := vs\<rparr>) xs = holds st xs" "holds (st\<lparr>sp_rows := rs\<rparr>) xs = holds st xs"
    and push_ok: "holds st xs \<Longrightarrow> \<exists>st'. push x w st = Some st' \<and> holds st' (xs @ [x]) \<and> sp_vlist st' = sp_vlist st \<and>
      sp_rows st' = sp_rows st \<and> sp_weight st' = sp_weight st @ [w] \<and> sp_esize st' = sp_esize st + 1"
begin

lemma pushes:
  assumes "holds st xs"
  shows "\<exists>st'. for_each (\<lambda>(x, w). push x w) ps st = Some st' \<and> holds st' (xs @ map fst ps) \<and> sp_vlist st' = sp_vlist st \<and>
    sp_rows st' = sp_rows st \<and> sp_weight st' = sp_weight st @ map snd ps \<and> sp_esize st' = sp_esize st + int (length ps)"
  using assms
proof (induction ps arbitrary: st xs)
  case (Cons p ps)
  obtain x w where p: "p = (x, w)" by force
  obtain st1 where st1: "push x w st = Some st1" "holds st1 (xs @ [x])" "sp_vlist st1 = sp_vlist st"
    "sp_rows st1 = sp_rows st" "sp_weight st1 = sp_weight st @ [w]" "sp_esize st1 = sp_esize st + 1"
    using push_ok [OF Cons.prems] by blast
  from Cons.IH [OF st1(2)] show ?case using st1 by (auto simp: p)
qed simp

lemma row_pushed:
  assumes "wf_csr n vlist elist" "v < n" "length weight = length elist" and C: "copied gs rs st" "holds st (map fst (concat gs))"
  shows "\<exists>st'. do { st \<leftarrow> copy_edges push vlist elist weight (int v) (st\<lparr>sp_rows := rs'\<rparr>); close_row st } = Some st' \<and>
    copied (gs @ [weighted_row vlist elist weight v]) rs' st' \<and>
    holds st' (map fst (concat (gs @ [weighted_row vlist elist weight v])))"
proof -
  have "holds (st\<lparr>sp_rows := rs'\<rparr>) (map fst (concat gs))" using C(2) by (simp add: holds_frame)
  then obtain st1 where "for_each (\<lambda>(x, w). push x w) (weighted_row vlist elist weight v) (st\<lparr>sp_rows := rs'\<rparr>) = Some st1"
    "holds st1 (map fst (concat gs) @ map fst (weighted_row vlist elist weight v))" "sp_vlist st1 = sp_vlist st" "sp_rows st1 = rs'"
    "sp_weight st1 = sp_weight st @ map snd (weighted_row vlist elist weight v)"
    "sp_esize st1 = sp_esize st + int (length (weighted_row vlist elist weight v))"
    using pushes by fastforce
  then show ?thesis
    using copy_edges_run [OF assms(1-3), of push "st\<lparr>sp_rows := rs'\<rparr>"] C
    by (auto simp: close_row_def holds_frame copied_def offsets_snoc map_concat [symmetric] length_concat comp_def)
qed

lemma kept_rows:
  assumes wf: "wf_csr n vlist elist" and len: "length weight = length elist" "length index = n"
  shows "\<exists>st. for_range 0 (int n) (\<lambda>vid st. do {
       active \<leftarrow> vec_at index vid;
       if active then do { st \<leftarrow> copy_edges push vlist elist weight vid st; close_row st } else close_row st
     }) splice_init = Some st \<and>
    copied (map (\<lambda>v. if index ! v then weighted_row vlist elist weight v else []) [0..<n]) [] st \<and>
    holds st (map fst (concat (map (\<lambda>v. if index ! v then weighted_row vlist elist weight v else []) [0..<n])))"
proof -
  let ?g = "\<lambda>j. map (\<lambda>v. if index ! v then weighted_row vlist elist weight v else []) [0..<j]"
  show ?thesis
  proof (rule for_range_nat_rule [where I = "\<lambda>j st. copied (?g j) [] st \<and> holds st (map fst (concat (?g j)))"])
    show "copied (?g 0) [] (splice_init :: 'w splice_state) \<and> holds splice_init (map fst (concat (?g 0)))"
      using holds_init by (simp add: copied_def splice_init_def)
    fix j st assume j: "j < n" and I: "copied (?g j) [] st \<and> holds st (map fst (concat (?g j)))"
    have st: "st\<lparr>sp_rows := []\<rparr> = st" using I by (cases st) (simp add: copied_def)
    have close: "close_row st = Some (st\<lparr>sp_vlist := sp_vlist st @ [sp_esize st]\<rparr>)" by (simp add: close_row_def)
    have "copied (?g j @ [[]]) [] (st\<lparr>sp_vlist := sp_vlist st @ [sp_esize st]\<rparr>)"
      using I by (simp add: copied_def offsets_snoc length_concat comp_def)
    then show "\<exists>st'. (do { active \<leftarrow> vec_at index (int j);
        if active then do { st \<leftarrow> copy_edges push vlist elist weight (int j) st; close_row st } else close_row st }) = Some st' \<and>
      (copied (?g (Suc j)) [] st' \<and> holds st' (map fst (concat (?g (Suc j)))))"
      using row_pushed [OF wf j len(1), of "?g j" "[]" st "[]"] I j len(2)
      by (cases "index ! j") (auto simp: vec_at_nat st close holds_frame)
  qed
qed

lemma condensed_rows:
  assumes wf: "wf_csr n vlist elist" and len: "length weight = length elist" "length index = n"
  shows "\<exists>st. for_range 0 (int n) (\<lambda>vid st. do {
       active \<leftarrow> vec_at index vid;
       if active then do {
         st \<leftarrow> copy_edges push vlist elist weight vid (st\<lparr>sp_rows := sp_rows st @ [vid]\<rparr>);
         close_row st
       } else Some st
     }) splice_init = Some st \<and>
    copied (map (weighted_row vlist elist weight) (filter (\<lambda>v. index ! v) [0..<n])) (map int (filter (\<lambda>v. index ! v) [0..<n])) st \<and>
    holds st (map fst (concat (map (weighted_row vlist elist weight) (filter (\<lambda>v. index ! v) [0..<n]))))"
proof -
  let ?r = "\<lambda>j. filter (\<lambda>v. index ! v) [0..<j]"
  let ?g = "\<lambda>j. map (weighted_row vlist elist weight) (?r j)"
  show ?thesis
  proof (rule for_range_nat_rule [where I = "\<lambda>j st. copied (?g j) (map int (?r j)) st \<and> holds st (map fst (concat (?g j)))"])
    show "copied (?g 0) (map int (?r 0)) (splice_init :: 'w splice_state) \<and> holds splice_init (map fst (concat (?g 0)))"
      using holds_init by (simp add: copied_def splice_init_def)
    fix j st assume j: "j < n" and I: "copied (?g j) (map int (?r j)) st \<and> holds st (map fst (concat (?g j)))"
    have "sp_rows st = map int (?r j)" using I by (simp add: copied_def)
    then show "\<exists>st'. (do { active \<leftarrow> vec_at index (int j);
        if active then do { st \<leftarrow> copy_edges push vlist elist weight (int j) (st\<lparr>sp_rows := sp_rows st @ [int j]\<rparr>); close_row st }
        else Some st }) = Some st' \<and>
      (copied (?g (Suc j)) (map int (?r (Suc j))) st' \<and> holds st' (map fst (concat (?g (Suc j)))))"
      using row_pushed [OF wf j len(1), of "?g j" "map int (?r j)" st "map int (?r j) @ [int j]"] I j len(2)
      by (cases "index ! j") (auto simp: vec_at_nat)
  qed
qed

end

interpretation plain: edge_push push_edge "\<lambda>st xs. sp_elist st = xs"
  by unfold_locales (auto simp: push_edge_def splice_init_def)

text \<open>
  With renumbered columns the edge array holds indices into \<open>active_vertex\<close>, which lists every
  destination once, in the order of their first occurrences.
\<close>

definition renamed :: "'w splice_state \<Rightarrow> int list \<Rightarrow> bool" where
  "renamed st xs \<longleftrightarrow> distinct (sp_cols st) \<and> set (sp_cols st) = set xs \<and> sp_maxID st = int (length (sp_cols st)) \<and>
     dom (sp_map st) = set xs \<and> (\<forall>i<length (sp_cols st). sp_map st (sp_cols st ! i) = Some (int i)) \<and>
     (\<forall>y\<in>set (sp_elist st). 0 \<le> y \<and> y < int (length (sp_cols st))) \<and>
     map (\<lambda>y. sp_cols st ! nat y) (sp_elist st) = xs"

lemma renamed_push:
  assumes R: "renamed st xs"
  shows "\<exists>st'. push_renamed x w st = Some st' \<and> renamed st' (xs @ [x]) \<and> sp_vlist st' = sp_vlist st \<and>
      sp_rows st' = sp_rows st \<and> sp_weight st' = sp_weight st @ [w] \<and> sp_esize st' = sp_esize st + 1"
proof (cases "x \<in> set xs")
  case True
  then have "x \<in> set (sp_cols st)" using R unfolding renamed_def by blast
  then obtain i where i: "i < length (sp_cols st)" "sp_cols st ! i = x" by (auto simp: in_set_conv_nth)
  then have "sp_map st x = Some (int i)" using R by (auto simp: renamed_def)
  then show ?thesis using R i True by (auto simp: push_renamed_def push_edge_def renamed_def)
next
  case False
  then have none: "sp_map st x = None" "x \<notin> set (sp_cols st)" using R by (auto simp: renamed_def)
  let ?st = "st\<lparr>sp_map := (sp_map st)(x \<mapsto> sp_maxID st), sp_maxID := sp_maxID st + 1, sp_cols := sp_cols st @ [x],
    sp_elist := sp_elist st @ [sp_maxID st], sp_weight := sp_weight st @ [w], sp_esize := sp_esize st + 1\<rparr>"
  have "map (\<lambda>y. (sp_cols st @ [x]) ! nat y) (sp_elist st) = map (\<lambda>y. sp_cols st ! nat y) (sp_elist st)"
    using R by (intro map_cong refl) (auto simp: renamed_def nth_append nat_less_iff)
  then have "renamed ?st (xs @ [x])"
    using R none by (auto simp: renamed_def nth_append less_Suc_eq nth_eq_iff_index_eq)
  moreover have "push_renamed x w st = Some ?st" using none by (simp add: push_renamed_def push_edge_def)
  ultimately show ?thesis by auto
qed

interpretation condensing: edge_push push_renamed renamed
proof unfold_locales
  show "\<exists>st'. push_renamed x w st = Some st' \<and> renamed st' (xs @ [x]) \<and> sp_vlist st' = sp_vlist st \<and>
      sp_rows st' = sp_rows st \<and> sp_weight st' = sp_weight st @ [w] \<and> sp_esize st' = sp_esize st + 1"
    if "renamed st xs" for st :: "'w splice_state" and xs x w
    using that by (rule renamed_push)
qed (auto simp: renamed_def splice_init_def)

subsection \<open>The spliced graphs\<close>

text \<open>What the four functions need of their arguments.\<close>

definition splice_args :: "nat \<Rightarrow> int list \<Rightarrow> int list \<Rightarrow> 'w list \<Rightarrow> bool list \<Rightarrow> bool" where
  "splice_args n vlist elist weight index \<longleftrightarrow> length vlist = Suc n \<and> wf_csr n vlist elist \<and>
     length weight = length elist \<and> length index = n"

definition kept :: "nat \<Rightarrow> int list \<Rightarrow> int list \<Rightarrow> 'w list \<Rightarrow> bool list \<Rightarrow> (int \<times> 'w) list list" where
  "kept n vlist elist weight index = map (\<lambda>v. if index ! v then weighted_row vlist elist weight v else []) [0..<n]"

definition condensed :: "nat \<Rightarrow> int list \<Rightarrow> int list \<Rightarrow> 'w list \<Rightarrow> bool list \<Rightarrow> (int \<times> 'w) list list" where
  "condensed n vlist elist weight index = map (weighted_row vlist elist weight) (filter (\<lambda>v. index ! v) [0..<n])"

definition active_rows :: "nat \<Rightarrow> bool list \<Rightarrow> int list" where
  "active_rows n index = map int (filter (\<lambda>v. index ! v) [0..<n])"

text \<open>The columns \<open>cols\<close> list the destinations \<open>xs\<close> without repetition, and \<open>el\<close> refers to them.\<close>

definition refers_to :: "int list \<Rightarrow> int list \<Rightarrow> int list \<Rightarrow> bool" where
  "refers_to cols el xs \<longleftrightarrow> distinct cols \<and> set cols = set xs \<and> list_all (\<lambda>y. 0 \<le> y \<and> y < int (length cols)) el \<and>
     map (\<lambda>y. cols ! nat y) el = xs"

lemma renamed_refers: "renamed st xs \<Longrightarrow> refers_to (sp_cols st) (sp_elist st) xs"
  by (simp add: renamed_def refers_to_def list_all_iff)

lemma condense_row_and_col_run:
  assumes "splice_args n vlist elist weight index"
  shows "\<exists>el cols. splice_csr_condense_row_and_col vlist elist weight index = Some
      (offsets (map (map fst) (condensed n vlist elist weight index)), el,
       map snd (concat (condensed n vlist elist weight index)), active_rows n index, cols) \<and>
    refers_to cols el (map fst (concat (condensed n vlist elist weight index)))"
proof -
  obtain st where "for_range 0 (int n) (\<lambda>vid st. do {
       active \<leftarrow> vec_at index vid;
       if active then do {
         st \<leftarrow> copy_edges push_renamed vlist elist weight vid (st\<lparr>sp_rows := sp_rows st @ [vid]\<rparr>);
         close_row st
       } else Some st }) splice_init = Some st"
    "copied (condensed n vlist elist weight index) (active_rows n index) st"
    "renamed st (map fst (concat (condensed n vlist elist weight index)))"
    using condensing.condensed_rows [of n vlist elist weight index] assms
    by (auto simp: splice_args_def condensed_def active_rows_def)
  then show ?thesis
    using assms renamed_refers [of st] by (auto simp: splice_csr_condense_row_and_col_def splice_args_def copied_def)
qed

text \<open>
  Property C16. The four ways to splice a graph: \<open>splice_csr\<close> empties the rows that are not
  marked, \<open>splice_csr_condense_row\<close> drops them and lists the rows it keeps, and the variants with
  \<open>col\<close> besides renumber the destinations by their place in a list of all that occur, without
  repetition.  Offsets, edges and weights of the results belong together.
\<close>

theorem splice_csr_rows:
  assumes "splice_args n vlist elist weight index"
  shows "splice_csr vlist elist weight index = Some (offsets (map (map fst) (kept n vlist elist weight index)),
      map fst (concat (kept n vlist elist weight index)), map snd (concat (kept n vlist elist weight index))) \<and>
    splice_csr_condense_row vlist elist weight index = Some (offsets (map (map fst) (condensed n vlist elist weight index)),
      map fst (concat (condensed n vlist elist weight index)), map snd (concat (condensed n vlist elist weight index)),
      active_rows n index) \<and>
    (\<exists>el cols. splice_csr_condense_col vlist elist weight index = Some (offsets (map (map fst) (kept n vlist elist weight index)),
        el, map snd (concat (kept n vlist elist weight index)), cols) \<and>
      refers_to cols el (map fst (concat (kept n vlist elist weight index)))) \<and>
    (\<exists>el cols. splice_csr_condense_row_and_col vlist elist weight index =
        Some (offsets (map (map fst) (condensed n vlist elist weight index)), el,
          map snd (concat (condensed n vlist elist weight index)), active_rows n index, cols) \<and>
      refers_to cols el (map fst (concat (condensed n vlist elist weight index))))"
proof (intro conjI)
  have A: "wf_csr n vlist elist" "length weight = length elist" "length index = n" "length vlist = Suc n"
    using assms by (auto simp: splice_args_def)
  have swap: "(if \<not> b then close_row st else X) = (if b then X else close_row st)"
    for b and st :: "'a splice_state" and X by simp
  show "splice_csr vlist elist weight index = Some (offsets (map (map fst) (kept n vlist elist weight index)),
      map fst (concat (kept n vlist elist weight index)), map snd (concat (kept n vlist elist weight index)))"
    using plain.kept_rows [OF A(1-3)] A(4) by (auto simp: splice_csr_def copied_def kept_def swap)
  show "splice_csr_condense_row vlist elist weight index = Some (offsets (map (map fst) (condensed n vlist elist weight index)),
      map fst (concat (condensed n vlist elist weight index)), map snd (concat (condensed n vlist elist weight index)),
      active_rows n index)"
    using plain.condensed_rows [OF A(1-3)] A(4)
    by (auto simp: splice_csr_condense_row_def copied_def condensed_def active_rows_def)
  obtain st where st: "for_range 0 (int n) (\<lambda>vid st. do {
       active \<leftarrow> vec_at index vid;
       if active then do { st \<leftarrow> copy_edges push_renamed vlist elist weight vid st; close_row st } else close_row st
     }) splice_init = Some st" "copied (kept n vlist elist weight index) [] st"
    "renamed st (map fst (concat (kept n vlist elist weight index)))"
    using condensing.kept_rows [OF A(1-3)] unfolding kept_def [symmetric] by blast
  have "splice_csr_condense_col vlist elist weight index = Some (offsets (map (map fst) (kept n vlist elist weight index)),
        sp_elist st, map snd (concat (kept n vlist elist weight index)), sp_cols st)"
    using st A(4) by (simp add: splice_csr_condense_col_def copied_def)
  then show "\<exists>el cols. splice_csr_condense_col vlist elist weight index = Some (offsets (map (map fst) (kept n vlist elist weight index)),
        el, map snd (concat (kept n vlist elist weight index)), cols) \<and>
      refers_to cols el (map fst (concat (kept n vlist elist weight index)))"
    using renamed_refers [OF st(3)] by blast
qed (rule condense_row_and_col_run [OF assms])

theorem splice_csr_rows_witness:
  "splice_csr_condense_row [0, 2, 3, 5] [7, 4, 1, 4, 2] [10, 20, 30, 40, 50 :: int] [True, False, True]
     = Some ([0, 2, 4], [7, 4, 4, 2], [10, 20, 40, 50], [0, 2]) \<and>
   (\<exists>el cols. splice_csr_condense_col [0, 2, 3, 5] [7, 4, 1, 4, 2] [10, 20, 30, 40, 50 :: int] [True, False, True]
     = Some ([0, 2, 2, 4], el, [10, 20, 40, 50], cols) \<and> refers_to cols el [7, 4, 4, 2])"
proof -
  let ?vl = "[0, 2, 3, 5]" and ?el = "[7, 4, 1, 4, 2] :: int list" and ?w = "[10, 20, 30, 40, 50 :: int]" and ?i = "[True, False, True]"
  have "splice_args 3 ?vl ?el ?w ?i" unfolding splice_args_def by code_simp
  moreover have "condensed 3 ?vl ?el ?w ?i = [[(7, 10), (4, 20)], [(4, 40), (2, 50)]]" "active_rows 3 ?i = [0, 2]"
    "kept 3 ?vl ?el ?w ?i = [[(7, 10), (4, 20)], [], [(4, 40), (2, 50)]]"
    "offsets [[7, 4], [4, 2]] = [0, 2, 4]" "offsets [[7, 4], [], [4, 2]] = [0, 2, 2, 4]" by code_simp+
  ultimately show ?thesis using splice_csr_rows [of 3 ?vl ?el ?w ?i] by simp
qed

subsection \<open>Sizes of a part\<close>

lemma count_new_run:
  assumes "distinct cs"
  shows "\<exists>cs'. for_each (\<lambda>dst st. case st of (k, cs) \<Rightarrow> Some (if dst \<notin> set cs then (k + 1, dst # cs) else (k, cs))) xs (k :: int, cs)
      = Some (k + int (length cs') - int (length cs), cs') \<and> distinct cs' \<and> set cs' = set cs \<union> set xs"
  using assms
proof (induction xs arbitrary: k cs)
  case (Cons x xs)
  show ?case
  proof (cases "x \<in> set cs")
    case True
    then show ?thesis using Cons.IH [OF Cons.prems, of k] by (auto simp: insert_absorb)
  next
    case False
    then show ?thesis using Cons.IH [of "x # cs" "k + 1"] Cons.prems by auto
  qed
qed simp

lemma active_row_and_col_run:
  assumes wf: "wf_csr n vlist elist" and len: "length vlist = Suc n" "length index = n"
  shows "get_active_row_and_col vlist elist index = Some (int (length (active_rows n index)),
    int (card (set (concat (map (csr_row vlist elist) (filter (\<lambda>v. index ! v) [0..<n]))))))"
proof -
  let ?r = "\<lambda>j. filter (\<lambda>v. index ! v) [0..<j]"
  let ?X = "\<lambda>j. set (concat (map (csr_row vlist elist) (?r j)))"
  let ?body = "\<lambda>vid (active_row :: int, active_col :: int, col_set). do {
       active \<leftarrow> vec_at index vid;
       if active then do {
         start \<leftarrow> vec_at vlist vid;
         end \<leftarrow> vec_at vlist (vid + 1);
         (active_col, col_set) \<leftarrow> for_range start end (\<lambda>eid st. do {
           dst \<leftarrow> vec_at elist eid;
           (case st of (active_col, col_set) \<Rightarrow>
             Some (if dst \<notin> set col_set then (active_col + 1, dst # col_set) else (active_col, col_set)))
         }) (active_col, col_set);
         Some (active_row + 1, active_col, col_set)
       } else Some (active_row, active_col, col_set) }"
  let ?I = "\<lambda>j (a, c, cs). a = int (length (?r j)) \<and> c = int (length cs) \<and> distinct cs \<and> set cs = ?X j"
  have "\<exists>st. for_range 0 (int n) ?body (0, 0, []) = Some st \<and> ?I n st"
  proof (rule for_range_nat_rule [where I = ?I])
    fix j st assume j: "j < n" and I: "?I j st"
    obtain a c cs where st: "st = (a, c, cs)" by (cases st)
    let ?f = "\<lambda>dst st. case st of (k :: int, cs) \<Rightarrow> Some (if dst \<notin> set cs then (k + 1, dst # cs) else (k, cs))"
    obtain cs' where cs': "for_each ?f (csr_row vlist elist j) (c, cs) = Some (c + int (length cs') - int (length cs), cs')"
      "distinct cs'" "set cs' = set cs \<union> set (csr_row vlist elist j)"
      using count_new_run [of cs "csr_row vlist elist j" c] I st by auto
    then show "\<exists>st'. ?body (int j) st = Some st' \<and> ?I (Suc j) st'"
      using csr_row_loop [OF wf j, of ?f "(c, cs)"] I j len wf_csr_at [OF wf, of "int j"]
      by (cases "index ! j") (auto simp: st vec_at_nat)
  qed simp
  then obtain cs where run: "for_range 0 (int n) ?body (0, 0, []) = Some (int (length (?r n)), int (length cs), cs)"
    and cs: "distinct cs" "set cs = ?X n" by auto
  have "length cs = card (?X n)" using cs distinct_card by metis
  then show ?thesis
    using len run by (simp add: get_active_row_and_col_def active_rows_def)
qed

text \<open>
  Property C17. \<open>get_active_row_and_col\<close> returns the sizes of the part that
  \<open>splice_csr_condense_row_and_col\<close> cuts out: the numbers of its rows and of its columns.
\<close>

theorem active_row_and_col_sizes:
  assumes "splice_args n vlist elist weight index"
  shows "\<exists>vl el ws rows cols. splice_csr_condense_row_and_col vlist elist weight index = Some (vl, el, ws, rows, cols) \<and>
    get_active_row_and_col vlist elist index = Some (int (length rows), int (length cols)) \<and>
    length vl = Suc (length rows)"
proof -
  have A: "wf_csr n vlist elist" "length weight = length elist" "length index = n" "length vlist = Suc n"
    using assms by (auto simp: splice_args_def)
  obtain el cols where run: "splice_csr_condense_row_and_col vlist elist weight index = Some
      (offsets (map (map fst) (condensed n vlist elist weight index)), el,
       map snd (concat (condensed n vlist elist weight index)), active_rows n index, cols)"
    and cols: "refers_to cols el (map fst (concat (condensed n vlist elist weight index)))"
    using condense_row_and_col_run [OF assms] by blast
  have "map fst (concat (condensed n vlist elist weight index)) = concat (map (csr_row vlist elist) (filter (\<lambda>v. index ! v) [0..<n]))"
    using weighted_row_fst [OF A(2), of vlist] by (simp add: condensed_def map_concat comp_def)
  then have "int (card (set (concat (map (csr_row vlist elist) (filter (\<lambda>v. index ! v) [0..<n]))))) = int (length cols)"
    using cols by (metis distinct_card refers_to_def)
  then show ?thesis
    using run active_row_and_col_run [OF A(1,4,3)] by (simp add: condensed_def active_rows_def)
qed

theorem active_row_and_col_sizes_witness:
  "get_active_row_and_col [0, 2, 3, 5] [7, 4, 1, 4, 2] [True, False, True] = Some (2, 3)"
proof -
  let ?vl = "[0, 2, 3, 5]" and ?el = "[7, 4, 1, 4, 2] :: int list" and ?w = "[10, 20, 30, 40, 50 :: int]" and ?i = "[True, False, True]"
  have "splice_args 3 ?vl ?el ?w ?i" unfolding splice_args_def by code_simp
  moreover have "splice_csr_condense_row_and_col ?vl ?el ?w ?i = Some ([0, 2, 4], [0, 1, 1, 2], [10, 20, 40, 50], [0, 2], [7, 4, 2])"
    by code_simp
  ultimately show ?thesis using active_row_and_col_sizes [of 3 ?vl ?el ?w ?i] by simp
qed

lemma get_out_degree_rows:
  assumes wf: "wf_csr n vlist elist" and rows: "\<And>v. v \<in> set row_map \<Longrightarrow> 0 \<le> v \<and> v < int n"
  shows "get_out_degree vlist elist row_map = Some (\<Sum>v\<leftarrow>row_map. int (length (csr_row vlist elist (nat v))))"
proof -
  let ?S = "\<lambda>j. \<Sum>v\<leftarrow>take j row_map. int (length (csr_row vlist elist (nat v)))"
  have "get_out_degree vlist elist row_map = Some (?S (length row_map))"
    unfolding get_out_degree_def
  proof (rule for_range_nat_eq [where S = ?S, simplified])
    fix j assume j: "j < length row_map"
    then have v: "0 \<le> row_map ! j" "row_map ! j < int n" using rows by auto
    have "int (length (csr_row vlist elist (nat (row_map ! j)))) = vlist ! Suc (nat (row_map ! j)) - vlist ! nat (row_map ! j)"
      using length_csr_row [OF wf, of "nat (row_map ! j)"] v by (simp add: nat_less_iff)
    then show "(do { vid \<leftarrow> vec_at row_map (int j); start \<leftarrow> vec_at vlist vid; end \<leftarrow> vec_at vlist (vid + 1);
        Some (?S j + (end - start)) }) = Some (?S (Suc j))"
      using j wf_csr_at [OF wf v] by (simp add: vec_at_nat take_Suc_conv_app_nth)
  qed
  then show ?thesis by simp
qed

end
