(* ===== verification/Norm.thy ===== *)
theory Norm
  imports Csr
begin

text \<open>
  The weights of graph convolution, \<open>compress_op/norm.h\<close>: \<open>1 / sqrt (in-degree)\<close> per vertex, and
  per edge the product of the factors of its two ends, where rules count as 1.  The arithmetic of
  \<open>float\<close> enters as the operations of an arbitrary type: exactly these operations are applied.
\<close>

subsection \<open>The code\<close>

text \<open>
  \<open>eps\<close> is \<open>INF\<close> as a \<open>float\<close>, \<open>inc\<close> is \<open>+= 1\<close> and \<open>inv_sqrt\<close> is \<open>1 / sqrt(x)\<close> on \<open>float\<close>; \<open>junk\<close> is what the
  fresh array holds.
\<close>

definition get_norm_degree ::
  "'f \<Rightarrow> ('f \<Rightarrow> 'f) \<Rightarrow> ('f \<Rightarrow> 'f) \<Rightarrow> 'f \<Rightarrow> int list \<Rightarrow> int \<Rightarrow> 'f list option" where
  "get_norm_degree eps inc inv_sqrt junk dst vertex_cnt = do {
     in_degree \<leftarrow> for_range 0 vertex_cnt (\<lambda>vid in_degree. vec_set in_degree vid eps) (replicate (nat vertex_cnt) junk);
     in_degree \<leftarrow> for_range 0 (int (length dst)) (\<lambda>eid in_degree. do {
       d \<leftarrow> vec_at dst eid;
       x \<leftarrow> vec_at in_degree d;
       vec_set in_degree d (inc x)
     }) in_degree;
     for_range 0 vertex_cnt (\<lambda>vid in_degree. do {
       x \<leftarrow> vec_at in_degree vid;
       vec_set in_degree vid (inv_sqrt x)
     }) in_degree
   }"

text \<open>The loop counter is an \<open>int\<close>, which cannot count \<open>2^31\<close> edges.\<close>

definition gcn_norm_coo :: "'f::times \<Rightarrow> int list \<Rightarrow> int list \<Rightarrow> 'f list \<Rightarrow> int \<Rightarrow> 'f list option" where
  "gcn_norm_coo junk src dst in_degree vertex_cnt =
     (if 2 ^ 31 \<le> length src then None
      else for_range 0 (int (length src)) (\<lambda>i edge_weight. do {
        s \<leftarrow> vec_at src i;
        d \<leftarrow> vec_at dst i;
        a \<leftarrow> vec_at in_degree s;
        b \<leftarrow> vec_at in_degree d;
        vec_set edge_weight i (a * b)
      }) (replicate (length src) junk))"

text \<open>The loops over the rows, run by one thread.\<close>

definition gcn_norm_csr :: "'f::times \<Rightarrow> int list \<Rightarrow> int list \<Rightarrow> 'f list \<Rightarrow> int \<Rightarrow> 'f list option" where
  "gcn_norm_csr junk vlist elist in_degree vertex_cnt =
     for_range 0 vertex_cnt (\<lambda>vid edge_weight. do {
       start \<leftarrow> vec_at vlist vid;
       end \<leftarrow> vec_at vlist (vid + 1);
       for_range start end (\<lambda>eid edge_weight. do {
         dst \<leftarrow> vec_at elist eid;
         a \<leftarrow> vec_at in_degree vid;
         b \<leftarrow> vec_at in_degree dst;
         vec_set edge_weight eid (a * b)
       }) edge_weight
     }) (replicate (length elist) junk)"

text \<open>The four tests on the ends of an edge, each of which may store its weight.\<close>

definition store_weight ::
  "int \<Rightarrow> 'f::{times, one} list \<Rightarrow> int \<Rightarrow> int \<Rightarrow> int \<Rightarrow> 'f list \<Rightarrow> 'f list option" where
  "store_weight vertex_cnt in_degree src_node dst_node eid weight = do {
     weight \<leftarrow> (if src_node < vertex_cnt \<and> dst_node < vertex_cnt then do {
       a \<leftarrow> vec_at in_degree src_node; b \<leftarrow> vec_at in_degree dst_node; vec_set weight eid (a * b) } else Some weight);
     weight \<leftarrow> (if src_node < vertex_cnt \<and> dst_node \<ge> vertex_cnt then do {
       a \<leftarrow> vec_at in_degree src_node; vec_set weight eid a } else Some weight);
     weight \<leftarrow> (if src_node \<ge> vertex_cnt \<and> dst_node < vertex_cnt then do {
       b \<leftarrow> vec_at in_degree dst_node; vec_set weight eid b } else Some weight);
     if src_node \<ge> vertex_cnt \<and> dst_node \<ge> vertex_cnt then vec_set weight eid 1 else Some weight
   }"

definition gcn_norm_coo_compress ::
  "'f::{times, one} \<Rightarrow> int list \<Rightarrow> int list \<Rightarrow> 'f list \<Rightarrow> int \<Rightarrow> int \<Rightarrow> 'f list option" where
  "gcn_norm_coo_compress junk src dst in_degree vertex_cnt rule_cnt =
     for_range 0 (int (length src)) (\<lambda>eid edge_weight. do {
       src_node \<leftarrow> vec_at src eid;
       dst_node \<leftarrow> vec_at dst eid;
       store_weight vertex_cnt in_degree src_node dst_node eid edge_weight
     }) (replicate (length src) junk)"

definition gcn_norm_csr_compress ::
  "'f::{times, one} \<Rightarrow> int list \<Rightarrow> int list \<Rightarrow> 'f list \<Rightarrow> int \<Rightarrow> int \<Rightarrow> 'f list option" where
  "gcn_norm_csr_compress junk vlist elist in_degree vertex_cnt rule_cnt =
     for_range 0 (vertex_cnt + rule_cnt) (\<lambda>vid edge_weight. do {
       start \<leftarrow> vec_at vlist vid;
       end \<leftarrow> vec_at vlist (vid + 1);
       for_range start end (\<lambda>eid edge_weight. do {
         dst \<leftarrow> vec_at elist eid;
         store_weight vertex_cnt in_degree vid dst eid edge_weight
       }) edge_weight
     }) (replicate (length elist) junk)"

text \<open>
  With several threads the iterations of \<open>gcn_norm_coo_compress\<close> share \<open>src_node\<close> and \<open>dst_node\<close>, which
  are declared outside the parallel loop.  An iteration is two loads into them and the tests
  with the store; the threads take their steps in any order.
\<close>

datatype norm_op = Load_src nat | Load_dst nat | Store nat

record 'f norm_shared =
  ns_src :: int
  ns_dst :: int
  ns_weight :: "'f list"

fun exec_op :: "int list \<Rightarrow> int list \<Rightarrow> 'f::{times, one} list \<Rightarrow> int \<Rightarrow> norm_op \<Rightarrow> 'f norm_shared \<Rightarrow> 'f norm_shared option" where
  "exec_op src dst in_degree vertex_cnt (Load_src e) sh = do {
     s \<leftarrow> vec_at src (int e); Some (sh\<lparr>ns_src := s\<rparr>) }"
| "exec_op src dst in_degree vertex_cnt (Load_dst e) sh = do {
     d \<leftarrow> vec_at dst (int e); Some (sh\<lparr>ns_dst := d\<rparr>) }"
| "exec_op src dst in_degree vertex_cnt (Store e) sh = do {
     w \<leftarrow> store_weight vertex_cnt in_degree (ns_src sh) (ns_dst sh) (int e) (ns_weight sh);
     Some (sh\<lparr>ns_weight := w\<rparr>) }"

definition iteration :: "nat \<Rightarrow> norm_op list" where
  "iteration e = [Load_src e, Load_dst e, Store e]"

definition thread_ops :: "nat list \<Rightarrow> norm_op list" where
  "thread_ops es = concat (map iteration es)"

inductive norm_step ::
  "int list \<Rightarrow> int list \<Rightarrow> 'f::{times, one} list \<Rightarrow> int \<Rightarrow>
    norm_op list list \<times> 'f norm_shared \<Rightarrow> norm_op list list \<times> 'f norm_shared \<Rightarrow> bool"
  for src dst in_degree vertex_cnt where
  step: "i < length ts \<Longrightarrow> ts ! i = op # ops \<Longrightarrow> exec_op src dst in_degree vertex_cnt op sh = Some sh' \<Longrightarrow>
    norm_step src dst in_degree vertex_cnt (ts, sh) (ts[i := ops], sh')"

inductive_cases norm_stepE: "norm_step src dst in_degree vertex_cnt (ts, sh) c"

subsection \<open>The factors of the vertices\<close>

lemma for_range_map:
  assumes "\<And>j ys. j < length xs \<Longrightarrow> length ys = length xs \<Longrightarrow> ys ! j = xs ! j \<Longrightarrow> f (int j) ys = Some (ys[j := h (xs ! j)])"
  shows "for_range 0 (int (length xs)) f xs = Some (map h xs)"
proof -
  let ?S = "\<lambda>j. map h (take j xs) @ drop j xs"
  have "for_range 0 (int (length xs)) f (?S 0) = Some (?S (length xs))"
  proof (rule for_range_nat_eq)
    fix j assume j: "j < length xs"
    have "(?S j)[j := h (xs ! j)] = ?S (Suc j)"
      using j by (simp add: take_Suc_conv_app_nth list_update_append Cons_nth_drop_Suc [symmetric])
    then show "f (int j) (?S j) = Some (?S (Suc j))"
      using assms [of j "?S j"] j by (simp add: nth_append)
  qed
  then show ?thesis by simp
qed

text \<open>
  Property C18. \<open>get_norm_degree\<close> gives every vertex \<open>1 / sqrt\<close> of what counting its occurrences as a
  destination, one at a time from \<open>INF\<close> on, makes of it.
\<close>

theorem get_norm_degree_counts:
  assumes "list_all (\<lambda>d. 0 \<le> d \<and> d < int n) dst"
  shows "get_norm_degree eps inc inv_sqrt junk dst (int n) =
    Some (map (\<lambda>v. inv_sqrt ((inc ^^ count_list dst (int v)) eps)) [0..<n])"
proof -
  have "for_range 0 (int (length (replicate n junk))) (\<lambda>vid in_degree. vec_set in_degree vid eps) (replicate n junk)
      = Some (map (\<lambda>_. eps) (replicate n junk))"
    by (rule for_range_map) (simp add: vec_set_nat)
  then have init: "for_range 0 (int n) (\<lambda>vid in_degree. vec_set in_degree vid eps) (replicate n junk) = Some (replicate n eps)"
    by simp
  let ?D = "\<lambda>j. map (\<lambda>v. (inc ^^ count_list (take j dst) (int v)) eps) [0..<n]"
  have "for_range 0 (int (length dst)) (\<lambda>eid in_degree. do {
       d \<leftarrow> vec_at dst eid;
       x \<leftarrow> vec_at in_degree d;
       vec_set in_degree d (inc x) }) (?D 0) = Some (?D (length dst))"
  proof (rule for_range_nat_eq)
    fix j assume j: "j < length dst"
    define v where "v = nat (dst ! j)"
    have v: "dst ! j = int v" "v < n" using assms j by (auto simp: v_def list_all_length)
    have "(?D j)[v := inc (?D j ! v)] = ?D (Suc j)"
      using j v by (intro nth_equalityI) (auto simp: nth_list_update take_Suc_conv_app_nth)
    then show "(do { d \<leftarrow> vec_at dst (int j); x \<leftarrow> vec_at (?D j) d; vec_set (?D j) d (inc x) }) = Some (?D (Suc j))"
      using j v by (simp add: vec_at_nat vec_set_nat)
  qed
  moreover have "?D 0 = replicate n eps" by (simp add: map_replicate_const)
  moreover have "for_range 0 (int (length (?D (length dst)))) (\<lambda>vid in_degree. do { x \<leftarrow> vec_at in_degree vid; vec_set in_degree vid (inv_sqrt x) })
      (?D (length dst)) = Some (map inv_sqrt (?D (length dst)))"
    by (rule for_range_map) (simp add: vec_at_nat vec_set_nat)
  ultimately show ?thesis using init by (simp add: get_norm_degree_def comp_def)
qed

theorem get_norm_degree_counts_witness:
  "get_norm_degree (0 :: int) (\<lambda>x. x + 1) (\<lambda>x. 10 div x) 7 [1, 0, 1, 1, 2] 3 = Some [10, 3, 10]"
proof -
  have "map (\<lambda>v. 10 div (((\<lambda>x. x + 1) ^^ count_list [1, 0, 1, 1, 2] (int v)) (0 :: int))) [0..<3] = [10, 3, 10]"
    by code_simp
  then show ?thesis
    using get_norm_degree_counts [of 3 "[1, 0, 1, 1, 2]" 0 "\<lambda>x. x + 1" "\<lambda>x. 10 div x" "7 :: int"] by simp
qed

subsection \<open>The weights of the edges\<close>

definition edge_norm :: "nat \<Rightarrow> 'f::{times, one} list \<Rightarrow> int \<Rightarrow> int \<Rightarrow> 'f" where
  "edge_norm n deg x y = (if x < int n then (if y < int n then deg ! nat x * deg ! nat y else deg ! nat x)
     else if y < int n then deg ! nat y else 1)"

lemma store_weight_run:
  assumes "0 \<le> x" "0 \<le> y" "length deg = n" "e < length w"
  shows "store_weight (int n) deg x y (int e) w = Some (w[e := edge_norm n deg x y])"
  using assms by (auto simp: store_weight_def edge_norm_def vec_at_def vec_set_nat)

lemma gcn_norm_coo_compress_run:
  assumes "length dst = length src" "list_all (\<lambda>x. 0 \<le> x) (src @ dst)" "length deg = n"
  shows "gcn_norm_coo_compress junk src dst deg (int n) rule_cnt = Some (map2 (edge_norm n deg) src dst)"
proof -
  let ?S = "\<lambda>j. map2 (edge_norm n deg) (take j src) (take j dst) @ replicate (length src - j) junk"
  have "for_range 0 (int (length src)) (\<lambda>eid edge_weight. do {
       src_node \<leftarrow> vec_at src eid;
       dst_node \<leftarrow> vec_at dst eid;
       store_weight (int n) deg src_node dst_node eid edge_weight }) (?S 0) = Some (?S (length src))"
  proof (rule for_range_nat_eq)
    fix j assume j: "j < length src"
    have "replicate (length src - j) junk = junk # replicate (length src - Suc j) junk"
      using j by (metis Suc_diff_Suc replicate_Suc)
    then have "(?S j)[j := edge_norm n deg (src ! j) (dst ! j)] = ?S (Suc j)"
      using j assms(1) by (simp add: take_Suc_conv_app_nth list_update_append)
    moreover have "0 \<le> src ! j" "0 \<le> dst ! j" using j assms(1,2) by (auto simp: list_all_iff)
    ultimately show "(do { src_node \<leftarrow> vec_at src (int j); dst_node \<leftarrow> vec_at dst (int j);
        store_weight (int n) deg src_node dst_node (int j) (?S j) }) = Some (?S (Suc j))"
      using store_weight_run [of "src ! j" "dst ! j" deg n j "?S j"] j assms(1,3) by (simp add: vec_at_nat)
  qed
  then show ?thesis using assms(1) by (simp add: gcn_norm_coo_compress_def)
qed

text \<open>A loop that overwrites a stretch of an array.\<close>

lemma write_range:
  assumes "lo \<le> hi" "hi \<le> length xs" "length w = length xs"
    and body: "\<And>e w. lo \<le> e \<Longrightarrow> e < hi \<Longrightarrow> length w = length xs \<Longrightarrow> f (xs ! e) (int e) w = Some (w[e := h (xs ! e)])"
  shows "for_range (int lo) (int hi) (\<lambda>e w. do { x \<leftarrow> vec_at xs e; f x e w }) w
    = Some (take lo w @ map h (slice lo hi xs) @ drop hi w)"
proof -
  let ?S = "\<lambda>e. take lo w @ map h (slice lo e xs) @ drop e w"
  have "for_range (int lo) (int hi) (\<lambda>e w. do { x \<leftarrow> vec_at xs e; f x e w }) (?S lo) = Some (?S hi)"
  proof (rule for_range_from_eq [OF assms(1)])
    fix e assume e: "lo \<le> e" "e < hi"
    have len: "length (take lo w @ map h (slice lo e xs)) = e" "length (?S e) = length xs" using e assms(2,3) by simp_all
    have drop: "drop e w = w ! e # drop (Suc e) w" using e assms(2,3) by (simp add: Cons_nth_drop_Suc)
    have "(?S e)[e := h (xs ! e)] = take lo w @ map h (slice lo e xs) @ h (xs ! e) # drop (Suc e) w"
      using list_update_length [of "take lo w @ map h (slice lo e xs)" "w ! e" "drop (Suc e) w" "h (xs ! e)"]
      unfolding len(1) drop by (simp only: append_assoc)
    then show "(do { x \<leftarrow> vec_at xs (int e); f x (int e) (?S e) }) = Some (?S (Suc e))"
      using body [OF e len(2)] e assms(2) by (simp add: vec_at_nat slice_Suc)
  qed
  then show ?thesis by simp
qed

lemma full_csr_offset:
  assumes "full_csr n vlist elist" "i \<le> n"
  shows "vlist ! i = int (length (concat (csr_graph i vlist elist)))"
  using assms(2)
proof (induction i)
  case 0
  then show ?case using assms(1) by (simp add: full_csr_def csr_graph_def)
next
  case (Suc i)
  have "int (length (csr_row vlist elist i)) = vlist ! Suc i - vlist ! i"
    using length_csr_row [OF full_csrD [OF assms(1)], of i] Suc.prems by simp
  then show ?case using Suc by (simp add: csr_graph_def)
qed

lemma fill_rows_run:
  assumes full: "full_csr n vlist elist" and len: "length w = length elist"
    and body: "\<And>v e w. v < n \<Longrightarrow> e < length elist \<Longrightarrow> length w = length elist \<Longrightarrow>
      f (int v) (elist ! e) (int e) w = Some (w[e := h (int v) (elist ! e)])"
  shows "for_range 0 (int n) (\<lambda>vid w. do {
       start \<leftarrow> vec_at vlist vid;
       end \<leftarrow> vec_at vlist (vid + 1);
       for_range start end (\<lambda>eid w. do { dst \<leftarrow> vec_at elist eid; f vid dst eid w }) w
     }) w = Some (concat (map (\<lambda>v. map (h (int v)) (csr_row vlist elist v)) [0..<n]))"
proof -
  note wf = full_csrD [OF full]
  let ?P = "\<lambda>v. concat (map (\<lambda>v. map (h (int v)) (csr_row vlist elist v)) [0..<v])"
  have lenP: "int (length (?P v)) = vlist ! v" if "v \<le> n" for v
    using full_csr_offset [OF full that] by (simp add: length_concat csr_graph_def comp_def)
  let ?S = "\<lambda>v. ?P v @ drop (nat (vlist ! v)) w"
  have "for_range 0 (int n) (\<lambda>vid w. do {
       start \<leftarrow> vec_at vlist vid;
       end \<leftarrow> vec_at vlist (vid + 1);
       for_range start end (\<lambda>eid w. do { dst \<leftarrow> vec_at elist eid; f vid dst eid w }) w }) (?S 0) = Some (?S n)"
  proof (rule for_range_nat_eq)
    fix v assume v: "v < n"
    define lo hi where "lo = nat (vlist ! v)" and "hi = nat (vlist ! Suc v)"
    have at: "vec_at vlist (int v) = Some (int lo)" "vec_at vlist (int v + 1) = Some (int hi)" "lo \<le> hi" "hi \<le> length elist"
      using wf_csr_at [OF wf, of "int v"] v by (auto simp: lo_def hi_def)
    have lo: "length (?P v) = lo" using lenP [of v] v by (simp add: lo_def)
    then have l: "length (?S v) = length elist" using at len by (simp add: lo_def)
    have "for_range (int lo) (int hi) (\<lambda>eid w. do { dst \<leftarrow> vec_at elist eid; f (int v) dst eid w }) (?S v)
        = Some (take lo (?S v) @ map (h (int v)) (slice lo hi elist) @ drop hi (?S v))"
      by (rule write_range [OF at(3,4) l]) (use body [OF v] at in auto)
    moreover have "drop hi (?S v) = drop hi w" using lo at(3) by (simp add: lo_def)
    ultimately show "(do { start \<leftarrow> vec_at vlist (int v); end \<leftarrow> vec_at vlist (int v + 1);
       for_range start end (\<lambda>eid w. do { dst \<leftarrow> vec_at elist eid; f (int v) dst eid w }) (?S v) }) = Some (?S (Suc v))"
      using at lo by (simp add: csr_row_def flip: lo_def hi_def)
  qed
  moreover have "vlist ! 0 = 0" "nat (vlist ! n) = length w" using full len by (auto simp: full_csr_def)
  ultimately show ?thesis by simp
qed

lemma gcn_norm_csr_compress_run:
  assumes "full_csr (n + r) vlist elist" "list_all (\<lambda>x. 0 \<le> x) elist" "length deg = n"
  shows "gcn_norm_csr_compress junk vlist elist deg (int n) (int r) =
    Some (concat (map (\<lambda>v. map (edge_norm n deg (int v)) (csr_row vlist elist v)) [0..<n + r]))"
proof -
  have "store_weight (int n) deg (int v) (elist ! e) (int e) w = Some (w[e := edge_norm n deg (int v) (elist ! e)])"
    if "e < length elist" "length w = length elist" for v e w
    using that assms(2,3) by (intro store_weight_run) (auto simp: list_all_length)
  then show ?thesis
    using fill_rows_run [OF assms(1), of "replicate (length elist) junk" "\<lambda>vid dst eid w. store_weight (int n) deg vid dst eid w"
      "edge_norm n deg"] by (simp add: gcn_norm_csr_compress_def)
qed

text \<open>Without rules the variants for compressed graphs and the plain ones agree.\<close>

lemma gcn_norm_csr_plain:
  assumes "full_csr n vlist elist" "list_all (\<lambda>x. 0 \<le> x \<and> x < int n) elist" "length deg = n"
  shows "gcn_norm_csr junk vlist elist deg (int n) = gcn_norm_csr_compress junk vlist elist deg (int n) 0"
proof -
  have "gcn_norm_csr junk vlist elist deg (int n) = Some (concat (map (\<lambda>v. map (\<lambda>x. deg ! nat (int v) * deg ! nat x) (csr_row vlist elist v)) [0..<n]))"
    unfolding gcn_norm_csr_def
  proof (rule fill_rows_run [OF assms(1)])
    show "(do { a \<leftarrow> vec_at deg (int v); b \<leftarrow> vec_at deg (elist ! e); vec_set w (int e) (a * b) })
        = Some (w[e := deg ! nat (int v) * deg ! nat (elist ! e)])" if "v < n" "e < length elist" "length w = length elist" for v e w
      using that assms(2,3) by (simp add: vec_at_def vec_set_nat list_all_length)
  qed simp
  moreover have "map (edge_norm n deg (int v)) (csr_row vlist elist v) = map (\<lambda>x. deg ! nat (int v) * deg ! nat x) (csr_row vlist elist v)"
    if "v < n" for v
    using that assms(2) set_slice [of _ _ elist] by (auto simp: edge_norm_def csr_row_def list_all_iff)
  then have "concat (map (\<lambda>v. map (edge_norm n deg (int v)) (csr_row vlist elist v)) [0..<n])
      = concat (map (\<lambda>v. map (\<lambda>x. deg ! nat (int v) * deg ! nat x) (csr_row vlist elist v)) [0..<n])"
    by (intro arg_cong [of _ _ concat]) simp
  ultimately show ?thesis
    using gcn_norm_csr_compress_run [of n 0 vlist elist deg junk] assms by (simp add: list_all_iff)
qed

lemma gcn_norm_coo_plain:
  assumes "length dst = length src" "length src < 2 ^ 31" "list_all (\<lambda>x. 0 \<le> x \<and> x < int n) (src @ dst)" "length deg = n"
  shows "gcn_norm_coo junk src dst deg (int n) = gcn_norm_coo_compress junk src dst deg (int n) 0"
proof -
  have eq: "(do { s \<leftarrow> vec_at src i; d \<leftarrow> vec_at dst i; a \<leftarrow> vec_at deg s; b \<leftarrow> vec_at deg d; vec_set w i (a * b) })
      = (do { s \<leftarrow> vec_at src i; d \<leftarrow> vec_at dst i; store_weight (int n) deg s d i w })" for i w
  proof (cases "0 \<le> i \<and> i < int (length src)")
    case True
    then have i: "nat i < length src" by auto
    then have "src ! nat i \<in> set (src @ dst)" "dst ! nat i \<in> set (src @ dst)" using assms(1) by auto
    then have "0 \<le> src ! nat i" "src ! nat i < int n" "0 \<le> dst ! nat i" "dst ! nat i < int n"
      using assms(3) unfolding list_all_iff by blast+
    then show ?thesis using True assms(1,4) by (simp add: vec_at_def store_weight_def split: Option.bind_split)
  qed (auto simp: vec_at_def)
  show ?thesis using assms(2) by (simp add: gcn_norm_coo_def gcn_norm_coo_compress_def eq)
qed

text \<open>
  A path through a compressed graph, as the list of its edges: from \<open>x\<close> through rules to the
  vertex \<open>u\<close>.
\<close>

fun norm_path :: "nat \<Rightarrow> nat \<Rightarrow> int list \<Rightarrow> int list \<Rightarrow> int \<Rightarrow> nat list \<Rightarrow> int \<Rightarrow> bool" where
  "norm_path n r vlist elist x [] u \<longleftrightarrow> False"
| "norm_path n r vlist elist x (e # es) u \<longleftrightarrow> 0 \<le> x \<and> x < int (n + r) \<and>
     vlist ! nat x \<le> int e \<and> int e < vlist ! Suc (nat x) \<and>
     (if es = [] then elist ! e = u \<and> u < int n else int n \<le> elist ! e \<and> norm_path n r vlist elist (elist ! e) es u)"

lemma edge_norm_factors:
  fixes deg :: "'f::comm_monoid_mult list"
  shows "edge_norm n deg x y = (if x < int n then deg ! nat x else 1) * (if y < int n then deg ! nat y else 1)"
  by (simp add: edge_norm_def)

lemma concat_rows_nth:
  assumes "full_csr n vlist elist" "v < n" "vlist ! v \<le> int e" "int e < vlist ! Suc v"
  shows "concat (map (\<lambda>v. map (h (int v)) (csr_row vlist elist v)) [0..<n]) ! e = h (int v) (elist ! e)"
proof -
  note wf = full_csrD [OF assms(1)]
  let ?P = "\<lambda>v. concat (map (\<lambda>v. map (h (int v)) (csr_row vlist elist v)) [0..<v])"
  have at: "0 \<le> vlist ! v" "vlist ! v \<le> vlist ! Suc v" "vlist ! Suc v \<le> int (length elist)"
    using wf_csr_at(3-5) [OF wf, of "int v"] assms(2) by auto
  have lenP: "int (length (?P v)) = vlist ! v"
    using full_csr_offset [OF assms(1), of v] assms(2) by (simp add: length_concat csr_graph_def comp_def)
  have split: "[0..<n] = [0..<v] @ v # [Suc v..<n]"
    using assms(2) upt_add_eq_append [of 0 v "n - v"] by (simp add: upt_conv_Cons)
  define k where "k = e - length (?P v)"
  have k: "e = length (?P v) + k" "k < length (csr_row vlist elist v)" "nat (vlist ! v) = length (?P v)"
    using assms(3,4) lenP at by (auto simp: k_def csr_row_def)
  have "csr_row vlist elist v ! k = elist ! e"
    using k at assms(4) by (simp add: csr_row_def slice_nth)
  then show ?thesis using k(2) by (simp add: split nth_append k(1) del: upt_Suc)
qed



subsection \<open>Shared variables in the parallel loop\<close>

fun exec_ops :: "int list \<Rightarrow> int list \<Rightarrow> 'f::{times, one} list \<Rightarrow> int \<Rightarrow> norm_op list \<Rightarrow> 'f norm_shared \<Rightarrow> 'f norm_shared option" where
  "exec_ops src dst deg n [] sh = Some sh"
| "exec_ops src dst deg n (op # ops) sh = do { sh \<leftarrow> exec_op src dst deg n op sh; exec_ops src dst deg n ops sh }"

lemma exec_ops_append:
  "exec_ops src dst deg n (xs @ ys) sh = do { sh \<leftarrow> exec_ops src dst deg n xs sh; exec_ops src dst deg n ys sh }"
  by (induction xs arbitrary: sh) (auto split: Option.bind_split)

text \<open>One thread can only work off its operations in order.\<close>

lemma single_thread:
  assumes "(norm_step src dst deg n)\<^sup>*\<^sup>* ([ops], sh) (ts, sh')"
  shows "\<exists>pre post. ops = pre @ post \<and> ts = [post] \<and> exec_ops src dst deg n pre sh = Some sh'"
  using assms
proof (induction "(ts, sh')" arbitrary: ts sh' rule: rtranclp_induct)
  case base
  then show ?case by (auto intro: exI [of _ "[]"])
next
  case (step c ts' sh'')
  obtain ts sh' where c: "c = (ts, sh')" by force
  obtain pre post where pre: "ops = pre @ post" "ts = [post]" "exec_ops src dst deg n pre sh = Some sh'"
    using step.hyps(3) [OF c] by blast
  from step.hyps(2) obtain op rest where "post = op # rest" "ts' = [rest]" "exec_op src dst deg n op sh' = Some sh''"
    unfolding c pre(2) by (auto elim: norm_stepE)
  then show ?case
    using pre by (auto simp: exec_ops_append intro: exI [of _ "pre @ [op]"])
qed

lemma thread_ops_Suc: "thread_ops [0..<Suc j] = thread_ops [0..<j] @ iteration j"
  by (simp add: thread_ops_def)

lemma sequential_ops:
  assumes len: "length dst = length src" "length deg = n" "length (ns_weight sh) = length src"
    and pos: "list_all (\<lambda>x. 0 \<le> x) (src @ dst)" and "j \<le> length src"
  shows "\<exists>sh'. exec_ops src dst deg (int n) (thread_ops [0..<j]) sh = Some sh' \<and>
    ns_weight sh' = map2 (edge_norm n deg) (take j src) (take j dst) @ drop j (ns_weight sh)"
  using assms(5)
proof (induction j)
  case 0
  then show ?case by (simp add: thread_ops_def)
next
  case (Suc j)
  then obtain sh' where sh': "exec_ops src dst deg (int n) (thread_ops [0..<j]) sh = Some sh'"
    "ns_weight sh' = map2 (edge_norm n deg) (take j src) (take j dst) @ drop j (ns_weight sh)" by auto
  have j: "j < length src" using Suc.prems by simp
  have "0 \<le> src ! j" "0 \<le> dst ! j" using j len pos by (auto simp: list_all_iff)
  moreover have "j < length (ns_weight sh')" using sh' j len by simp
  moreover have "(ns_weight sh')[j := edge_norm n deg (src ! j) (dst ! j)]
      = map2 (edge_norm n deg) (take (Suc j) src) (take (Suc j) dst) @ drop (Suc j) (ns_weight sh)"
    using sh' j len by (simp add: take_Suc_conv_app_nth list_update_append Cons_nth_drop_Suc [symmetric])
  ultimately show ?case
    using sh'(1) j len store_weight_run [of "src ! j" "dst ! j" deg n j "ns_weight sh'"]
    unfolding thread_ops_Suc by (simp add: exec_ops_append iteration_def vec_at_nat)
qed


text \<open>Running a given schedule, the list of the threads that take the steps.\<close>

fun run_schedule ::
  "int list \<Rightarrow> int list \<Rightarrow> 'f::{times, one} list \<Rightarrow> int \<Rightarrow> nat list \<Rightarrow>
    norm_op list list \<times> 'f norm_shared \<Rightarrow> (norm_op list list \<times> 'f norm_shared) option" where
  "run_schedule src dst deg n [] c = Some c"
| "run_schedule src dst deg n (i # is) (ts, sh) = do {
     ops \<leftarrow> vec_at ts (int i);
     (case ops of
        [] \<Rightarrow> None
      | op # ops' \<Rightarrow> do { sh' \<leftarrow> exec_op src dst deg n op sh; run_schedule src dst deg n is (ts[i := ops'], sh') })
   }"

lemma run_schedule_steps:
  "run_schedule src dst deg n is c = Some c' \<Longrightarrow> (norm_step src dst deg n)\<^sup>*\<^sup>* c c'"
proof (induction src dst deg n "is" c rule: run_schedule.induct)
  case (2 src dst deg n i "is" ts sh)
  then obtain op ops' sh' where i: "i < length ts" "ts ! i = op # ops'" "exec_op src dst deg n op sh = Some sh'"
    and rest: "run_schedule src dst deg n is (ts[i := ops'], sh') = Some c'"
    by (auto simp: vec_at_def split: Option.bind_splits list.splits if_splits)
  have "(norm_step src dst deg n)\<^sup>*\<^sup>* (ts[i := ops'], sh') c'"
    using "2.IH" [of "op # ops'" op ops' sh'] i rest by (simp add: vec_at_nat)
  with norm_step.step [OF i] show ?case by (rule converse_rtranclp_into_rtranclp)
qed simp


text \<open>
  Property C21. Two threads can get a weight wrong: there is an interleaving of the two
  iterations after which the weight of the first edge is that of the second.
\<close>

theorem norm_two_threads_race:
  "\<exists>sh'. (norm_step [0, 1] [1, 1] [3, 5 :: int] 2)\<^sup>*\<^sup>*
      ([thread_ops [0], thread_ops [1]], \<lparr>ns_src = 0, ns_dst = 0, ns_weight = [0, 0]\<rparr>) ([[], []], sh') \<and>
    gcn_norm_coo_compress 0 [0, 1] [1, 1] [3, 5 :: int] 2 0 = Some [15, 25] \<and> ns_weight sh' = [25, 25]"
proof -
  let ?sh' = "\<lparr>ns_src = 1, ns_dst = 1, ns_weight = [25, 25 :: int]\<rparr>"
  have "run_schedule [0, 1] [1, 1] [3, 5 :: int] 2 [0, 0, 1, 1, 0, 1]
      ([thread_ops [0], thread_ops [1]], \<lparr>ns_src = 0, ns_dst = 0, ns_weight = [0, 0]\<rparr>) = Some ([[], []], ?sh')"
    by code_simp
  note run = run_schedule_steps [OF this]
  have "gcn_norm_coo_compress 0 [0, 1] [1, 1] [3, 5 :: int] 2 0 = Some [15, 25]" by code_simp
  then show ?thesis using run by (intro exI [of _ ?sh']) auto
qed

end
