(* ===== verification/Graph_IO.thy ===== *)
theory Graph_IO
  imports Csr
begin

text \<open>
  Reading and writing graphs as text: \<open>compress_op/graphIO.h\<close> of the serial code and
  \<open>core/IO.h\<close> of the parallel code, over a model of the formatted input and output of integers.
\<close>

subsection \<open>Streams of text\<close>

text \<open>What is left to read, and whether the stream is still good.\<close>

record stream =
  st_text :: string
  st_ok :: bool

definition open_file :: "string option \<Rightarrow> stream" where
  "open_file file = (case file of None \<Rightarrow> \<lparr>st_text = [], st_ok = False\<rparr> | Some t \<Rightarrow> \<lparr>st_text = t, st_ok = True\<rparr>)"

definition is_space :: "char \<Rightarrow> bool" where
  "is_space c \<longleftrightarrow> c = CHR '' '' \<or> (9 \<le> (of_char c :: int) \<and> (of_char c :: int) \<le> 13)"

definition is_digit :: "char \<Rightarrow> bool" where
  "is_digit c \<longleftrightarrow> 48 \<le> (of_char c :: int) \<and> (of_char c :: int) \<le> 57"

definition digits_value :: "string \<Rightarrow> int" where
  "digits_value ds = foldl (\<lambda>a c. 10 * a + (of_char c - 48)) 0 ds"

text \<open>The sign, the digits and the rest of the text; \<open>None\<close> without a digit.\<close>

definition parse_number :: "string \<Rightarrow> (bool \<times> int \<times> string) option" where
  "parse_number s = (let neg = (s \<noteq> [] \<and> hd s = CHR ''-'');
       s = (if s \<noteq> [] \<and> (hd s = CHR ''-'' \<or> hd s = CHR ''+'') then tl s else s);
       ds = takeWhile is_digit s
     in if ds = [] then None else Some (neg, digits_value ds, dropWhile is_digit s))"

text \<open>
  \<open>operator>>\<close> for \<open>int\<close> and for \<open>unsigned\<close>.  A stream that is not good, or at its end, leaves the
  variable alone; text that is no number stores 0, and a number out of range the nearest bound.
\<close>

definition extract_int :: "int \<Rightarrow> stream \<Rightarrow> int \<times> stream" where
  "extract_int old st = (if \<not> st_ok st then (old, st) else
     let s = dropWhile is_space (st_text st) in
     if s = [] then (old, \<lparr>st_text = [], st_ok = False\<rparr>)
     else (case parse_number s of
         None \<Rightarrow> (0, \<lparr>st_text = s, st_ok = False\<rparr>)
       | Some (neg, m, rest) \<Rightarrow>
           let v = (if neg then - m else m) in
           if v < - (2 ^ 31) then (- (2 ^ 31), \<lparr>st_text = rest, st_ok = False\<rparr>)
           else if 2 ^ 31 \<le> v then (2 ^ 31 - 1, \<lparr>st_text = rest, st_ok = False\<rparr>)
           else (v, \<lparr>st_text = rest, st_ok = True\<rparr>)))"

definition extract_uint :: "int \<Rightarrow> stream \<Rightarrow> int \<times> stream" where
  "extract_uint old st = (if \<not> st_ok st then (old, st) else
     let s = dropWhile is_space (st_text st) in
     if s = [] then (old, \<lparr>st_text = [], st_ok = False\<rparr>)
     else (case parse_number s of
         None \<Rightarrow> (0, \<lparr>st_text = s, st_ok = False\<rparr>)
       | Some (neg, m, rest) \<Rightarrow>
           if 2 ^ 32 \<le> m then (2 ^ 32 - 1, \<lparr>st_text = rest, st_ok = False\<rparr>)
           else (to_u32 (if neg then - m else m), \<lparr>st_text = rest, st_ok = True\<rparr>)))"

text \<open>The values that a loop \<open>while (infile >> tmp)\<close> reads.\<close>

lemma parse_number_shorter:
  assumes "parse_number s = Some (neg, m, rest)"
  shows "length rest < length s"
proof -
  define t where "t = (if s \<noteq> [] \<and> (hd s = CHR ''-'' \<or> hd s = CHR ''+'') then tl s else s)"
  have "takeWhile is_digit t \<noteq> []" "rest = dropWhile is_digit t"
    using assms by (auto simp: parse_number_def Let_def t_def split: if_splits)
  moreover have "length (takeWhile is_digit t) + length (dropWhile is_digit t) = length t"
    by (metis length_append takeWhile_dropWhile_id)
  moreover have "length t \<le> length s" by (simp add: t_def)
  ultimately show ?thesis by (cases "takeWhile is_digit t") auto
qed

lemma extract_int_shorter:
  assumes "extract_int old st = (v, st')" "st_ok st'"
  shows "length (st_text st') < length (st_text st)"
  using assms parse_number_shorter length_dropWhile_le [of is_space "st_text st"]
  by (fastforce simp: extract_int_def Let_def split: if_splits option.splits prod.splits)

lemma extract_uint_shorter:
  assumes "extract_uint old st = (v, st')" "st_ok st'"
  shows "length (st_text st') < length (st_text st)"
  using assms parse_number_shorter length_dropWhile_le [of is_space "st_text st"]
  by (fastforce simp: extract_uint_def Let_def split: if_splits option.splits prod.splits)

function read_ints :: "stream \<Rightarrow> int list" where
  "read_ints st = (case extract_int 0 st of (v, st') \<Rightarrow> if st_ok st' then v # read_ints st' else [])"
  by pat_completeness auto
termination by (relation "measure (length \<circ> st_text)") (auto dest: extract_int_shorter [OF sym])

function read_uints :: "stream \<Rightarrow> int list" where
  "read_uints st = (case extract_uint 0 st of (v, st') \<Rightarrow> if st_ok st' then v # read_uints st' else [])"
  by pat_completeness auto
termination by (relation "measure (length \<circ> st_text)") (auto dest: extract_uint_shorter [OF sym])

declare read_ints.simps [simp del] read_uints.simps [simp del]

text \<open>\<open>operator<<\<close> for \<open>int\<close>.\<close>

fun show_nat :: "nat \<Rightarrow> string" where
  "show_nat k = (if k < 10 then [char_of (48 + k)] else show_nat (k div 10) @ [char_of (48 + k mod 10)])"

declare show_nat.simps [simp del]

definition show_int :: "int \<Rightarrow> string" where
  "show_int i = (if i < 0 then CHR ''-'' # show_nat (nat (- i)) else show_nat (nat i))"

subsection \<open>The code\<close>

text \<open>
  A vector of \<open>int\<close> holds at most \<open>2^61 - 1\<close> elements.  The comparison with \<open>vertex_cnt\<close> is one of
  unsigned 64-bit numbers, so a negative count asks for more.
\<close>

definition vec_limit :: int where "vec_limit = 2 ^ 61 - 1"

definition pad_offsets :: "int list \<Rightarrow> int \<Rightarrow> int \<Rightarrow> int list option" where
  "pad_offsets back_vlist esize vertex_cnt =
     (if vec_limit < to_u64 vertex_cnt then None
      else Some (back_vlist @ replicate (nat (to_u64 vertex_cnt) - length back_vlist) esize))"

text \<open>\<open>junk\<close> is what the uninitialised variables \<open>vertex_cnt\<close> and \<open>edge_cnt\<close> hold.\<close>

definition read_from_file :: "int \<times> int \<Rightarrow> string option \<Rightarrow> (int list \<times> int list) option" where
  "read_from_file junk file = do {
     let infile = open_file file;
     let (vertex_cnt, infile) = extract_int (fst junk) infile;
     let (edge_cnt, infile) = extract_int (snd junk) infile;
     (back_vlist, back_elist, esize) \<leftarrow> for_each (\<lambda>tmp (back_vlist, back_elist, esize).
       if vertex_cnt \<le> tmp then Some (back_vlist @ [esize], back_elist, esize)
       else do { esize' \<leftarrow> i32_arith (esize + 1); Some (back_vlist, back_elist @ [tmp], esize') })
       (read_ints infile) ([0], [], 0);
     back_vlist \<leftarrow> pad_offsets back_vlist esize vertex_cnt;
     Some (back_vlist, back_elist)
   }"

text \<open>The text that \<open>output\<close> writes, and its result; \<open>vlist.size() - 1\<close> of an empty vector wraps around.\<close>

definition output_graph :: "bool \<Rightarrow> int list \<Rightarrow> int list \<Rightarrow> int \<Rightarrow> int \<Rightarrow> (bool \<times> string) option" where
  "output_graph good vlist elist vertex_cnt rule_cnt =
     (if \<not> good then Some (False, [])
      else if vlist = [] then None
      else do {
        text \<leftarrow> for_range 0 (int (length vlist) - 1) (\<lambda>vid text. do {
          start \<leftarrow> vec_at vlist vid;
          end \<leftarrow> vec_at vlist (vid + 1);
          text \<leftarrow> for_range start end (\<lambda>eid text. do {
            x \<leftarrow> vec_at elist eid;
            Some (text @ show_int x @ '' '')
          }) text;
          Some (text @ [CHR 0x0A])
        }) (show_int vertex_cnt @ '' '' @ show_int rule_cnt @ [CHR 0x0A]);
        Some (True, text)
      })"

text \<open>The loaders of the parallel program; \<open>None\<close> is \<open>exit\<close> for a file that does not exist.\<close>

definition load_edge_file :: "string option \<Rightarrow> (int \<times> int list) option" where
  "load_edge_file file = (if file = None then None
     else Some (let sequence = read_uints (open_file file) in (foldl (\<lambda>m tmp. max tmp m) 0 sequence, sequence)))"

definition load_vertex_file :: "string option \<Rightarrow> int list option" where
  "load_vertex_file file = (if file = None then None else Some (read_uints (open_file file)))"

subsection \<open>Printing and parsing\<close>

lemma of_char_digit [simp]:
  assumes "k < 10"
  shows "(of_char (char_of (48 + k)) :: int) = 48 + int k"
proof -
  have "(of_char (char_of (48 + k)) :: nat) = 48 + k" using assms by simp
  then show ?thesis by (metis of_nat_of_char of_nat_add of_nat_numeral)
qed

lemma is_digit_char [simp]: "(k :: nat) < 10 \<Longrightarrow> is_digit (char_of (48 + k))"
  by (simp add: is_digit_def)

lemma digits_value_snoc: "digits_value (ds @ [c]) = 10 * digits_value ds + (of_char c - 48)"
  by (simp add: digits_value_def)

lemma show_nat_digits: "show_nat k \<noteq> []" "c \<in> set (show_nat k) \<Longrightarrow> is_digit c" "digits_value (show_nat k) = int k"
proof (induction k rule: show_nat.induct)
  case (1 k)
  {
    case 1
    show ?case by (subst show_nat.simps) simp
  next
    case 2
    then show ?case using "1.IH"(2) [of] by (subst (asm) show_nat.simps) (auto split: if_splits)
  next
    case 3
    have "int (k div 10) * 10 + int (k mod 10) = int k" by presburger
    then show ?case using "1.IH"(3)
      by (subst show_nat.simps) (auto simp: digits_value_snoc digits_value_def)
  }
qed

lemma show_nat_hd: "is_digit (hd (show_nat k))"
  by (rule show_nat_digits(2) [OF hd_in_set [OF show_nat_digits(1)]])

lemma takeWhile_digits:
  assumes "\<And>c. c \<in> set ds \<Longrightarrow> is_digit c" "rest = [] \<or> \<not> is_digit (hd rest)"
  shows "takeWhile is_digit (ds @ rest) = ds" "dropWhile is_digit (ds @ rest) = rest"
  using assms by (cases rest; simp add: takeWhile_append2 dropWhile_append2)+

lemma parse_show:
  assumes "rest = [] \<or> \<not> is_digit (hd rest)"
  shows "parse_number (show_int i @ rest) = Some (i < 0, \<bar>i\<bar>, rest)"
proof -
  note tw = takeWhile_digits [OF show_nat_digits(2) assms]
  have "\<not> is_digit (CHR ''-'')" "\<not> is_digit (CHR ''+'')" by code_simp+
  then have "hd (show_nat k) \<noteq> CHR ''-''" "hd (show_nat k) \<noteq> CHR ''+''" for k using show_nat_hd by metis+
  then show ?thesis
    using show_nat_digits(1,3) by (simp add: parse_number_def show_int_def tw)
qed

lemma show_int_start: "show_int i \<noteq> []" "\<not> is_space (hd (show_int i))"
proof -
  have "is_digit c \<Longrightarrow> \<not> is_space c" for c
    by (auto simp: is_digit_def is_space_def)
  moreover have "\<not> is_space (CHR ''-'')" by code_simp
  ultimately show "show_int i \<noteq> []" "\<not> is_space (hd (show_int i))"
    using show_nat_digits(1) show_nat_hd by (auto simp: show_int_def)
qed

lemma space_no_digit: "is_space c \<Longrightarrow> \<not> is_digit c"
  by (auto simp: is_digit_def is_space_def)

lemma extract_show:
  assumes "is_space c"
  shows "- (2 ^ 31) \<le> i \<Longrightarrow> i < 2 ^ 31 \<Longrightarrow>
      extract_int old \<lparr>st_text = show_int i @ c # rest, st_ok = True\<rparr> = (i, \<lparr>st_text = c # rest, st_ok = True\<rparr>)"
    and "0 \<le> i \<Longrightarrow> i < 2 ^ 32 \<Longrightarrow>
      extract_uint old \<lparr>st_text = show_int i @ c # rest, st_ok = True\<rparr> = (i, \<lparr>st_text = c # rest, st_ok = True\<rparr>)"
proof -
  have "dropWhile is_space (show_int i @ c # rest) = show_int i @ c # rest"
    using show_int_start [of i] by (cases "show_int i") auto
  moreover have "parse_number (show_int i @ c # rest) = Some (i < 0, \<bar>i\<bar>, c # rest)"
    using space_no_digit [OF assms] by (intro parse_show) simp
  ultimately show "- (2 ^ 31) \<le> i \<Longrightarrow> i < 2 ^ 31 \<Longrightarrow>
      extract_int old \<lparr>st_text = show_int i @ c # rest, st_ok = True\<rparr> = (i, \<lparr>st_text = c # rest, st_ok = True\<rparr>)"
    and "0 \<le> i \<Longrightarrow> i < 2 ^ 32 \<Longrightarrow>
      extract_uint old \<lparr>st_text = show_int i @ c # rest, st_ok = True\<rparr> = (i, \<lparr>st_text = c # rest, st_ok = True\<rparr>)"
    using show_int_start(1) [of i] by (auto simp: extract_int_def extract_uint_def Let_def)
qed

text \<open>The interface of a loop that reads numbers, and what it makes of printed text.\<close>

locale number_reader =
  fixes read :: "stream \<Rightarrow> int list" and fits :: "int \<Rightarrow> bool"
  assumes skip: "is_space c \<Longrightarrow> read \<lparr>st_text = c # rest, st_ok = True\<rparr> = read \<lparr>st_text = rest, st_ok = True\<rparr>"
    and number: "fits i \<Longrightarrow> is_space c \<Longrightarrow>
      read \<lparr>st_text = show_int i @ c # rest, st_ok = True\<rparr> = i # read \<lparr>st_text = c # rest, st_ok = True\<rparr>"
    and at_end: "read \<lparr>st_text = [], st_ok = True\<rparr> = []"
begin

lemma numbers:
  assumes "is_space c" "\<And>x. x \<in> set xs \<Longrightarrow> fits x"
  shows "read \<lparr>st_text = concat (map (\<lambda>x. show_int x @ [c]) xs) @ rest, st_ok = True\<rparr>
    = xs @ read \<lparr>st_text = rest, st_ok = True\<rparr>"
  using assms by (induction xs) (simp_all add: number skip)

lemma lines:
  assumes "is_space c" "is_space d" "\<And>row x. row \<in> set rs \<Longrightarrow> x \<in> set row \<Longrightarrow> fits x"
  shows "read \<lparr>st_text = concat (map (\<lambda>row. concat (map (\<lambda>x. show_int x @ [c]) row) @ [d]) rs), st_ok = True\<rparr> = concat rs"
  using assms(3)
proof (induction rs)
  case (Cons row rs)
  have "x \<in> set row \<Longrightarrow> fits x" for x using Cons.prems by auto
  moreover have "read \<lparr>st_text = concat (map (\<lambda>row. concat (map (\<lambda>x. show_int x @ [c]) row) @ [d]) rs), st_ok = True\<rparr> = concat rs"
    using Cons.prems by (intro Cons.IH) auto
  ultimately have "read \<lparr>st_text = concat (map (\<lambda>x. show_int x @ [c]) row) @ d # concat (map (\<lambda>row. concat (map (\<lambda>x. show_int x @ [c]) row) @ [d]) rs),
      st_ok = True\<rparr> = row @ concat rs"
    using numbers [OF assms(1), of row] skip [OF assms(2)] by simp
  then show ?case by simp
qed (simp add: at_end)

end

interpretation ints: number_reader read_ints "\<lambda>i. - (2 ^ 31) \<le> i \<and> i < 2 ^ 31"
proof unfold_locales
  show "read_ints \<lparr>st_text = c # rest, st_ok = True\<rparr> = read_ints \<lparr>st_text = rest, st_ok = True\<rparr>" if "is_space c" for c rest
    using that by (subst (1 2) read_ints.simps) (simp add: extract_int_def)
  show "read_ints \<lparr>st_text = show_int i @ c # rest, st_ok = True\<rparr> = i # read_ints \<lparr>st_text = c # rest, st_ok = True\<rparr>"
    if "- (2 ^ 31) \<le> i \<and> i < 2 ^ 31" "is_space c" for i c rest
    using extract_show(1) [OF that(2), of i] that(1) by (subst read_ints.simps) simp
qed (subst read_ints.simps, simp add: extract_int_def)

interpretation uints: number_reader read_uints "\<lambda>i. 0 \<le> i \<and> i < 2 ^ 32"
proof unfold_locales
  show "read_uints \<lparr>st_text = c # rest, st_ok = True\<rparr> = read_uints \<lparr>st_text = rest, st_ok = True\<rparr>" if "is_space c" for c rest
    using that by (subst (1 2) read_uints.simps) (simp add: extract_uint_def)
  show "read_uints \<lparr>st_text = show_int i @ c # rest, st_ok = True\<rparr> = i # read_uints \<lparr>st_text = c # rest, st_ok = True\<rparr>"
    if "0 \<le> i \<and> i < 2 ^ 32" "is_space c" for i c rest
    using extract_show(2) [OF that(2), of i] that(1) by (subst read_uints.simps) simp
qed (subst read_uints.simps, simp add: extract_uint_def)

subsection \<open>Writing and reading graphs\<close>

lemma output_graph_text:
  assumes wf: "wf_csr n vlist elist" and len: "length vlist = Suc n"
  shows "output_graph True vlist elist vertex_cnt rule_cnt = Some (True,
    concat (map (\<lambda>x. show_int x @ '' '') [vertex_cnt]) @ concat (map (\<lambda>x. show_int x @ [CHR 0x0A]) [rule_cnt]) @
    concat (map (\<lambda>row. concat (map (\<lambda>x. show_int x @ '' '') row) @ [CHR 0x0A]) (csr_graph n vlist elist)))"
proof -
  let ?h = "show_int vertex_cnt @ '' '' @ show_int rule_cnt @ [CHR 0x0A]"
  let ?row = "\<lambda>row. concat (map (\<lambda>x. show_int x @ '' '') row) @ [CHR 0x0A]"
  let ?S = "\<lambda>j. ?h @ concat (map ?row (csr_graph j vlist elist))"
  have each: "for_each (\<lambda>x text. Some (text @ show_int x @ '' '')) row t = Some (t @ concat (map (\<lambda>x. show_int x @ '' '') row))" for row t
    by (induction row arbitrary: t) auto
  have "for_range 0 (int n) (\<lambda>vid text. do {
          start \<leftarrow> vec_at vlist vid;
          end \<leftarrow> vec_at vlist (vid + 1);
          text \<leftarrow> for_range start end (\<lambda>eid text. do { x \<leftarrow> vec_at elist eid; Some (text @ show_int x @ '' '') }) text;
          Some (text @ [CHR 0x0A]) }) (?S 0) = Some (?S n)"
  proof (rule for_range_nat_eq)
    fix j assume j: "j < n"
    have "(do { start \<leftarrow> vec_at vlist (int j); end \<leftarrow> vec_at vlist (int j + 1);
          for_range start end (\<lambda>eid text. do { x \<leftarrow> vec_at elist eid; Some (text @ show_int x @ '' '') }) (?S j) })
        = Some (?S j @ concat (map (\<lambda>x. show_int x @ '' '') (csr_row vlist elist j)))"
      using csr_row_loop [OF wf j, of "\<lambda>x text. Some (text @ show_int x @ '' '')" "?S j"] each by simp
    then show "(do { start \<leftarrow> vec_at vlist (int j); end \<leftarrow> vec_at vlist (int j + 1);
          text \<leftarrow> for_range start end (\<lambda>eid text. do { x \<leftarrow> vec_at elist eid; Some (text @ show_int x @ '' '') }) (?S j);
          Some (text @ [CHR 0x0A]) }) = Some (?S (Suc j))"
      using j by (auto simp: csr_graph_Suc bind_eq_Some_conv)
  qed
  moreover have "vlist \<noteq> []" using len by auto
  ultimately show ?thesis using len by (simp add: output_graph_def csr_graph_def)
qed



lemma read_ints_Cons:
  assumes "read_ints st = v # vs"
  obtains st' where "extract_int old st = (v, st')" "read_ints st' = vs" "st_ok st'"
proof -
  obtain st' where st': "extract_int 0 st = (v, st')" "st_ok st'" "read_ints st' = vs"
    using assms by (subst (asm) read_ints.simps) (auto split: prod.splits if_splits)
  then have "extract_int old st = (v, st')"
    by (auto simp: extract_int_def Let_def split: if_splits option.splits)
  then show thesis using st'(2,3) that by blast
qed

lemma read_rows_run:
  assumes "\<And>row sep. (row, sep) \<in> set rs \<Longrightarrow> n \<le> sep \<and> (\<forall>x\<in>set row. x < n)"
    and "length (concat (gs @ map fst rs)) < 2 ^ 31"
  shows "for_each (\<lambda>tmp (back_vlist, back_elist, esize).
       if n \<le> tmp then Some (back_vlist @ [esize], back_elist, esize)
       else do { esize' \<leftarrow> i32_arith (esize + 1); Some (back_vlist, back_elist @ [tmp], esize') })
     (concat (map (\<lambda>(row, sep). row @ [sep]) rs)) (offsets gs, concat gs, int (length (concat gs)))
    = Some (offsets (gs @ map fst rs), concat (gs @ map fst rs), int (length (concat (gs @ map fst rs))))"
  using assms
proof (induction rs arbitrary: gs)
  case (Cons p rs)
  obtain row sep where p: "p = (row, sep)" by force
  let ?f = "\<lambda>tmp (back_vlist, back_elist, esize).
       if n \<le> tmp then Some (back_vlist @ [esize], back_elist, esize)
       else do { esize' \<leftarrow> i32_arith (esize + 1); Some (back_vlist, back_elist @ [tmp], esize') }"
  have "for_each ?f xs (vl, el, int (length el)) = Some (vl, el @ xs, int (length (el @ xs)))"
    if "\<forall>x\<in>set xs. x < n" "length (el @ xs) < 2 ^ 31" for xs el and vl :: "int list"
    using that
  proof (induction xs arbitrary: el)
    case (Cons x xs)
    have "int (Suc (length el)) < 2 ^ 31"
      using Cons.prems(2) by (simp only: of_nat_less_numeral_power_cancel_iff) simp
    then show ?case using Cons.IH [of "el @ [x]"] Cons.prems by (simp add: add.commute)
  qed simp
  from this [of row "concat gs" "offsets gs"]
  have "for_each ?f row (offsets gs, concat gs, int (length (concat gs))) =
      Some (offsets gs, concat gs @ row, int (length (concat gs @ row)))"
    using Cons.prems p by auto
  moreover have "offsets gs @ [int (length (concat gs @ row))] = offsets (gs @ [row])" by (simp add: offsets_snoc)
  moreover have "n \<le> sep" using Cons.prems(1) p by auto
  moreover have "for_each ?f (concat (map (\<lambda>(row, sep). row @ [sep]) rs)) (offsets (gs @ [row]), concat (gs @ [row]), int (length (concat (gs @ [row]))))
      = Some (offsets ((gs @ [row]) @ map fst rs), concat ((gs @ [row]) @ map fst rs), int (length (concat ((gs @ [row]) @ map fst rs))))"
    using Cons.prems p by (intro Cons.IH) auto
  ultimately show ?case by (simp add: p for_each_append)
qed simp

text \<open>
  Property C23. A file with the vertex count, the edge count and every row, each ended by a number
  that is not a vertex, is read by \<open>read_from_file\<close> into the arrays of that graph.
\<close>

theorem read_from_file_rows:
  assumes "read_ints (open_file (Some text)) = int (length rs) # edge_cnt # concat (map (\<lambda>(row, sep). row @ [sep]) rs)"
    and "list_all (\<lambda>(row, sep). int (length rs) \<le> sep \<and> list_all (\<lambda>x. x < int (length rs)) row) rs"
    and "length (concat (map fst rs)) < 2 ^ 31"
  shows "read_from_file junk (Some text) = Some (offsets (map fst rs), concat (map fst rs))"
proof -
  let ?n = "int (length rs)"
  obtain st1 where st1: "extract_int (fst junk) (open_file (Some text)) = (?n, st1)"
    "read_ints st1 = edge_cnt # concat (map (\<lambda>(row, sep). row @ [sep]) rs)" "st_ok st1"
    by (rule read_ints_Cons [OF assms(1)])
  obtain st2 where st2: "extract_int (snd junk) st1 = (edge_cnt, st2)"
    "read_ints st2 = concat (map (\<lambda>(row, sep). row @ [sep]) rs)"
    by (rule read_ints_Cons [OF st1(2)])
  have n: "?n < 2 ^ 31"
    using st1(1,3) by (auto simp: extract_int_def Let_def open_file_def split: if_splits option.splits)
  then have "pad_offsets (offsets (map fst rs)) e ?n = Some (offsets (map fst rs))" for e
    by (simp add: pad_offsets_def vec_limit_def to_u64_def)
  moreover have "int (length rs) \<le> sep \<and> (\<forall>x\<in>set row. x < ?n)" if "(row, sep) \<in> set rs" for row sep
    using that assms(2) by (auto simp: list_all_iff)
  ultimately show ?thesis
    using st1(1) st2 read_rows_run [of rs ?n "[]"] assms(3)
    by (simp add: read_from_file_def Let_def del: length_concat)
qed

theorem read_from_file_rows_witness:
  "read_from_file (0, 0) (Some ''2 3 1 0 7 1 9'') = Some ([0, 2, 3], [1, 0, 1])"
proof -
  have "read_ints (open_file (Some ''2 3 1 0 7 1 9'')) = int (length [([1, 0], 7), ([1], 9 :: int)]) # 3 #
      concat (map (\<lambda>(row, sep). row @ [sep]) [([1, 0], 7), ([1], 9)])" by code_simp
  then have "read_from_file (0, 0) (Some ''2 3 1 0 7 1 9'') =
      Some (offsets (map fst [([1, 0], 7), ([1], 9 :: int)]), concat (map fst [([1, 0], 7), ([1], 9 :: int)]))"
    by (rule read_from_file_rows) simp_all
  moreover have "offsets [[1, 0], [1]] = [0, 2, 3]" by code_simp
  ultimately show ?thesis by simp
qed


text \<open>The loaders of the parallel program read back numbers printed one after the other.\<close>

lemma load_files_read_back:
  assumes "is_space c" "list_all (\<lambda>x. 0 \<le> x \<and> x < 2 ^ 32) xs"
  shows "load_vertex_file (Some (concat (map (\<lambda>x. show_int x @ [c]) xs))) = Some xs"
    and "load_edge_file (Some (concat (map (\<lambda>x. show_int x @ [c]) xs))) = Some (Max (insert 0 (set xs)), xs)"
proof -
  have r: "read_uints (open_file (Some (concat (map (\<lambda>x. show_int x @ [c]) xs)))) = xs"
    using uints.numbers [OF assms(1), of xs "[]"] assms(2) by (simp add: open_file_def list_all_iff uints.at_end)
  then show "load_vertex_file (Some (concat (map (\<lambda>x. show_int x @ [c]) xs))) = Some xs" by (simp add: load_vertex_file_def)
  have "foldl (\<lambda>m tmp. max tmp m) 0 xs = Max (insert 0 (set xs))"
    using Max.set_eq_fold [of 0 xs] by (simp add: foldl_conv_fold)
  then show "load_edge_file (Some (concat (map (\<lambda>x. show_int x @ [c]) xs))) = Some (Max (insert 0 (set xs)), xs)"
    using r by (simp add: load_edge_file_def)
qed

end
