(* ===== verification/Fusion.thy ===== *)
theory Fusion
  imports Masks
begin

text \<open>
  Orders for several rounds of aggregation at once, \<open>compress_op/fusion.h\<close>.  Every row fires
  \<open>num_p\<close> times: \<open>PC\<close> counts how often it did, \<open>AC\<close> how many of its uses fired since it last did.
  A row fires again when all its uses fired and no row it refers to lags behind.
\<close>

subsection \<open>The code\<close>

definition cond_propagate :: "int list \<Rightarrow> int list \<Rightarrow> int list \<Rightarrow> int list \<Rightarrow> int list \<Rightarrow> int \<Rightarrow> bool option" where
  "cond_propagate PC AC in_degree vlist elist vid = do {
     ac \<leftarrow> vec_at AC vid;
     d \<leftarrow> vec_at in_degree vid;
     if ac < d then Some False
     else do {
       pc \<leftarrow> vec_at PC vid;
       if pc = 0 then Some True
       else do {
         start \<leftarrow> vec_at vlist vid;
         end \<leftarrow> vec_at vlist (vid + 1);
         for_range start end (\<lambda>eid ok. if ok then do {
           dst \<leftarrow> vec_at elist eid;
           p \<leftarrow> vec_at PC dst;
           Some (\<not> pc > p) } else Some False) True
       }
     }
   }"

record fusion_state =
  fu_order :: "int list"
  fu_PC :: "int list"
  fu_AC :: "int list"
  fu_tmp_PC :: "int list"
  fu_tmp_AC :: "int list"
  fu_count :: int
  fu_list :: "int list"

text \<open>The arguments that stay fixed: \<open>in_degree\<close>, \<open>vlist\<close>, \<open>elist\<close>, \<open>vertex_cnt\<close>, \<open>rule_cnt\<close>, \<open>num_p\<close>.\<close>

record fusion_args =
  fa_in_degree :: "int list"
  fa_vlist :: "int list"
  fa_elist :: "int list"
  fa_vertex_cnt :: int
  fa_rule_cnt :: int
  fa_num_p :: int

definition fires :: "fusion_args \<Rightarrow> int \<Rightarrow> int \<Rightarrow> fusion_state \<Rightarrow> bool option" where
  "fires fa step vid st =
     (if step = 0 \<and> vid < fa_vertex_cnt fa then Some True
      else do {
        c \<leftarrow> cond_propagate (fu_PC st) (fu_AC st) (fa_in_degree fa) (fa_vlist fa) (fa_elist fa) vid;
        if c then do { pc \<leftarrow> vec_at (fu_PC st) vid; Some (pc < fa_num_p fa) } else Some False
      })"

definition activate :: "fusion_args \<Rightarrow> int \<Rightarrow> int \<Rightarrow> fusion_state \<Rightarrow> fusion_state option" where
  "activate fa step vid st = do {
     f \<leftarrow> fires fa step vid st;
     if f then do {
       pc \<leftarrow> vec_at (fu_PC st) vid;
       order \<leftarrow> vec_set (fu_order st) (pc * (fa_vertex_cnt fa + fa_rule_cnt fa) + vid) step;
       tmp_PC \<leftarrow> add_at (fu_tmp_PC st) vid 1;
       Some (st\<lparr>fu_list := fu_list st @ [vid], fu_count := fu_count st + 1, fu_order := order, fu_tmp_PC := tmp_PC\<rparr>)
     } else Some st
   }"

definition count_row :: "int list \<Rightarrow> int list \<Rightarrow> int \<Rightarrow> int list \<Rightarrow> int list option" where
  "count_row vlist elist vid tmp_AC = do {
     start \<leftarrow> vec_at vlist vid;
     end \<leftarrow> vec_at vlist (vid + 1);
     for_range start end (\<lambda>eid tmp_AC. do { dst \<leftarrow> vec_at elist eid; add_at tmp_AC dst 1 }) tmp_AC
   }"

definition fusion_round :: "fusion_args \<Rightarrow> int \<Rightarrow> fusion_state \<Rightarrow> fusion_state option" where
  "fusion_round fa step st = do {
     st \<leftarrow> for_range 0 (fa_vertex_cnt fa + fa_rule_cnt fa) (activate fa step) st;
     tmp_AC \<leftarrow> for_each (\<lambda>vid tmp_AC. vec_set tmp_AC vid 0) (fu_list st) (fu_tmp_AC st);
     tmp_AC \<leftarrow> for_each (count_row (fa_vlist fa) (fa_elist fa)) (fu_list st) tmp_AC;
     Some (st\<lparr>fu_list := [], fu_tmp_AC := tmp_AC, fu_AC := tmp_AC, fu_PC := fu_tmp_PC st\<rparr>)
   }"

partial_function (option) fusion_loop :: "fusion_args \<Rightarrow> int \<Rightarrow> fusion_state \<Rightarrow> (int list \<times> int) option" where
  "fusion_loop fa step st =
     (if fu_count st < fa_num_p fa * (fa_vertex_cnt fa + fa_rule_cnt fa) then do {
        st \<leftarrow> fusion_round fa step st;
        step \<leftarrow> i32_arith (step + 1);
        fusion_loop fa step st
      } else Some (fu_order st, step))"

declare fusion_loop.simps [code]

definition fusion_init :: "int \<Rightarrow> int \<Rightarrow> int \<Rightarrow> fusion_state" where
  "fusion_init vertex_cnt rule_cnt num_p = (let zeros = replicate (nat (vertex_cnt + rule_cnt)) 0 in
     \<lparr>fu_order = replicate (nat (num_p * (vertex_cnt + rule_cnt))) INIT, fu_PC = zeros, fu_AC = zeros,
      fu_tmp_PC = zeros, fu_tmp_AC = zeros, fu_count = 0, fu_list = []\<rparr>)"

definition gen_fusion_vertex_order :: "int list \<Rightarrow> int list \<Rightarrow> int \<Rightarrow> int \<Rightarrow> int \<Rightarrow> (int list \<times> int) option" where
  "gen_fusion_vertex_order vlist elist vertex_cnt rule_cnt num_p = do {
     in_degree \<leftarrow> for_range 0 (int (length elist)) (\<lambda>i in_degree. do {
       dst \<leftarrow> vec_at elist i; add_at in_degree dst 1 }) (replicate (nat (vertex_cnt + rule_cnt)) 0);
     fusion_loop \<lparr>fa_in_degree = in_degree, fa_vlist = vlist, fa_elist = elist, fa_vertex_cnt = vertex_cnt,
         fa_rule_cnt = rule_cnt, fa_num_p = num_p\<rparr> 0 (fusion_init vertex_cnt rule_cnt num_p)
   }"

definition fusion_mask_csr :: "int list \<Rightarrow> int list \<Rightarrow> int \<Rightarrow> int \<Rightarrow> int \<Rightarrow> (bool list \<times> int) option" where
  "fusion_mask_csr vlist elist vertex_cnt rule_cnt num_p = do {
     (order, depth) \<leftarrow> gen_fusion_vertex_order vlist elist vertex_cnt rule_cnt num_p;
     let sz = to_i32 (vertex_cnt + rule_cnt);
     total \<leftarrow> i32_arith (sz * depth);
     cells \<leftarrow> i32_arith (sz * num_p);
     mask \<leftarrow> for_range 0 depth (\<lambda>d. for_range 0 cells (\<lambda>s mask. do {
       x \<leftarrow> vec_at order s;
       if x = d then vec_set mask (d * sz + s mod sz) True else Some mask
     })) (replicate (nat total) False);
     Some (mask, depth)
   }"

definition fusion_mask_coo :: "int list \<Rightarrow> int list \<Rightarrow> int \<Rightarrow> int \<Rightarrow> int \<Rightarrow> (bool list \<times> int) option" where
  "fusion_mask_coo vlist elist vertex_cnt rule_cnt num_p = do {
     (order, depth) \<leftarrow> gen_fusion_vertex_order vlist elist vertex_cnt rule_cnt num_p;
     let edge_cnt = int (length elist);
     let sz = vertex_cnt + rule_cnt;
     mask \<leftarrow> for_range 0 depth (\<lambda>d. for_range 0 (sz * num_p) (\<lambda>s mask. do {
       x \<leftarrow> vec_at order s;
       if x = d then do {
         let vid = s mod sz;
         start \<leftarrow> vec_at vlist vid;
         end \<leftarrow> vec_at vlist (vid + 1);
         for_range start end (\<lambda>eid mask. vec_set mask (d * edge_cnt + eid) True) mask
       } else Some mask
     })) (replicate (nat (edge_cnt * depth)) False);
     Some (mask, depth)
   }"

subsection \<open>Counting uses\<close>

lemma add_all_run:
  assumes "\<And>d. d \<in> set ds \<Longrightarrow> 0 \<le> d \<and> d < int (length xs)"
    and "\<And>x. x < length xs \<Longrightarrow> 0 \<le> xs ! x \<and> xs ! x + int (count_list ds (int x)) < 2 ^ 31"
  shows "for_each (\<lambda>d t. add_at t d 1) ds xs = Some (map (\<lambda>x. xs ! x + int (count_list ds (int x))) [0..<length xs])"
proof -
  let ?S = "\<lambda>pre. map (\<lambda>x. xs ! x + int (count_list pre (int x))) [0..<length xs]"
  have "\<exists>t. for_each (\<lambda>d t. add_at t d 1) ds xs = Some t \<and> t = ?S ds"
  proof (rule for_each_rule [where I = "\<lambda>pre t. t = ?S pre"])
    show "xs = ?S []" by (simp add: map_nth)
    fix pre d post t assume split: "ds = pre @ d # post" and t: "t = ?S pre"
    define v where "v = nat d"
    have v: "d = int v" "v < length xs" using assms(1) [of d] split by (auto simp: v_def)
    have "0 \<le> xs ! v" "xs ! v + int (count_list pre (int v)) + 1 < 2 ^ 31" using assms(2) [of v] split v by auto
    then have "add_at t (int v) 1 = Some (t[v := t ! v + 1])" using v t by (intro add_at_Some) auto
    moreover have "t[v := t ! v + 1] = ?S (pre @ [d])"
      using v t by (intro nth_equalityI) (auto simp: nth_list_update)
    ultimately show "\<exists>t'. add_at t d 1 = Some t' \<and> t' = ?S (pre @ [d])" using v by simp
  qed
  then show ?thesis by simp
qed

lemma reset_all_run:
  assumes "\<And>d. d \<in> set ds \<Longrightarrow> 0 \<le> d \<and> d < int (length xs)"
  shows "for_each (\<lambda>d t. vec_set t d 0) ds xs = Some (map (\<lambda>x. if int x \<in> set ds then 0 else xs ! x) [0..<length xs])"
proof -
  let ?S = "\<lambda>pre. map (\<lambda>x. if int x \<in> set pre then 0 else xs ! x) [0..<length xs]"
  have "\<exists>t. for_each (\<lambda>d t. vec_set t d 0) ds xs = Some t \<and> t = ?S ds"
  proof (rule for_each_rule [where I = "\<lambda>pre t. t = ?S pre"])
    show "xs = ?S []" by (simp add: map_nth)
    fix pre d post t assume split: "ds = pre @ d # post" and t: "t = ?S pre"
    define v where "v = nat d"
    have v: "d = int v" "v < length xs" using assms [of d] split by (auto simp: v_def)
    have "t[v := 0] = ?S (pre @ [d])" using v t by (intro nth_equalityI) (auto simp: nth_list_update)
    then show "\<exists>t'. vec_set t d 0 = Some t' \<and> t' = ?S (pre @ [d])" using v t by (simp add: vec_set_nat)
  qed
  then show ?thesis by simp
qed

lemma count_rows_run:
  assumes wf: "wf_csr N vlist elist" and ws: "\<And>w. w \<in> set ws \<Longrightarrow> 0 \<le> w \<and> w < int N"
    and "\<And>d. d \<in> set (concat (map (\<lambda>w. csr_row vlist elist (nat w)) ws)) \<Longrightarrow> 0 \<le> d \<and> d < int (length xs)"
    and "\<And>x. x < length xs \<Longrightarrow> 0 \<le> xs ! x \<and>
      xs ! x + int (count_list (concat (map (\<lambda>w. csr_row vlist elist (nat w)) ws)) (int x)) < 2 ^ 31"
  shows "for_each (count_row vlist elist) ws xs =
    Some (map (\<lambda>x. xs ! x + int (count_list (concat (map (\<lambda>w. csr_row vlist elist (nat w)) ws)) (int x))) [0..<length xs])"
proof -
  have "count_row vlist elist w t = for_each (\<lambda>d t. add_at t d 1) (csr_row vlist elist (nat w)) t" if "w \<in> set ws" for w t
    using csr_row_loop [OF wf, of "nat w" "\<lambda>d t. add_at t d 1" t] ws [OF that] by (simp add: count_row_def nat_less_iff)
  then have "for_each (count_row vlist elist) ws xs = for_each (\<lambda>d t. add_at t d 1) (concat (map (\<lambda>w. csr_row vlist elist (nat w)) ws)) xs"
    by (rule for_each_concat)
  then show ?thesis using add_all_run [OF assms(3,4)] by simp
qed

subsection \<open>One phase\<close>

text \<open>The state before step \<open>k\<close> when every row fires once: the rows of smaller depth have fired.\<close>

definition fired :: "graph \<Rightarrow> nat \<Rightarrow> (nat \<Rightarrow> bool) \<Rightarrow> int list" where
  "fired g n P = map (\<lambda>x. if P x then 1 else 0) [0..<length g]"

definition fired_order :: "graph \<Rightarrow> nat \<Rightarrow> (nat \<Rightarrow> bool) \<Rightarrow> int list" where
  "fired_order g n P = map (\<lambda>x. if P x then int (depth 0 g n x) else INIT) [0..<length g]"

definition uses_fired :: "graph \<Rightarrow> nat \<Rightarrow> nat \<Rightarrow> nat \<Rightarrow> nat" where
  "uses_fired g n k x = pending 0 g n 0 x - pending 0 g n k x"

definition ac_ok :: "graph \<Rightarrow> nat \<Rightarrow> nat \<Rightarrow> int list \<Rightarrow> bool" where
  "ac_ok g n k ac \<longleftrightarrow> length ac = length g \<and> (\<forall>x<length g. 0 \<le> ac ! x \<and> ac ! x \<le> int (uses_fired g n k x) \<and>
     (k \<le> depth 0 g n x \<longrightarrow> ac ! x = int (uses_fired g n k x)))"

definition one_phase :: "graph \<Rightarrow> nat \<Rightarrow> nat \<Rightarrow> int list \<Rightarrow> nat \<Rightarrow> fusion_state" where
  "one_phase g n k ac j = (let P = (\<lambda>x. depth 0 g n x < k \<or> x < j \<and> depth 0 g n x = k) in
     \<lparr>fu_order = fired_order g n P, fu_PC = fired g n (\<lambda>x. depth 0 g n x < k), fu_AC = ac, fu_tmp_PC = fired g n P, fu_tmp_AC = ac,
      fu_count = int (kept_index (\<lambda>x. depth 0 g n x < k) (length g) + kept_index (\<lambda>x. depth 0 g n x = k) j),
      fu_list = map int (filter (\<lambda>x. depth 0 g n x = k) [0..<j])\<rparr>)"

definition one_args :: "graph \<Rightarrow> nat \<Rightarrow> int list \<Rightarrow> int list \<Rightarrow> fusion_args" where
  "one_args g n vlist elist = \<lparr>fa_in_degree = map (\<lambda>x. int (pending 0 g n 0 x)) [0..<length g], fa_vlist = vlist,
     fa_elist = elist, fa_vertex_cnt = int n, fa_rule_cnt = int (length g - n), fa_num_p = 1\<rparr>"

lemma pending_mono: "k \<le> k' \<Longrightarrow> pending lo g n k' x \<le> pending lo g n k x"
  unfolding pending_def by (intro sum_mono2) auto

lemma cond_propagate_returns:
  assumes wf: "wf_csr (length PC) vlist elist" and len: "length AC = length PC" "length in_degree = length PC"
    and el: "\<And>x. x \<in> set elist \<Longrightarrow> 0 \<le> x \<and> x < int (length PC)" and v: "v < length PC"
  shows "\<exists>b. cond_propagate PC AC in_degree vlist elist (int v) = Some b"
proof -
  note at = wf_csr_at [OF wf, of "int v"]
  have "\<exists>b. for_range (vlist ! v) (vlist ! Suc v) (\<lambda>eid ok. if ok then do {
           dst \<leftarrow> vec_at elist eid;
           p \<leftarrow> vec_at PC dst;
           Some (\<not> PC ! v > p) } else Some False) True = Some b \<and> True"
  proof (rule for_range_rule [where I = "\<lambda>_ _. True"])
    fix e ok assume e: "vlist ! v \<le> e" "e < vlist ! Suc v"
    then have "0 \<le> e" "nat e < length elist" using at v by auto
    then show "\<exists>s'. (if ok then do { dst \<leftarrow> vec_at elist e; p \<leftarrow> vec_at PC dst; Some (\<not> PC ! v > p) } else Some False) = Some s' \<and> True"
      using el [of "elist ! nat e"] by (auto simp: vec_at_def)
  qed (use at v in auto)
  then show ?thesis using at v len by (auto simp: cond_propagate_def vec_at_nat)
qed

lemma fires_one_phase:
  assumes wf: "wf_csr N vlist elist" and g: "g = csr_graph N vlist elist" and sound: "sound_rules n g"
    and el: "\<And>x. x \<in> set elist \<Longrightarrow> 0 \<le> x \<and> x < int N" and ac: "ac_ok g n k ac" and x: "x < N"
  shows "fires (one_args g n vlist elist) (int k) (int x) (one_phase g n k ac j) = Some (depth 0 g n x = k)"
proof (cases "k = 0 \<and> x < n")
  case True
  then show ?thesis by (simp add: fires_def one_args_def)
next
  case False
  have len: "length g = N" using g by simp
  have G: "wf_grammar g (int n)" using sound by (simp add: sound_rules_def)
  let ?PC = "fired g n (\<lambda>x. depth 0 g n x < k)" and ?deg = "map (\<lambda>x. int (pending 0 g n 0 x)) [0..<length g]"
  have "length ?PC = N" "length ?deg = N" "length ac = N" using ac len by (auto simp: fired_def ac_ok_def)
  then obtain b where b: "cond_propagate ?PC ac ?deg vlist elist (int x) = Some b"
    using cond_propagate_returns [of ?PC vlist elist ac ?deg x] wf el x by auto
  have pc: "vec_at ?PC (int x) = Some (if depth 0 g n x < k then 1 else 0)" using x len by (simp add: vec_at_nat fired_def)
  have "b \<longleftrightarrow> depth 0 g n x = k" if ge: "k \<le> depth 0 g n x"
  proof -
    have nx: "n \<le> x" using ge False by (cases "x < n") auto
    have acx: "vec_at ac (int x) = Some (int (uses_fired g n k x))" "vec_at ?deg (int x) = Some (int (pending 0 g n 0 x))"
      using ac x len ge by (auto simp: ac_ok_def vec_at_nat)
    have "0 < depth 0 g n x"
      using depth_pos_iff [OF G nx, of 0] sound x len nx by (auto simp: sound_rules_def users_def)
    then have "pending 0 g n 0 x \<noteq> 0" using pending_zero_iff [OF G nx, of 0 0] by simp
    then have "int (uses_fired g n k x) < int (pending 0 g n 0 x) \<longleftrightarrow> pending 0 g n k x \<noteq> 0"
      using pending_mono [of 0 k 0 g n x] by (auto simp: uses_fired_def)
    then have "int (uses_fired g n k x) < int (pending 0 g n 0 x) \<longleftrightarrow> depth 0 g n x \<noteq> k"
      using pending_zero_iff [OF G nx, of 0 k] ge by auto
    then show ?thesis using b acx pc ge by (auto simp: cond_propagate_def)
  qed
  then show ?thesis
    using b pc False by (auto simp: fires_def one_args_def one_phase_def Let_def)
qed

lemma activations_run:
  assumes wf: "wf_csr N vlist elist" and g: "g = csr_graph N vlist elist" and sound: "sound_rules n g"
    and el: "\<And>x. x \<in> set elist \<Longrightarrow> 0 \<le> x \<and> x < int N" and ac: "ac_ok g n k ac"
  shows "for_range 0 (int N) (activate (one_args g n vlist elist) (int k)) (one_phase g n k ac 0) = Some (one_phase g n k ac N)"
proof (rule for_range_nat_eq)
  fix j assume j: "j < N"
  have len: "length g = N" "n \<le> N" using g sound by (auto simp: sound_rules_def wf_grammar_def)
  let ?P = "\<lambda>j x. depth 0 g n x < k \<or> x < j \<and> depth 0 g n x = k"
  note f = fires_one_phase [OF wf g sound el ac j, of j]
  show "activate (one_args g n vlist elist) (int k) (int j) (one_phase g n k ac j) = Some (one_phase g n k ac (Suc j))"
  proof (cases "depth 0 g n j = k")
    case False
    then have "?P (Suc j) = ?P j" by (auto simp: fun_eq_iff less_Suc_eq)
    then show ?thesis using f False by (simp add: activate_def one_phase_def kept_index_Suc)
  next
    case True
    have pc: "vec_at (fu_PC (one_phase g n k ac j)) (int j) = Some 0"
      using j len True by (simp add: one_phase_def Let_def vec_at_nat fired_def)
    have "vec_set (fired_order g n (?P j)) (int j) (int k) = Some (fired_order g n (?P (Suc j)))"
      using j len True by (auto simp: vec_set_def fired_order_def nth_list_update less_Suc_eq intro!: nth_equalityI)
    moreover have "add_at (fired g n (?P j)) (int j) 1 = Some ((fired g n (?P j))[j := fired g n (?P j) ! j + 1])"
      using j len True by (intro add_at_Some) (simp_all add: fired_def)
    moreover have "(fired g n (?P j))[j := fired g n (?P j) ! j + 1] = fired g n (?P (Suc j))"
      using j len True by (intro nth_equalityI) (auto simp: fired_def nth_list_update less_Suc_eq)
    ultimately show ?thesis
      using f True pc len by (simp add: activate_def one_phase_def Let_def one_args_def kept_index_Suc of_nat_diff)
  qed
qed

lemma fusion_round_run:
  assumes wf: "wf_csr N vlist elist" and g: "g = csr_graph N vlist elist" and sound: "sound_rules n g"
    and el: "\<And>x. x \<in> set elist \<Longrightarrow> 0 \<le> x \<and> x < int N" and ac: "ac_ok g n k ac" and fits: "length (concat g) < 2 ^ 31"
  shows "\<exists>ac'. fusion_round (one_args g n vlist elist) (int k) (one_phase g n k ac 0) = Some (one_phase g n (Suc k) ac' 0) \<and>
    ac_ok g n (Suc k) ac'"
proof -
  have len: "length g = N" "n \<le> N" "length ac = N" using g sound ac by (auto simp: sound_rules_def wf_grammar_def ac_ok_def)
  let ?ws = "map int (filter (\<lambda>x. depth 0 g n x = k) [0..<N])"
  let ?ds = "concat (map (\<lambda>w. csr_row vlist elist (nat w)) ?ws)"
  let ?ac1 = "map (\<lambda>x. if int x \<in> set ?ws then 0 else ac ! x) [0..<N]"
  let ?ac2 = "map (\<lambda>x. ?ac1 ! x + int (count_list ?ds (int x))) [0..<N]"
  have lvl: "level_list 0 g n k ?ws" using len by (auto simp: level_list_def distinct_map)
  have ds: "?ds = concat (map (\<lambda>w. g ! nat w) ?ws)" using g by (intro arg_cong [of _ _ concat]) simp
  have split: "pending 0 g n k x = count_list ?ds (int x) + pending 0 g n (Suc k) x" for x
    using pending_Suc [OF lvl] ds by simp
  have uses: "uses_fired g n k x + count_list ?ds (int x) = uses_fired g n (Suc k) x" for x
    using split [of x] pending_mono [of 0 k 0 g n x] pending_mono [of k "Suc k" 0 g n x] by (simp add: uses_fired_def)
  have fits': "int (uses_fired g n (Suc k) x) < 2 ^ 31" for x
  proof -
    have "uses_fired g n (Suc k) x \<le> length (concat g)" using pending_le [of 0 g n 0 x] by (simp add: uses_fired_def)
    then show ?thesis using fits by (meson le_less_trans of_nat_less_numeral_power_cancel_iff)
  qed
  have reset: "for_each (\<lambda>d t. vec_set t d 0) ?ws ac = Some ?ac1"
    using reset_all_run [of ?ws ac] len by fastforce
  have bound: "0 \<le> ?ac1 ! x \<and> ?ac1 ! x + int (count_list ?ds (int x)) \<le> int (uses_fired g n (Suc k) x)" if "x < N" for x
    using ac that len uses [of x] by (auto simp: ac_ok_def simp flip: uses)
  have "for_each (count_row vlist elist) ?ws ?ac1 =
      Some (map (\<lambda>x. ?ac1 ! x + int (count_list ?ds (int x))) [0..<length ?ac1])"
  proof (rule count_rows_run [OF wf])
    fix d assume "d \<in> set ?ds"
    then have "d \<in> set elist" using set_slice by (fastforce simp: csr_row_def)
    then show "0 \<le> d \<and> d < int (length ?ac1)" using el by simp
  next
    fix x assume "x < length ?ac1"
    then show "0 \<le> ?ac1 ! x \<and> ?ac1 ! x + int (count_list ?ds (int x)) < 2 ^ 31"
      using bound [of x] fits' [of x] by auto
  qed auto
  then have add: "for_each (count_row vlist elist) ?ws ?ac1 = Some ?ac2" by simp
  have "ac_ok g n (Suc k) ?ac2"
    unfolding ac_ok_def
  proof (intro conjI allI impI)
    fix x assume x: "x < length g"
    then show "0 \<le> ?ac2 ! x" "?ac2 ! x \<le> int (uses_fired g n (Suc k) x)" using bound [of x] len by simp_all
    assume "Suc k \<le> depth 0 g n x"
    then show "?ac2 ! x = int (uses_fired g n (Suc k) x)" using x ac len uses [of x] by (auto simp: ac_ok_def)
  qed (simp add: len)
  moreover have P: "(\<lambda>x. depth 0 g n x < Suc k \<or> x < 0 \<and> depth 0 g n x = Suc k) = (\<lambda>x. depth 0 g n x < Suc k)" by auto
  have "fired g n (\<lambda>x. depth 0 g n x < k \<or> x < N \<and> depth 0 g n x = k) = fired g n (\<lambda>x. depth 0 g n x < Suc k)"
    "fired_order g n (\<lambda>x. depth 0 g n x < k \<or> x < N \<and> depth 0 g n x = k) = fired_order g n (\<lambda>x. depth 0 g n x < Suc k)"
    using len by (auto simp: fired_def fired_order_def)
  moreover have "kept_index (\<lambda>x. depth 0 g n x < k) j + kept_index (\<lambda>x. depth 0 g n x = k) j = kept_index (\<lambda>x. depth 0 g n x < Suc k) j" for j
    by (induction j) (auto simp: kept_index_Suc)
  ultimately have "one_phase g n k ac N\<lparr>fu_list := [], fu_tmp_AC := ?ac2, fu_AC := ?ac2, fu_PC := fu_tmp_PC (one_phase g n k ac N)\<rparr>
      = one_phase g n (Suc k) ?ac2 0" "ac_ok g n (Suc k) ?ac2"
    using len by (simp_all add: one_phase_def Let_def)
  moreover have "fu_list (one_phase g n k ac N) = ?ws" "fu_tmp_AC (one_phase g n k ac N) = ac" by (simp_all add: one_phase_def Let_def)
  ultimately show ?thesis
    using activations_run [OF wf g sound el ac] reset add len
    by (intro exI [of _ ?ac2]) (simp add: fusion_round_def one_args_def of_nat_diff)
qed

lemma kept_index_full: "kept_index P k = k \<longleftrightarrow> (\<forall>x<k. P x)"
  using length_filter_less [of _ "[0..<k]" P] kept_index_all [of k P] by (fastforce simp: kept_index_def)

lemma fusion_loop_run:
  assumes wf: "wf_csr N vlist elist" and g: "g = csr_graph N vlist elist" and sound: "sound_rules n g"
    and el: "\<And>x. x \<in> set elist \<Longrightarrow> 0 \<le> x \<and> x < int N" and fits: "length (concat g) < 2 ^ 31" "levels 0 g n < 100000"
    and "k \<le> levels 0 g n" "ac_ok g n k ac"
  shows "fusion_loop (one_args g n vlist elist) (int k) (one_phase g n k ac 0)
    = Some (map (\<lambda>x. int (depth 0 g n x)) [0..<N], int (levels 0 g n))"
  using assms(7,8)
proof (induction "levels 0 g n - k" arbitrary: k ac)
  case 0
  have len: "length g = N" "n \<le> N" using g sound by (auto simp: sound_rules_def wf_grammar_def)
  have k: "k = levels 0 g n" using 0 by simp
  then have "depth 0 g n x < k" if "x < N" for x using that len depth_less_levels [of 0 x g n] by simp
  then have "kept_index (\<lambda>x. depth 0 g n x < k) N = N" "fired_order g n (\<lambda>x. depth 0 g n x < k) = map (\<lambda>x. int (depth 0 g n x)) [0..<N]"
    using len by (auto simp: kept_index_full fired_order_def)
  then show ?case using k len by (subst fusion_loop.simps) (simp add: one_phase_def one_args_def of_nat_diff Let_def)
next
  case (Suc m)
  have len: "length g = N" "n \<le> N" using g sound by (auto simp: sound_rules_def wf_grammar_def)
  have k: "k < levels 0 g n" using Suc by simp
  have G: "wf_grammar g (int n)" using sound by (simp add: sound_rules_def)
  obtain x where "x < N" "depth 0 g n x = k" using level_inhabited [OF G k] len by auto
  then have "kept_index (\<lambda>x. depth 0 g n x < k) N \<noteq> N" by (auto simp: kept_index_full)
  moreover have "kept_index (\<lambda>x. depth 0 g n x < k) N \<le> N"
    using length_filter_le [of "\<lambda>x. depth 0 g n x < k" "[0..<N]"] by (simp add: kept_index_def)
  ultimately have "fu_count (one_phase g n k ac 0) < fa_num_p (one_args g n vlist elist) *
      (fa_vertex_cnt (one_args g n vlist elist) + fa_rule_cnt (one_args g n vlist elist))"
    using len by (simp add: one_phase_def one_args_def Let_def of_nat_diff)
  moreover obtain ac' where "fusion_round (one_args g n vlist elist) (int k) (one_phase g n k ac 0) = Some (one_phase g n (Suc k) ac' 0)"
    "ac_ok g n (Suc k) ac'"
    using fusion_round_run [OF wf g sound el Suc.prems(2) fits(1)] by blast
  moreover have "int k + 1 < 2 ^ 31" using k fits(2) by simp
  moreover have "m = levels 0 g n - Suc k" "Suc k \<le> levels 0 g n" using Suc.hyps(2) by simp_all
  ultimately show ?case
    using Suc.hyps(1) [of "Suc k" ac'] by (subst fusion_loop.simps) (simp add: add.commute)
qed

lemma fusion_one_phase_order:
  assumes full: "full_csr (n + r) vlist elist" and sound: "sound_rules n (csr_graph (n + r) vlist elist)"
    and fits: "length elist < 2 ^ 31" "levels 0 (csr_graph (n + r) vlist elist) n < 100000"
  shows "gen_fusion_vertex_order vlist elist (int n) (int r) 1 =
    Some (map (\<lambda>x. int (depth 0 (csr_graph (n + r) vlist elist) n x)) [0..<n + r],
      int (levels 0 (csr_graph (n + r) vlist elist) n))"
proof -
  define g where "g = csr_graph (n + r) vlist elist"
  have wf: "wf_csr (n + r) vlist elist" and con: "concat g = elist" and len: "length g = n + r"
    using full full_csr_concat [OF full] by (auto simp: full_csr_def g_def)
  have S: "sound_rules n g" and G: "wf_grammar g (int n)" using sound by (simp_all add: g_def sound_rules_def)
  have el: "0 \<le> x \<and> x < int (n + r)" if "x \<in> set elist" for x
    using that con wf_grammar_row [OF G] len by (metis UN_E in_set_conv_nth set_concat)
  have "for_range 0 (int (length elist)) (\<lambda>i in_degree. do { dst \<leftarrow> vec_at elist i; add_at in_degree dst 1 }) (replicate (n + r) 0)
      = for_each (\<lambda>d t. add_at t d 1) elist (replicate (n + r) 0)"
    using for_range_slice [of 0 "length elist" elist "\<lambda>d t. add_at t d 1"] by simp
  also have "\<dots> = Some (map (\<lambda>x. replicate (n + r) 0 ! x + int (count_list elist (int x))) [0..<length (replicate (n + r) (0 :: int))])"
  proof (rule add_all_run)
    fix x assume x: "x < length (replicate (n + r) (0 :: int))"
    have "int (count_list elist (int x)) < 2 ^ 31"
      using count_le_length [of elist "int x"] fits(1) by (meson le_less_trans of_nat_less_numeral_power_cancel_iff)
    then show "0 \<le> replicate (n + r) (0 :: int) ! x \<and> replicate (n + r) 0 ! x + int (count_list elist (int x)) < 2 ^ 31"
      using x by simp
  qed (use el in auto)
  also have "map (\<lambda>x. replicate (n + r) 0 ! x + int (count_list elist (int x))) [0..<length (replicate (n + r) (0 :: int))]
      = map (\<lambda>x. int (pending 0 g n 0 x)) [0..<n + r]"
    using con by (simp add: pending_0)
  finally have deg: "for_range 0 (int (length elist)) (\<lambda>i in_degree. do { dst \<leftarrow> vec_at elist i; add_at in_degree dst 1 }) (replicate (n + r) 0)
      = Some (map (\<lambda>x. int (pending 0 g n 0 x)) [0..<n + r])" .
  have "fusion_init (int n) (int r) 1 = one_phase g n 0 (replicate (n + r) 0) 0"
    using len by (auto simp: fusion_init_def one_phase_def Let_def fired_def fired_order_def kept_index_def map_replicate_const)
  moreover have "ac_ok g n 0 (replicate (n + r) 0)" using len by (simp add: ac_ok_def uses_fired_def)
  ultimately have "fusion_loop (one_args g n vlist elist) 0 (fusion_init (int n) (int r) 1)
      = Some (map (\<lambda>x. int (depth 0 g n x)) [0..<n + r], int (levels 0 g n))"
    using fusion_loop_run [OF wf g_def S el _ _ le0, of "replicate (n + r) 0"] fits con by (simp add: g_def)
  moreover have "one_args g n vlist elist = \<lparr>fa_in_degree = map (\<lambda>x. int (pending 0 g n 0 x)) [0..<n + r], fa_vlist = vlist,
      fa_elist = elist, fa_vertex_cnt = int n, fa_rule_cnt = int r, fa_num_p = 1\<rparr>"
    using len by (simp add: one_args_def)
  ultimately show ?thesis using deg by (simp add: gen_fusion_vertex_order_def g_def)
qed



subsection \<open>The masks\<close>

lemma cell_index:
  fixes sz :: nat
  assumes "v < sz" "w < sz"
  shows "p * sz + v = q * sz + w \<longleftrightarrow> p = q \<and> v = w"
proof
  assume eq: "p * sz + v = q * sz + w"
  then have "(p * sz + v) div sz = (q * sz + w) div sz" "(p * sz + v) mod sz = (q * sz + w) mod sz" by simp_all
  then show "p = q \<and> v = w" using assms by simp
qed simp

lemma fused_mask_run:
  assumes len: "length order = cells" and sz: "0 < sz"
  shows "\<exists>mask. for_range 0 (int m) (\<lambda>d. for_range 0 (int cells) (\<lambda>s mask. do {
       x \<leftarrow> vec_at order s;
       if x = d then vec_set mask (d * int sz + s mod int sz) True else Some mask })) (replicate (sz * m) False) = Some mask \<and>
    length mask = sz * m \<and>
    (\<forall>d<m. \<forall>v<sz. mask ! (d * sz + v) \<longleftrightarrow> (\<exists>c<cells. c mod sz = v \<and> order ! c = int d))"
proof -
  let ?M = "\<lambda>D mask. length mask = sz * m \<and>
    (\<forall>d<m. \<forall>v<sz. mask ! (d * sz + v) \<longleftrightarrow> (\<exists>c. D d c \<and> c < cells \<and> c mod sz = v \<and> order ! c = int d))"
  let ?body = "\<lambda>d s mask. do { x \<leftarrow> vec_at order s; if x = d then vec_set mask (d * int sz + s mod int sz) True else Some mask }"
  have "\<exists>mask. for_range 0 (int m) (\<lambda>d. for_range 0 (int cells) (?body d)) (replicate (sz * m) False) = Some mask \<and> ?M (\<lambda>d c. d < m) mask"
  proof (rule for_range_nat_rule [where I = "\<lambda>j. ?M (\<lambda>d c. d < j)"])
    have "d * sz + v < sz * m" if "d < m" "v < sz" for d v
      using that mult_le_mono1 [of "Suc d" m sz] by (simp add: mult.commute)
    then show "?M (\<lambda>d c. d < 0) (replicate (sz * m) False)" by simp
  next
    fix j mask assume j: "j < m" and I: "?M (\<lambda>d c. d < j) mask"
    have "\<exists>mask'. for_range 0 (int cells) (?body (int j)) mask = Some mask' \<and> ?M (\<lambda>d c. d < j \<or> d = j \<and> c < cells) mask'"
    proof (rule for_range_nat_rule [where I = "\<lambda>s. ?M (\<lambda>d c. d < j \<or> d = j \<and> c < s)"])
      fix s mask assume s: "s < cells" and I: "?M (\<lambda>d c. d < j \<or> d = j \<and> c < s) mask"
      have at: "vec_at order (int s) = Some (order ! s)" using s len by (simp add: vec_at_nat)
      have eq: "(d < j \<or> d = j \<and> c < Suc s) \<and> c < cells \<and> c mod sz = v \<and> order ! c = int d \<longleftrightarrow>
          (d < j \<or> d = j \<and> c < s) \<and> c < cells \<and> c mod sz = v \<and> order ! c = int d \<or>
          d = j \<and> c = s \<and> s mod sz = v \<and> order ! s = int j" for d c v using s by (auto simp: less_Suc_eq)
      show "\<exists>mask'. ?body (int j) (int s) mask = Some mask' \<and> ?M (\<lambda>d c. d < j \<or> d = j \<and> c < Suc s) mask'"
      proof (cases "order ! s = int j")
        case False
        then show ?thesis using at I by (simp add: eq)
      next
        case True
        let ?q = "j * sz + s mod sz"
        have q: "?q < sz * m" using j sz mult_le_mono1 [of "Suc j" m sz] mod_less_divisor [OF sz, of s] by (simp add: mult.commute)
        have "int j * int sz + int s mod int sz = int ?q" by (simp add: zmod_int)
        then have "?body (int j) (int s) mask = Some (mask[?q := True])"
          using at True q I by (simp add: vec_set_nat del: of_nat_add of_nat_mult)
        moreover have "mask[?q := True] ! (d * sz + v) \<longleftrightarrow> mask ! (d * sz + v) \<or> d = j \<and> s mod sz = v" if "d < m" "v < sz" for d v
          using that q I cell_index [of v sz "s mod sz" d j] sz by (auto simp: nth_list_update)
        ultimately show ?thesis using I True by (auto simp: eq)
      qed
    qed (use I in auto)
    then show "\<exists>mask'. for_range 0 (int cells) (?body (int j)) mask = Some mask' \<and> ?M (\<lambda>d c. d < Suc j) mask'"
      by (auto simp: less_Suc_eq)
  qed
  then show ?thesis by auto
qed

lemma fusion_mask_one_phase:
  assumes "full_csr (n + r) vlist elist" and "sound_rules n (csr_graph (n + r) vlist elist)"
    and "length elist < 2 ^ 31" "levels 0 (csr_graph (n + r) vlist elist) n < 100000"
    and "(n + r) * levels 0 (csr_graph (n + r) vlist elist) n < 2 ^ 31" "0 < n + r" "n + r < 2 ^ 31"
  shows "\<exists>mask. fusion_mask_csr vlist elist (int n) (int r) 1 = Some (mask, int (levels 0 (csr_graph (n + r) vlist elist) n)) \<and>
    (\<forall>d<levels 0 (csr_graph (n + r) vlist elist) n. \<forall>v<n + r.
       mask ! (d * (n + r) + v) \<longleftrightarrow> depth 0 (csr_graph (n + r) vlist elist) n v = d)"
proof -
  define g where "g = csr_graph (n + r) vlist elist"
  define sz lv where "sz = n + r" and "lv = levels 0 g n"
  let ?order = "map (\<lambda>x. int (depth 0 g n x)) [0..<sz]"
  have ord: "gen_fusion_vertex_order vlist elist (int n) (int r) 1 = Some (?order, int lv)"
    using fusion_one_phase_order [OF assms(1-4)] by (simp add: g_def sz_def lv_def)
  have "int (sz * lv) < 2 ^ 31" "int sz < 2 ^ 31"
    using assms(5,7) unfolding sz_def lv_def g_def by (simp_all only: of_nat_less_numeral_power_cancel_iff)
  then have i32: "i32_arith (int (sz * lv)) = Some (int (sz * lv))" "i32_arith (int sz) = Some (int sz)" "to_i32 (int sz) = int sz"
    using of_nat_0_le_iff [of "sz * lv"] by (auto intro!: i32_arith_Some to_i32_id simp del: of_nat_mult)
  obtain mask where mask: "for_range 0 (int lv) (\<lambda>d. for_range 0 (int sz) (\<lambda>s mask. do {
       x \<leftarrow> vec_at ?order s;
       if x = d then vec_set mask (d * int sz + s mod int sz) True else Some mask })) (replicate (sz * lv) False) = Some mask"
    "\<forall>d<lv. \<forall>v<sz. mask ! (d * sz + v) \<longleftrightarrow> (\<exists>c<sz. c mod sz = v \<and> ?order ! c = int d)"
    using fused_mask_run [of ?order sz sz lv] assms(6) by (auto simp: sz_def)
  have nsz: "int n + int r = int sz" "nat (int sz * int lv) = sz * lv" by (simp_all add: sz_def nat_mult_distrib)
  have "fusion_mask_csr vlist elist (int n) (int r) 1 = Some (mask, int lv)"
    using ord i32 mask(1) nsz by (simp add: fusion_mask_csr_def)
  moreover have "(\<exists>c<sz. c mod sz = v \<and> ?order ! c = int d) \<longleftrightarrow> depth 0 g n v = d" if "v < sz" for v d
    using that by auto
  ultimately show ?thesis using mask(2) by (auto simp: g_def sz_def lv_def)
qed

subsection \<open>Any number of phases\<close>

text \<open>The states between the steps of the loop.\<close>

inductive fusion_reach :: "fusion_args \<Rightarrow> nat \<Rightarrow> fusion_state \<Rightarrow> bool" for fa where
  start: "fusion_reach fa 0 (fusion_init (fa_vertex_cnt fa) (fa_rule_cnt fa) (fa_num_p fa))"
| round: "fusion_reach fa k st \<Longrightarrow> fu_count st < fa_num_p fa * (fa_vertex_cnt fa + fa_rule_cnt fa) \<Longrightarrow>
    fusion_round fa (int k) st = Some st' \<Longrightarrow> fusion_reach fa (Suc k) st'"

text \<open>
  The cells of row \<open>v\<close>: phase \<open>p\<close> has a step below \<open>k\<close>, later than that of the phase before, if the
  row fired more than \<open>p\<close> times, and none otherwise.
\<close>

definition cells_ok :: "nat \<Rightarrow> nat \<Rightarrow> nat \<Rightarrow> int list \<Rightarrow> int list \<Rightarrow> nat \<Rightarrow> bool" where
  "cells_ok sz P k pcs order v \<longleftrightarrow> 0 \<le> pcs ! v \<and> pcs ! v \<le> int P \<and> (\<forall>p<P. if int p < pcs ! v
     then 0 \<le> order ! (p * sz + v) \<and> order ! (p * sz + v) < int k \<and>
       (0 < p \<longrightarrow> order ! ((p - 1) * sz + v) < order ! (p * sz + v))
     else order ! (p * sz + v) = INIT)"

definition fusion_inv :: "nat \<Rightarrow> nat \<Rightarrow> nat \<Rightarrow> fusion_state \<Rightarrow> bool" where
  "fusion_inv sz P k st \<longleftrightarrow> length (fu_PC st) = sz \<and> fu_tmp_PC st = fu_PC st \<and> length (fu_order st) = P * sz \<and>
     fu_list st = [] \<and> fu_count st = sum_list (fu_PC st) \<and> (\<forall>v<sz. cells_ok sz P k (fu_PC st) (fu_order st) v) \<and>
     (k = 0 \<longrightarrow> (\<forall>v<sz. fu_PC st ! v = 0))"

lemma for_range_partial:
  assumes "for_range 0 (int m) f s = Some s'" "I 0 s"
    and "\<And>j s s'. j < m \<Longrightarrow> I j s \<Longrightarrow> f (int j) s = Some s' \<Longrightarrow> I (Suc j) s'"
  shows "I m s'"
proof -
  have "for_each (\<lambda>j. f (int j)) [lo..<m] t = Some s' \<Longrightarrow> I lo t \<Longrightarrow> lo \<le> m \<Longrightarrow> I m s'" for lo t
  proof (induction "m - lo" arbitrary: lo t)
    case (Suc d)
    then have "lo < m" by simp
    then obtain t' where "f (int lo) t = Some t'" "for_each (\<lambda>j. f (int j)) [Suc lo..<m] t' = Some s'"
      using Suc.prems(1) by (auto simp: upt_conv_Cons bind_eq_Some_conv)
    then show ?case using Suc.hyps(1) [of "Suc lo" t'] Suc.hyps(2) Suc.prems(2) assms(3) \<open>lo < m\<close> by auto
  qed simp
  then show ?thesis using assms(1,2) for_range_for_each [of 0 m f s] by simp
qed

lemma cells_okD:
  assumes "cells_ok sz P k pcs order v"
  shows "0 \<le> pcs ! v" "pcs ! v \<le> int P"
    "p < P \<Longrightarrow> int p < pcs ! v \<Longrightarrow> 0 \<le> order ! (p * sz + v)" "p < P \<Longrightarrow> int p < pcs ! v \<Longrightarrow> order ! (p * sz + v) < int k"
    "p < P \<Longrightarrow> int p < pcs ! v \<Longrightarrow> 0 < p \<Longrightarrow> order ! ((p - 1) * sz + v) < order ! (p * sz + v)"
    "p < P \<Longrightarrow> \<not> int p < pcs ! v \<Longrightarrow> order ! (p * sz + v) = INIT"
  using assms unfolding cells_ok_def by presburger+

lemma cells_okI:
  assumes "0 \<le> pcs ! v" "pcs ! v \<le> int P"
    and "\<And>p. p < P \<Longrightarrow> int p < pcs ! v \<Longrightarrow> 0 \<le> order ! (p * sz + v) \<and> order ! (p * sz + v) < int k \<and>
       (0 < p \<longrightarrow> order ! ((p - 1) * sz + v) < order ! (p * sz + v))"
    and "\<And>p. p < P \<Longrightarrow> \<not> int p < pcs ! v \<Longrightarrow> order ! (p * sz + v) = INIT"
  shows "cells_ok sz P k pcs order v"
  using assms by (simp add: cells_ok_def)

lemma cells_ok_mono:
  assumes "cells_ok sz P k pcs order v" "k \<le> k'"
  shows "cells_ok sz P k' pcs order v"
proof -
  have "order ! (p * sz + v) < int k'" if "p < P" "int p < pcs ! v" for p
    using cells_okD(4) [OF assms(1) that] assms(2) by linarith
  then show ?thesis using cells_okD [OF assms(1)] by (intro cells_okI) auto
qed

lemma cells_ok_other:
  assumes "cells_ok sz P k pcs order v" "v < sz" "j < sz" "v \<noteq> j"
  shows "cells_ok sz P k (pcs[j := x]) (order[q * sz + j := y]) v"
proof -
  have at: "order[q * sz + j := y] ! (p * sz + v) = order ! (p * sz + v)" for p
    using assms(2-4) by (simp add: cell_index)
  have pc: "pcs[j := x] ! v = pcs ! v" using assms(4) by simp
  show ?thesis using assms(1) unfolding cells_ok_def at pc .
qed

lemma cells_ok_fire:
  assumes C: "cells_ok sz P k pcs order j" and j: "j < sz" "length pcs = sz" "length order = P * sz"
    and pc: "pcs ! j = int q" "q < P"
  shows "cells_ok sz P (Suc k) (pcs[j := pcs ! j + 1]) (order[q * sz + j := int k]) j"
proof (rule cells_okI)
  have "Suc q * sz \<le> P * sz" using pc(2) by (intro mult_le_mono1) simp
  then have len: "q * sz + j < length order" using j(1,3) by simp
  let ?o = "order[q * sz + j := int k]"
  have at: "?o ! (p * sz + j) = (if p = q then int k else order ! (p * sz + j))" for p
    using len j(1) by (simp add: nth_list_update cell_index)
  show "0 \<le> pcs[j := pcs ! j + 1] ! j" "pcs[j := pcs ! j + 1] ! j \<le> int P" using pc j by simp_all
  fix p assume p: "p < P"
  show "?o ! (p * sz + j) = INIT" if "\<not> int p < pcs[j := pcs ! j + 1] ! j"
    using that cells_okD(6) [OF C p] pc j by (simp add: at)
  assume "int p < pcs[j := pcs ! j + 1] ! j"
  then have le: "p \<le> q" using pc j by simp
  have lt: "0 \<le> order ! (i * sz + j)" "order ! (i * sz + j) < int k" if "i < q" for i
    using that cells_okD(3,4) [OF C, of i] pc by auto
  have "?o ! ((p - 1) * sz + j) < ?o ! (p * sz + j)" if "0 < p"
    using that le lt(2) [of "p - 1"] cells_okD(5) [OF C p] pc unfolding at by auto
  then show "0 \<le> ?o ! (p * sz + j) \<and> ?o ! (p * sz + j) < int (Suc k) \<and> (0 < p \<longrightarrow> ?o ! ((p - 1) * sz + j) < ?o ! (p * sz + j))"
    using le lt [of p] unfolding at by auto
qed

text \<open>Midway through a step: the first \<open>j\<close> rows were visited.\<close>

definition round_inv :: "nat \<Rightarrow> nat \<Rightarrow> nat \<Rightarrow> int list \<Rightarrow> nat \<Rightarrow> fusion_state \<Rightarrow> bool" where
  "round_inv sz P k PC j st \<longleftrightarrow> fu_PC st = PC \<and> length (fu_tmp_PC st) = sz \<and> length (fu_order st) = P * sz \<and>
     fu_count st = sum_list (fu_tmp_PC st) \<and> (\<forall>v<sz. cells_ok sz P (Suc k) (fu_tmp_PC st) (fu_order st) v) \<and>
     (\<forall>v<sz. j \<le> v \<longrightarrow> fu_tmp_PC st ! v = PC ! v \<and> cells_ok sz P k (fu_tmp_PC st) (fu_order st) v)"

lemma sum_list_incr: "j < length xs \<Longrightarrow> sum_list (xs[j := xs ! j + 1]) = sum_list xs + (1 :: int)"
  by (induction xs arbitrary: j) (auto split: nat.splits)

lemma activate_inv:
  assumes I: "round_inv sz P k PC j st" and j: "j < sz" and fa: "fa_vertex_cnt fa + fa_rule_cnt fa = int sz" "fa_num_p fa = int P"
    and first: "k = 0 \<Longrightarrow> PC ! j < int P" and PC: "length PC = sz" and run: "activate fa (int k) (int j) st = Some st'"
  shows "round_inv sz P k PC (Suc j) st'"
proof -
  have cells: "cells_ok sz P k (fu_tmp_PC st) (fu_order st) j" "fu_tmp_PC st ! j = PC ! j"
    using I j by (auto simp: round_inv_def)
  obtain f where f: "fires fa (int k) (int j) st = Some f"
    using run by (auto simp: activate_def bind_eq_Some_conv)
  show ?thesis
  proof (cases f)
    case False
    then have "st' = st" using run f by (simp add: activate_def)
    then show ?thesis using I by (auto simp: round_inv_def)
  next
    case True
    have pc: "vec_at (fu_PC st) (int j) = Some (PC ! j)" using I j PC by (simp add: round_inv_def vec_at_nat)
    have "PC ! j < int P"
      using f True first pc fa(2) by (auto simp: fires_def bind_eq_Some_conv split: if_splits)
    then obtain q where q: "PC ! j = int q" "q < P"
      using cells_okD(1) [OF cells(1)] cells(2) by (metis nonneg_int_cases of_nat_less_iff)
    have idx: "nat (int q * int sz + int j) = q * sz + j" by (metis nat_int of_nat_add of_nat_mult)
    obtain order tmp where o: "vec_set (fu_order st) (PC ! j * int sz + int j) (int k) = Some order"
      and t: "add_at (fu_tmp_PC st) (int j) 1 = Some tmp"
      and st': "st' = st\<lparr>fu_list := fu_list st @ [int j], fu_count := fu_count st + 1, fu_order := order, fu_tmp_PC := tmp\<rparr>"
      using run f True pc fa(1) by (auto simp: activate_def bind_eq_Some_conv)
    have order: "order = (fu_order st)[q * sz + j := int k]"
      using o q idx by (auto simp: vec_set_def split: if_splits)
    have tmp: "tmp = (fu_tmp_PC st)[j := fu_tmp_PC st ! j + 1]"
      using t by (auto simp: add_at_def vec_at_def vec_set_def i32_arith_def bind_eq_Some_conv split: if_splits)
    have len: "length (fu_tmp_PC st) = sz" "length (fu_order st) = P * sz" using I by (auto simp: round_inv_def)
    have "sum_list tmp = sum_list (fu_tmp_PC st) + 1"
      using j len by (simp add: tmp sum_list_incr)
    moreover have "cells_ok sz P (Suc k) tmp order j"
      unfolding tmp order using cells q by (intro cells_ok_fire [OF cells(1) j len]) auto
    moreover have "cells_ok sz P (Suc k) tmp order v" if "v < sz" "v \<noteq> j" for v
      using I that cells_ok_other [of sz P "Suc k" "fu_tmp_PC st" "fu_order st" v j] j by (auto simp: round_inv_def tmp order)
    moreover have "cells_ok sz P k tmp order v" if "v < sz" "Suc j \<le> v" for v
      using I that cells_ok_other [of sz P k "fu_tmp_PC st" "fu_order st" v j] j by (auto simp: round_inv_def tmp order)
    ultimately show ?thesis
      using I len st' j by (auto simp: round_inv_def tmp order nth_list_update)
  qed
qed

lemma fusion_round_inv:
  assumes I: "fusion_inv sz P k st" and fa: "fa_vertex_cnt fa + fa_rule_cnt fa = int sz" "fa_num_p fa = int P" and P: "0 < P"
    and run: "fusion_round fa (int k) st = Some st'"
  shows "fusion_inv sz P (Suc k) st'"
proof -
  obtain st1 ac where st1: "for_range 0 (int sz) (activate fa (int k)) st = Some st1"
    and st': "st' = st1\<lparr>fu_list := [], fu_tmp_AC := ac, fu_AC := ac, fu_PC := fu_tmp_PC st1\<rparr>"
    using run fa(1) by (auto simp: fusion_round_def bind_eq_Some_conv)
  have first: "k = 0 \<Longrightarrow> fu_PC st ! j < int P" if "j < sz" for j using I P that by (auto simp: fusion_inv_def)
  have "round_inv sz P k (fu_PC st) 0 st"
    using I by (auto simp: fusion_inv_def round_inv_def intro: cells_ok_mono)
  then have "round_inv sz P k (fu_PC st) sz st1"
  proof (rule for_range_partial [OF st1])
    fix j s s' assume "j < sz" "round_inv sz P k (fu_PC st) j s" "activate fa (int k) (int j) s = Some s'"
    moreover have "length (fu_PC st) = sz" using I by (simp add: fusion_inv_def)
    ultimately show "round_inv sz P k (fu_PC st) (Suc j) s'" using activate_inv [OF _ _ fa first] by blast
  qed
  then show ?thesis by (auto simp: fusion_inv_def round_inv_def st')
qed

lemma fusion_init_inv:
  assumes "0 \<le> vertex_cnt" "0 \<le> rule_cnt"
  shows "fusion_inv (nat (vertex_cnt + rule_cnt)) P 0 (fusion_init vertex_cnt rule_cnt (int P))"
proof -
  have "nat (int P * (vertex_cnt + rule_cnt)) = P * nat (vertex_cnt + rule_cnt)" by (simp add: nat_mult_distrib)
  moreover have "p * sz + v < P * sz" if "p < P" "v < sz" for p v sz :: nat
    using that mult_le_mono1 [of "Suc p" P sz] by simp
  ultimately show ?thesis
    by (simp add: fusion_inv_def fusion_init_def Let_def cells_ok_def sum_list_replicate)
qed

lemma fusion_reach_inv:
  assumes "fusion_reach fa k st" "0 \<le> fa_vertex_cnt fa" "0 \<le> fa_rule_cnt fa" "fa_num_p fa = int P"
  shows "fusion_inv (nat (fa_vertex_cnt fa + fa_rule_cnt fa)) P k st"
  using assms(1)
proof induction
  case start
  then show ?case using fusion_init_inv [OF assms(2,3), of P] assms(4) by simp
next
  case (round k st st')
  have sz: "fa_vertex_cnt fa + fa_rule_cnt fa = int (nat (fa_vertex_cnt fa + fa_rule_cnt fa))" using assms(2,3) by simp
  have "0 \<le> sum_list (fu_PC st)"
    using round.IH by (intro sum_list_nonneg) (auto simp: fusion_inv_def cells_ok_def in_set_conv_nth)
  then have "0 < P" using round.hyps(2) round.IH assms(4) by (cases P) (auto simp: fusion_inv_def)
  then show ?case using fusion_round_inv [OF round.IH sz assms(4) _ round.hyps(3)] by blast
qed

lemma sum_list_bounded:
  assumes "\<And>x. x \<in> set xs \<Longrightarrow> x \<le> b" "sum_list xs \<ge> int (length xs) * b"
  shows "\<forall>x\<in>set xs. x = b"
  using assms
proof (induction xs)
  case (Cons y ys)
  have "sum_list ys \<le> int (length ys) * b"
    using sum_list_mono [of ys id "\<lambda>_. b"] Cons.prems(1) by (simp add: sum_list_triv)
  moreover have "y \<le> b" using Cons.prems(1) by simp
  moreover have "int (length ys) * b + b \<le> y + sum_list ys" using Cons.prems(2) by (simp add: algebra_simps)
  ultimately have "y = b" "int (length ys) * b \<le> sum_list ys" by linarith+
  then show ?case using Cons by auto
qed simp


text \<open>A single rule used by both vertices, in two phases.\<close>

definition example_args :: fusion_args where
  "example_args = \<lparr>fa_in_degree = [2, 2, 2], fa_vlist = [0, 2, 4, 6], fa_elist = [2, 1, 2, 0, 0, 1],
     fa_vertex_cnt = 2, fa_rule_cnt = 1, fa_num_p = 2\<rparr>"


end
