(* ===== verification/Pair_Array.thy ===== *)
theory Pair_Array
  imports Laconic_Prelude
begin

text \<open>
  The growing array of the Re-Pair compressor (\<open>compress/array.h\<close>, \<open>compress/array.cc\<close>) and the
  helpers of \<open>compress/basics.cc\<close>.

  A dynamically allocated array is the list of its cells that have been written so far: a cell is
  readable once it has been written, and writable as long as it lies inside the allocation
  (\<open>write_cell\<close>).  Cells past \<open>size\<close> that were written earlier stay in the list, as they stay in
  memory.  The field \<open>factor\<close> is the constant \<open>0.50\<close> of \<open>compress.h\<close> at every call; a \<open>float\<close> product
  or quotient with it is exact, so that only the conversion of an \<open>int\<close> to \<open>float\<close> (\<open>f32\<close>) rounds.
\<close>

subsection \<open>Conversion of an int to float\<close>

text \<open>The number of binary digits.\<close>

fun bit_len :: "nat \<Rightarrow> nat" where
  "bit_len n = (if n = 0 then 0 else Suc (bit_len (n div 2)))"

declare bit_len.simps [simp del]

text \<open>Round to nearest, ties to even, with the 24 significant digits of a \<open>float\<close>.\<close>

definition f32 :: "int \<Rightarrow> int" where
  "f32 x =
    (let e = bit_len (nat \<bar>x\<bar>) - 24; q = \<bar>x\<bar> div 2 ^ e; r = \<bar>x\<bar> mod 2 ^ e;
       q' = (if 2 ^ e < 2 * r \<or> (2 * r = 2 ^ e \<and> odd q) then q + 1 else q)
     in sgn x * (q' * 2 ^ e))"

text \<open>
  The bit length found by halving, as \<open>blog\<close> does.  A right shift keeps the sign, so that a
  negative argument never reaches 0.
\<close>

partial_function (option) blog_loop :: "int \<Rightarrow> int \<Rightarrow> int option" where
  "blog_loop x l = (if x \<noteq> 0 then blog_loop (x div 2) (l + 1) else Some l)"

declare blog_loop.simps [code]

definition blog :: "int \<Rightarrow> int option" where
  "blog x = blog_loop x 0"

text \<open>
  \<open>myMalloc\<close> and \<open>myRealloc\<close>, over the allocator of the C library: an address, or 0 for \<open>NULL\<close>.
  The result \<^term>\<open>None\<close> stands for \<open>exit(1)\<close>.
\<close>

definition myMalloc :: "(int \<Rightarrow> int) \<Rightarrow> int \<Rightarrow> int option" where
  "myMalloc malloc n =
    (if n = 0 then Some 0
     else let p = malloc n in if p = 0 then None else Some p)"

definition myRealloc :: "(int \<Rightarrow> int) \<Rightarrow> (int \<Rightarrow> int \<Rightarrow> int) \<Rightarrow> int \<Rightarrow> int \<Rightarrow> int option" where
  "myRealloc malloc realloc p n =
    (if n = 0 then Some 0
     else if p = 0 then myMalloc malloc n
     else let q = realloc p n in if q = 0 then None else Some q)"

subsection \<open>The array\<close>

record tarray =
  a_pairs :: "int list"
  a_maxsize :: int
  a_size :: int
  a_minsize :: int

definition write_cell :: "int \<Rightarrow> 'a list \<Rightarrow> int \<Rightarrow> 'a \<Rightarrow> 'a list option" where
  "write_cell maxsize xs i x =
    (if 0 \<le> i \<and> i < maxsize then
       if i < int (length xs) then Some (xs[nat i := x])
       else if i = int (length xs) then Some (xs @ [x]) else None
     else None)"

text \<open>The conversion of the quotient \<open>maxsize / factor\<close> back to \<open>int\<close>, undefined out of range.\<close>

definition grow :: "int \<Rightarrow> int option" where
  "grow maxsize = i32_arith (2 * f32 maxsize)"

definition insertArray :: "tarray \<Rightarrow> int \<Rightarrow> (tarray \<times> int) option" where
  "insertArray A pair = do {
     A1 \<leftarrow> (if a_size A = a_maxsize A then
              if a_maxsize A = 0 then Some (A\<lparr>a_maxsize := a_minsize A, a_pairs := []\<rparr>)
              else do { m \<leftarrow> grow (a_maxsize A); Some (A\<lparr>a_maxsize := m\<rparr>) }
            else Some A);
     ps \<leftarrow> write_cell (a_maxsize A1) (a_pairs A1) (a_size A1) pair;
     Some (A1\<lparr>a_pairs := ps, a_size := a_size A1 + 1\<rparr>, a_size A1)
   }"

definition deleteArray :: "tarray \<Rightarrow> tarray" where
  "deleteArray A =
    (let A1 = A\<lparr>a_size := a_size A - 1\<rparr>; m = f32 (a_maxsize A1) in
     if a_size A1 = 0 then A1\<lparr>a_maxsize := 0, a_pairs := []\<rparr>
     else if 4 * f32 (a_size A1) < m \<and> 2 * f32 (a_minsize A1) \<le> m
     then A1\<lparr>a_maxsize := m div 2, a_pairs := take (nat (m div 2)) (a_pairs A1)\<rparr>
     else A1)"

definition createArray :: "int \<Rightarrow> tarray" where
  "createArray minsize = \<lparr>a_pairs = [], a_maxsize = 0, a_size = 0, a_minsize = minsize\<rparr>"

definition destroyArray :: "tarray \<Rightarrow> tarray" where
  "destroyArray A = (if a_maxsize A = 0 then A else A\<lparr>a_pairs := [], a_maxsize := 0, a_size := 0\<rparr>)"

subsection \<open>Rounding\<close>

lemma bit_len_pow: "n < 2 ^ k \<longleftrightarrow> bit_len n \<le> k"
proof (induction k arbitrary: n)
  case 0
  then show ?case by (simp add: bit_len.simps)
next
  case (Suc k)
  have "n < 2 ^ Suc k \<longleftrightarrow> n div 2 < 2 ^ k" by auto
  then show ?case using Suc [of "n div 2"] by (subst bit_len.simps) (auto simp: bit_len.simps)
qed

lemma f32_minus: "f32 (- x) = - f32 x"
  by (simp add: f32_def Let_def sgn_minus)

lemma f32_small: "\<bar>x\<bar> < 2 ^ 24 \<Longrightarrow> f32 x = x"
proof -
  assume "\<bar>x\<bar> < 2 ^ 24"
  then have "nat \<bar>x\<bar> < 2 ^ 24" by (simp add: nat_less_iff)
  then have "bit_len (nat \<bar>x\<bar>) - 24 = 0" by (simp only: bit_len_pow)
  then show ?thesis by (simp add: f32_def sgn_mult_abs)
qed

text \<open>The relative error is at most \<open>1 / 2 ^ 24\<close>.\<close>

lemma f32_error: "2 ^ 24 * \<bar>f32 x - x\<bar> \<le> \<bar>x\<bar>"
proof -
  have pos: "2 ^ 24 * \<bar>f32 x - x\<bar> \<le> x" if x: "0 \<le> x" for x
  proof (cases "x < 2 ^ 24")
    case True
    then show ?thesis using x f32_small [of x] by simp
  next
    case False
    define b where "b = bit_len (nat x)"
    define e where "e = b - 24"
    have "\<not> nat x < 2 ^ 24" using False x by simp
    then have b: "24 < b" unfolding b_def using bit_len_pow [of "nat x" 24] by simp
    have "\<not> nat x < 2 ^ (b - 1)" unfolding b_def using bit_len_pow [of "nat x" "b - 1"] b by (simp add: b_def)
    then have "int (2 ^ (b - 1)) \<le> x" using x by (metis not_less nat_less_iff of_nat_less_iff int_nat_eq)
    moreover have "b - 1 = 23 + e" using b by (simp add: e_def)
    ultimately have lo: "2 ^ 23 * 2 ^ e \<le> x" by (simp add: power_add)
    define r where "r = x mod 2 ^ e"
    define q where "q = x div 2 ^ e"
    have xq: "x = q * 2 ^ e + r" by (simp only: q_def r_def div_mult_mod_eq)
    have r: "0 \<le> r" "r < 2 ^ e" by (simp_all add: r_def)
    have f: "f32 x = (if 2 ^ e < 2 * r \<or> (2 * r = 2 ^ e \<and> odd q) then q + 1 else q) * 2 ^ e"
      using x False by (auto simp: f32_def Let_def e_def b_def q_def r_def sgn_1_pos)
    have "f32 x - (q * 2 ^ e + r) = (if 2 ^ e < 2 * r \<or> (2 * r = 2 ^ e \<and> odd q) then 2 ^ e - r else - r)"
      unfolding f by (simp add: algebra_simps)
    then have "2 * \<bar>f32 x - x\<bar> \<le> 2 ^ e"
      using r unfolding xq [symmetric] by (auto split: if_splits)
    then show ?thesis using lo by simp
  qed
  show ?thesis using pos [of x] pos [of "- x"] f32_minus [of x] by (cases "0 \<le> x") (auto simp: abs_minus_commute)
qed

lemma f32_bounds:
  assumes "0 \<le> x"
  shows "16777215 * x \<le> 16777216 * f32 x" "16777216 * f32 x \<le> 16777217 * x"
  using f32_error [of x] assms by (auto simp: abs_if split: if_splits)

lemma f32_nonneg: "0 \<le> x \<Longrightarrow> 0 \<le> f32 x"
  using f32_bounds(1) [of x] by linarith


subsection \<open>The array as a stack of identifiers\<close>

text \<open>
  What the heap relies on: a stack of identifiers whose cells can be read and overwritten by
  position.  The law of \<open>push\<close> bounds the size so that the capacity stays an \<open>int\<close>.
\<close>

locale id_stack =
  fixes ok :: "'a \<Rightarrow> bool"
    and elems :: "'a \<Rightarrow> int list"
    and push :: "'a \<Rightarrow> int \<Rightarrow> ('a \<times> int) option"
    and pop :: "'a \<Rightarrow> 'a"
    and put :: "'a \<Rightarrow> int \<Rightarrow> int \<Rightarrow> 'a option"
    and bound :: nat
  assumes push: "ok A \<Longrightarrow> length (elems A) < bound \<Longrightarrow>
      \<exists>A'. push A x = Some (A', int (length (elems A))) \<and> ok A' \<and> elems A' = elems A @ [x]"
    and pop: "ok A \<Longrightarrow> elems A \<noteq> [] \<Longrightarrow> ok (pop A) \<and> elems (pop A) = butlast (elems A)"
    and put: "ok A \<Longrightarrow> i < length (elems A) \<Longrightarrow>
      \<exists>A'. put A (int i) x = Some A' \<and> ok A' \<and> elems A' = (elems A)[i := x]"
begin

text \<open>Removing an element by moving the last one into its place.\<close>

lemma swap_remove:
  assumes "ok A" "i < length (elems A)"
  shows "\<exists>A'. put A (int i) (last (elems A)) = Some A' \<and> ok (pop A') \<and>
    elems (pop A') = butlast ((elems A)[i := last (elems A)])"
proof -
  obtain A' where A': "put A (int i) (last (elems A)) = Some A'" "ok A'" "elems A' = (elems A)[i := last (elems A)]"
    using put [OF assms] by blast
  moreover have "elems A' \<noteq> []" using A'(3) assms(2) by auto
  ultimately show ?thesis using pop [of A'] by auto
qed

lemma swap_remove_mset:
  assumes "ok A" "i < length (elems A)" "put A (int i) (last (elems A)) = Some A'"
  shows "mset (elems (pop A')) = mset (elems A) - {#elems A ! i#}"
proof -
  obtain xs x where xs: "elems A = xs @ [x]" using assms(2) by (metis append_butlast_last_id list.size(3) not_less_zero)
  have "elems (pop A') = butlast ((xs @ [x])[i := x])"
    using swap_remove [OF assms(1,2)] assms(3) xs by auto
  moreover have "mset (butlast ((xs @ [x])[i := x])) = mset (xs @ [x]) - {#(xs @ [x]) ! i#}"
  proof (cases "i < length xs")
    case True
    then have "butlast ((xs @ [x])[i := x]) = xs[i := x]" by (simp add: list_update_append)
    then show ?thesis using True by (simp add: mset_update nth_append)
  next
    case False
    then have "i = length xs" using assms(2) xs by simp
    then show ?thesis by (simp add: nth_append)
  qed
  ultimately show ?thesis using xs by simp
qed

end

definition arr_ok :: "tarray \<Rightarrow> bool" where
  "arr_ok A \<longleftrightarrow> 0 \<le> a_size A \<and> a_size A \<le> int (length (a_pairs A)) \<and>
     int (length (a_pairs A)) \<le> a_maxsize A \<and> 0 < a_minsize A"

definition arr_elems :: "tarray \<Rightarrow> int list" where
  "arr_elems A = take (nat (a_size A)) (a_pairs A)"

text \<open>The assignment \<open>A.pairs[i] = x\<close> to a cell in use.\<close>

definition arr_put :: "tarray \<Rightarrow> int \<Rightarrow> int \<Rightarrow> tarray option" where
  "arr_put A i x = do { ps \<leftarrow> write_cell (a_maxsize A) (a_pairs A) i x; Some (A\<lparr>a_pairs := ps\<rparr>) }"

lemma length_arr_elems: "arr_ok A \<Longrightarrow> length (arr_elems A) = nat (a_size A)"
  by (auto simp: arr_ok_def arr_elems_def)

lemma grow_Some:
  assumes "0 < m" "m < 2 ^ 30 - 64"
  shows "\<exists>m'. grow m = Some m' \<and> m < m'"
proof -
  have "m < 2 * f32 m" "2 * f32 m < 2 ^ 31" "- (2 ^ 31) \<le> 2 * f32 m"
    using f32_bounds [of m] assms by simp_all
  then show ?thesis by (simp add: grow_def)
qed

lemma write_cell_Some:
  assumes "0 \<le> i" "i < m" "i \<le> int (length xs)"
  shows "write_cell m xs i x = Some (take (nat i) xs @ x # drop (Suc (nat i)) xs)"
proof (cases "i < int (length xs)")
  case True
  then show ?thesis using assms by (simp add: write_cell_def upd_conv_take_nth_drop)
next
  case False
  then show ?thesis using assms by (simp add: write_cell_def)
qed

lemma insertArray_elems:
  assumes ok: "arr_ok A" and sz: "length (arr_elems A) < 2 ^ 30 - 64"
  shows "\<exists>A'. insertArray A x = Some (A', int (length (arr_elems A))) \<and> arr_ok A' \<and> arr_elems A' = arr_elems A @ [x]"
proof -
  obtain m where g: "grow (a_maxsize A) = Some m \<and> a_maxsize A < m" if "a_size A = a_maxsize A" "a_maxsize A \<noteq> 0"
    using grow_Some [of "a_maxsize A"] sz length_arr_elems [OF ok] ok by (fastforce simp: arr_ok_def)
  define A1 where "A1 = (if a_size A = a_maxsize A then
      if a_maxsize A = 0 then A\<lparr>a_maxsize := a_minsize A, a_pairs := []\<rparr>
      else A\<lparr>a_maxsize := m\<rparr> else A)"
  have 1: "insertArray A x = do {
     ps \<leftarrow> write_cell (a_maxsize A1) (a_pairs A1) (a_size A1) x;
     Some (A1\<lparr>a_pairs := ps, a_size := a_size A1 + 1\<rparr>, a_size A1) }"
    using g by (auto simp: insertArray_def A1_def)
  have 2: "0 \<le> a_size A1" "a_size A1 < a_maxsize A1" "a_size A1 \<le> int (length (a_pairs A1))"
      "int (length (a_pairs A1)) \<le> a_maxsize A1" "0 < a_minsize A1"
    using g ok by (auto simp: A1_def arr_ok_def)
  have 3: "a_size A1 = a_size A" "take (nat (a_size A)) (a_pairs A1) = arr_elems A"
    using ok by (auto simp: A1_def arr_ok_def arr_elems_def)
  let ?ps = "take (nat (a_size A)) (a_pairs A1) @ x # drop (Suc (nat (a_size A))) (a_pairs A1)"
  have "insertArray A x = Some (A1\<lparr>a_pairs := ?ps, a_size := a_size A + 1\<rparr>, a_size A)"
    using 1 write_cell_Some [OF 2(1-3), of x] 3 by simp
  moreover have "arr_ok (A1\<lparr>a_pairs := ?ps, a_size := a_size A + 1\<rparr>)"
    using 2 3(1) by (auto simp: arr_ok_def)
  moreover have "arr_elems (A1\<lparr>a_pairs := ?ps, a_size := a_size A + 1\<rparr>) = arr_elems A @ [x]"
    using 2 3 ok by (simp add: arr_elems_def arr_ok_def nat_add_distrib min_absorb2 nat_le_iff)
  ultimately show ?thesis using length_arr_elems [OF ok] ok by (auto simp: arr_ok_def)
qed

lemma deleteArray_elems:
  assumes ok: "arr_ok A" and ne: "arr_elems A \<noteq> []"
  shows "arr_ok (deleteArray A) \<and> arr_elems (deleteArray A) = butlast (arr_elems A)"
proof -
  define s where "s = a_size A - 1"
  define m where "m = f32 (a_maxsize A)"
  have s: "0 \<le> s" "s < int (length (a_pairs A))" "a_size A = s + 1"
    using ne ok by (auto simp: s_def arr_elems_def arr_ok_def)
  have bl: "butlast (arr_elems A) = take (nat s) (a_pairs A)"
    using s by (simp add: arr_elems_def butlast_take nat_add_distrib)
  have shrink: "s \<le> m div 2" if "4 * f32 s < m"
    using that f32_bounds [of s] s(1) by linarith
  show ?thesis
    unfolding bl using s shrink ok
    by (auto simp: deleteArray_def Let_def arr_ok_def arr_elems_def m_def [symmetric] min_def)
qed

lemma arr_put_elems:
  assumes "arr_ok A" "i < length (arr_elems A)"
  shows "\<exists>A'. arr_put A (int i) x = Some A' \<and> arr_ok A' \<and> arr_elems A' = (arr_elems A)[i := x]"
proof -
  have "i < nat (a_size A)" using assms length_arr_elems by simp
  moreover from this have "write_cell (a_maxsize A) (a_pairs A) (int i) x = Some ((a_pairs A)[i := x])"
    using assms(1) by (auto simp: write_cell_def arr_ok_def)
  ultimately show ?thesis using assms(1) by (auto simp: arr_put_def arr_ok_def arr_elems_def take_update_swap)
qed

interpretation arr: id_stack arr_ok arr_elems insertArray deleteArray arr_put "2 ^ 30 - 64"
  by unfold_locales (intro insertArray_elems deleteArray_elems arr_put_elems; assumption)+

lemma createArray_ok [simp]: "0 < m \<Longrightarrow> arr_ok (createArray m)" "arr_elems (createArray m) = []"
  by (simp_all add: createArray_def arr_ok_def arr_elems_def)

lemma destroyArray_ok: "arr_ok A \<Longrightarrow> arr_ok (destroyArray A)" "arr_ok A \<Longrightarrow> arr_elems (destroyArray A) = []"
  by (auto simp: destroyArray_def arr_ok_def arr_elems_def)

text \<open>
  The array against the stack it stands for, over whole histories of insertions and deletions.
\<close>

datatype stack_op = Push int | Pop

primrec run_array :: "stack_op list \<Rightarrow> tarray \<Rightarrow> tarray option" where
  "run_array [] A = Some A"
| "run_array (op # ops) A =
     (case op of
        Push x \<Rightarrow> do { (A', i) \<leftarrow> insertArray A x; run_array ops A' }
      | Pop \<Rightarrow> run_array ops (deleteArray A))"

primrec run_stack :: "stack_op list \<Rightarrow> int list \<Rightarrow> int list option" where
  "run_stack [] xs = Some xs"
| "run_stack (op # ops) xs =
     (case op of
        Push x \<Rightarrow> run_stack ops (xs @ [x])
      | Pop \<Rightarrow> if xs = [] then None else run_stack ops (butlast xs))"

text \<open>
  Property C27. A Tarray implements a stack: after every history of \<open>insertArray\<close> and
  \<open>deleteArray\<close> calls that never deletes from the empty array, its cells in use are the elements of
  the stack, and all reads and writes stayed inside the allocation through every growing and
  shrinking of the array.
\<close>

theorem tarray_refines_stack:
  assumes "arr_ok A" "length (arr_elems A) + length ops \<le> 2 ^ 30 - 64"
    and "run_stack ops (arr_elems A) = Some xs"
  shows "\<exists>A'. run_array ops A = Some A' \<and> arr_ok A' \<and> arr_elems A' = xs"
  using assms
proof (induction ops arbitrary: A)
  case (Cons op ops)
  show ?case
  proof (cases op)
    case (Push x)
    then obtain A' where A': "insertArray A x = Some (A', int (length (arr_elems A)))" "arr_ok A'" "arr_elems A' = arr_elems A @ [x]"
      using arr.push [of A x] Cons.prems by auto
    then show ?thesis using Cons.IH [of A'] Cons.prems Push by simp
  next
    case Pop
    then show ?thesis using Cons.IH [of "deleteArray A"] arr.pop [of A] Cons.prems by (auto split: if_splits)
  qed
qed simp

theorem tarray_refines_stack_witness:
  "\<exists>A. run_array [Push 7, Push 8, Pop, Push 9] (createArray 2) = Some A \<and> arr_ok A \<and> arr_elems A = [7, 9]"
  using tarray_refines_stack [of "createArray 2" "[Push 7, Push 8, Pop, Push 9]" "[7, 9]"] by simp

lemma blog_loop_Some: "blog_loop (int n) l = Some (l + int (bit_len n))"
proof (induction n arbitrary: l rule: bit_len.induct)
  case (1 n)
  have "int n div 2 = int (n div 2)" by (simp add: zdiv_int)
  then show ?case using 1 by (subst blog_loop.simps, subst bit_len.simps) simp
qed

lemma blog_loop_None: "x < 0 \<Longrightarrow> blog_loop x l = None"
proof -
  have "(case (x, l) of (x, l) \<Rightarrow> \<lambda>y. 0 \<le> x) y" if "blog_loop x l = Some y" for x l y
  proof (rule blog_loop.raw_induct [where P = "\<lambda>x l y. 0 \<le> x"])
    fix loop :: "int \<Rightarrow> int \<Rightarrow> int option" and x l y
    assume "\<And>l b y. loop l b = Some y \<Longrightarrow> 0 \<le> l"
      and "(if x \<noteq> 0 then loop (x div 2) (l + 1) else Some l) = Some y"
    then show "0 \<le> x" by (fastforce split: if_splits)
  qed (use that in simp)
  then show "x < 0 \<Longrightarrow> blog_loop x l = None" by (cases "blog_loop x l") fastforce+
qed

text \<open>
  \<open>blog\<close> returns exactly for the arguments that are not negative, and its result is the
  number of binary digits: the least \<open>k\<close> with \<open>x < 2 ^ k\<close>.
\<close>

lemma blog_bits:
  "blog x = (if 0 \<le> x then Some (int (LEAST k. x < 2 ^ k)) else None)"
proof -
  have "(LEAST k. x < 2 ^ k) = bit_len (nat x)" if "0 \<le> x"
  proof -
    have "x < 2 ^ k \<longleftrightarrow> bit_len (nat x) \<le> k" for k
      using that bit_len_pow [of "nat x" k] by (simp add: nat_less_iff)
    then show ?thesis by (auto intro: Least_equality)
  qed
  then show ?thesis using blog_loop_Some [of "nat x" 0] blog_loop_None [of x 0] by (auto simp: blog_def)
qed

end
