(* ===== verification/Pair_Hash.thy ===== *)
theory Pair_Hash
  imports Pair_Array "HOL-Library.Word"
begin

text \<open>
  The hash table of pairs (\<open>compress/hash.h\<close>, \<open>compress/hash.cc\<close>): linear probing over a table of
  record identifiers, where -1 marks an empty cell and -2 a deleted one.  The table stores no
  keys; it compares with the pairs of the records (\<open>compress/records.h\<close>), so that every operation
  takes the records as an argument.
\<close>

unbundle bit_operations_syntax

subsection \<open>Data\<close>

record tpair =
  left :: int
  right :: int

record trecord =
  rec_pair :: tpair
  rec_freq :: int
  rec_cpos :: int
  rec_hpos :: int
  rec_kpos :: int

record thash =
  t_table :: "int list"
  t_maxpos :: int
  t_used :: int

text \<open>The update of one field of a cell.\<close>

definition upd_at :: "'a list \<Rightarrow> int \<Rightarrow> ('a \<Rightarrow> 'a) \<Rightarrow> 'a list option" where
  "upd_at xs i f = do { x \<leftarrow> vec_at xs i; vec_set xs i (f x) }"

subsection \<open>Operations\<close>

definition LPRIME :: "64 word" where
  "LPRIME = 767865341467865341"

definition hash_key :: "tpair \<Rightarrow> int \<Rightarrow> int" where
  "hash_key p maxpos =
    (let u = push_bit 32 (word_of_int (left p)) OR word_of_int (right p) :: 64 word
     in uint (drop_bit 32 (LPRIME * u) AND word_of_int maxpos))"

text \<open>The loop \<open>while (cont(k)) k = (k + 1) & maxpos\<close>, which may go round for ever.\<close>

partial_function (option) probe_while :: "(int \<Rightarrow> bool option) \<Rightarrow> int \<Rightarrow> int \<Rightarrow> int option" where
  "probe_while cont maxpos k = do {
     go \<leftarrow> cont k;
     if go then probe_while cont maxpos ((k + 1) AND maxpos) else Some k
   }"

declare probe_while.simps [code]

definition search_cont :: "thash \<Rightarrow> trecord list \<Rightarrow> tpair \<Rightarrow> int \<Rightarrow> bool option" where
  "search_cont H recs p k = do {
     t \<leftarrow> vec_at (t_table H) k;
     if t = -1 then Some False
     else if 0 \<le> t then do { r \<leftarrow> vec_at recs t; Some (rec_pair r \<noteq> p) }
     else Some True
   }"

definition searchHash :: "thash \<Rightarrow> trecord list \<Rightarrow> tpair \<Rightarrow> int option" where
  "searchHash H recs p = do {
     k \<leftarrow> probe_while (search_cont H recs p) (t_maxpos H) (hash_key p (t_maxpos H));
     vec_at (t_table H) k
   }"

definition deleteHash :: "thash \<Rightarrow> trecord list \<Rightarrow> int \<Rightarrow> thash option" where
  "deleteHash H recs ix = do {
     r \<leftarrow> vec_at recs ix;
     tab \<leftarrow> vec_set (t_table H) (rec_kpos r) (-2);
     Some (H\<lparr>t_table := tab, t_used := t_used H - 1\<rparr>)
   }"

partial_function (option) clear_low :: "int \<Rightarrow> int option" where
  "clear_low maxpos = do {
     m \<leftarrow> i32_arith (maxpos - 1);
     if maxpos AND m \<noteq> 0 then clear_low (maxpos AND m) else Some maxpos
   }"

declare clear_low.simps [code]

definition createHash :: "int \<Rightarrow> thash option" where
  "createHash maxpos = do {
     m \<leftarrow> clear_low maxpos;
     m \<leftarrow> i32_arith (2 * (m - 1));
     let maxpos = m OR 1;
     len \<leftarrow> i32_arith (1 + maxpos);
     table \<leftarrow> for_range 0 (maxpos + 1) (\<lambda>i tab. write_cell len tab i (-1)) [];
     Some \<lparr>t_table = table, t_maxpos = maxpos, t_used = 0\<rparr>
   }"

definition finsertHash :: "thash \<Rightarrow> tpair \<Rightarrow> int option" where
  "finsertHash H p =
     probe_while (\<lambda>k. do { t \<leftarrow> vec_at (t_table H) k; Some (0 \<le> t) }) (t_maxpos H) (hash_key p (t_maxpos H))"

text \<open>The shared end of both insertions: \<open>k = finsertHash(H, rec[id].pair); H.table[k] = id; rec[id].kpos = k\<close>.\<close>

definition put_id :: "thash \<Rightarrow> trecord list \<Rightarrow> int \<Rightarrow> (thash \<times> trecord list) option" where
  "put_id H recs ix = do {
     r \<leftarrow> vec_at recs ix;
     k \<leftarrow> finsertHash H (rec_pair r);
     tab \<leftarrow> vec_set (t_table H) k ix;
     recs' \<leftarrow> upd_at recs ix (rec_kpos_update (\<lambda>_. k));
     Some (H\<lparr>t_table := tab\<rparr>, recs')
   }"

definition rehash :: "thash \<Rightarrow> trecord list \<Rightarrow> (thash \<times> trecord list) option" where
  "rehash H recs = do {
     m \<leftarrow> i32_arith (2 * t_maxpos H);
     newH \<leftarrow> createHash (m OR 1);
     (newH, recs') \<leftarrow> for_range 0 (t_maxpos H + 1) (\<lambda>i (newH, recs). do {
       t \<leftarrow> vec_at (t_table H) i;
       if 0 \<le> t then put_id newH recs t else Some (newH, recs)
     }) (newH, recs);
     Some (newH\<lparr>t_used := t_used H\<rparr>, recs')
   }"

definition insertHash :: "thash \<Rightarrow> trecord list \<Rightarrow> int \<Rightarrow> (thash \<times> trecord list) option" where
  "insertHash H recs ix = do {
     (H1, recs1) \<leftarrow> (if f32 (t_maxpos H) < 2 * f32 (t_used H) then rehash H recs else Some (H, recs));
     put_id (H1\<lparr>t_used := t_used H1 + 1\<rparr>) recs1 ix
   }"

definition destroyHash :: "thash \<Rightarrow> thash" where
  "destroyHash H = H\<lparr>t_table := [], t_maxpos := 0, t_used := 0\<rparr>"

definition hashRepos :: "thash \<Rightarrow> trecord list \<Rightarrow> int \<Rightarrow> thash option" where
  "hashRepos H recs ix = do {
     r \<leftarrow> vec_at recs ix;
     tab \<leftarrow> vec_set (t_table H) (rec_kpos r) ix;
     Some (H\<lparr>t_table := tab\<rparr>)
   }"

subsection \<open>Linear probing\<close>

lemma and_mask: "x AND (2 ^ b - 1) = x mod (2 ^ b :: int)"
  by (simp add: take_bit_eq_mod [symmetric] take_bit_eq_mask mask_eq_exp_minus_1)

lemma hash_key_bounds: "0 \<le> m \<Longrightarrow> m < 2 ^ 64 \<Longrightarrow> 0 \<le> hash_key p m \<and> hash_key p m \<le> m"
proof -
  assume m: "0 \<le> m" "m < 2 ^ 64"
  then have "uint (word_of_int m :: 64 word) = m" by (simp add: uint_word_of_int)
  moreover have "uint (w AND word_of_int m) \<le> uint (word_of_int m :: 64 word)" for w :: "64 word"
    by (simp add: uint_and AND_upper2)
  ultimately show ?thesis by (simp add: hash_key_def Let_def)
qed

lemma hash_key_pow:
  assumes "b \<le> 30"
  shows "0 \<le> hash_key p (2 ^ b - 1)" "hash_key p (2 ^ b - 1) < 2 ^ b"
proof -
  have "(2 :: int) ^ b \<le> 2 ^ 30" by (rule power_increasing [OF assms]) simp
  then show "0 \<le> hash_key p (2 ^ b - 1)" "hash_key p (2 ^ b - 1) < 2 ^ b"
    using hash_key_bounds [of "2 ^ b - 1" p] by auto
qed

text \<open>
  From cell \<open>k0\<close> of a table of \<open>2 ^ b\<close> cells the loop visits the cells in cyclic order and stops at the
  first that does not continue.
\<close>

lemma probe_while_stops:
  assumes cont: "\<And>k. k < 2 ^ b \<Longrightarrow> cont (int k) = Some (C k)"
    and "\<And>i. i < j \<Longrightarrow> C ((k0 + i) mod 2 ^ b)" "\<not> C ((k0 + j) mod 2 ^ b)"
  shows "probe_while cont (2 ^ b - 1) (int (k0 mod 2 ^ b)) = Some (int ((k0 + j) mod 2 ^ b))"
  using assms(2,3)
proof (induction j arbitrary: k0)
  case 0
  then show ?case using cont [of "k0 mod 2 ^ b"] by (subst probe_while.simps) simp
next
  case (Suc j)
  have nxt: "(int (k0 mod 2 ^ b) + 1) AND (2 ^ b - 1) = int (Suc k0 mod 2 ^ b)"
  proof -
    have "(int (k0 mod 2 ^ b) + 1) mod 2 ^ b = (int k0 + 1) mod 2 ^ b" by (simp add: of_nat_mod mod_add_left_eq)
    then show ?thesis by (simp add: and_mask of_nat_mod add.commute)
  qed
  have "C (k0 mod 2 ^ b)" using Suc.prems(1) [of 0] by simp
  then have "probe_while cont (2 ^ b - 1) (int (k0 mod 2 ^ b)) = probe_while cont (2 ^ b - 1) (int (Suc k0 mod 2 ^ b))"
    using cont [of "k0 mod 2 ^ b"] by (subst probe_while.simps) (simp add: nxt)
  also have "\<dots> = Some (int ((Suc k0 + j) mod 2 ^ b))"
    using Suc.prems(1) [of "Suc i" for i] Suc.prems(2) by (intro Suc.IH) auto
  finally show ?case by simp
qed

lemma probe_while_diverges:
  assumes cont: "\<And>k. k < 2 ^ b \<Longrightarrow> cont (int k) = Some True" and k: "0 \<le> k" "k < 2 ^ b"
  shows "probe_while cont (2 ^ b - 1) k = None"
proof -
  have "cont' = cont \<longrightarrow> m = 2 ^ b - 1 \<longrightarrow> 0 \<le> k \<longrightarrow> k < 2 ^ b \<longrightarrow> False"
    if "probe_while cont' m k = Some y" for cont' m k y
  proof (rule probe_while.raw_induct [where P = "\<lambda>cont' m k y. cont' = cont \<longrightarrow> m = 2 ^ b - 1 \<longrightarrow> 0 \<le> k \<longrightarrow> k < 2 ^ b \<longrightarrow> False"])
    fix loop cont' m k y
    assume IH: "\<And>c m k y. loop c m k = Some y \<Longrightarrow> c = cont \<longrightarrow> m = 2 ^ b - 1 \<longrightarrow> 0 \<le> k \<longrightarrow> k < 2 ^ b \<longrightarrow> False"
      and step: "do { go \<leftarrow> cont' k; if go then loop cont' m ((k + 1) AND m) else Some k } = Some y"
    show "cont' = cont \<longrightarrow> m = 2 ^ b - 1 \<longrightarrow> 0 \<le> k \<longrightarrow> k < 2 ^ b \<longrightarrow> False"
    proof (intro impI)
      assume a: "cont' = cont" "m = 2 ^ b - 1" "0 \<le> k" "k < 2 ^ b"
      have "cont k = Some True" using cont [of "nat k"] a by (simp add: nat_less_iff)
      then have "loop cont m ((k + 1) mod 2 ^ b) = Some y" using step a by (simp add: and_mask)
      then show False using IH [of cont m "(k + 1) mod 2 ^ b" y] a(2) by simp
    qed
  qed (use that in simp)
  from this [of cont "2 ^ b - 1" k] k show ?thesis by (cases "probe_while cont (2 ^ b - 1) k") auto
qed

lemma cyclic_cell:
  assumes "k < N" "k0 < (N :: nat)"
  shows "\<exists>j<N. (k0 + j) mod N = k"
proof (cases "k0 \<le> k")
  case True
  then show ?thesis using assms by (intro exI [of _ "k - k0"]) auto
next
  case False
  then show ?thesis using assms by (intro exI [of _ "N + k - k0"]) auto
qed

text \<open>Hence it stops whenever some cell does not continue.\<close>

lemma probe_while_finds:
  assumes cont: "\<And>k. k < 2 ^ b \<Longrightarrow> cont (int k) = Some (C k)"
    and k0: "0 \<le> k0" "k0 < 2 ^ b" and ex: "\<exists>k<2 ^ b. \<not> C k"
  shows "\<exists>j. (\<forall>i<j. C ((nat k0 + i) mod 2 ^ b)) \<and> \<not> C ((nat k0 + j) mod 2 ^ b) \<and>
    probe_while cont (2 ^ b - 1) k0 = Some (int ((nat k0 + j) mod 2 ^ b))"
proof -
  define j where "j = (LEAST j. \<not> C ((nat k0 + j) mod 2 ^ b))"
  have k0': "nat k0 < 2 ^ b" using k0 by (simp add: nat_less_iff)
  have "\<exists>j. \<not> C ((nat k0 + j) mod 2 ^ b)" using ex cyclic_cell [OF _ k0'] by metis
  then have stop: "\<not> C ((nat k0 + j) mod 2 ^ b)" unfolding j_def by (rule LeastI_ex)
  have go: "\<forall>i<j. C ((nat k0 + i) mod 2 ^ b)" unfolding j_def using not_less_Least by blast
  have "probe_while cont (2 ^ b - 1) k0 = Some (int ((nat k0 + j) mod 2 ^ b))"
    using probe_while_stops [of b cont C j "nat k0", OF cont] go stop k0 k0' by simp
  with go stop show ?thesis by blast
qed

subsection \<open>The invariant of the table\<close>

text \<open>
  A table has \<open>2 ^ b\<close> cells.  An identifier in a cell is that of a record which points back to the
  cell, and no empty cell lies on the way from the key of the record to its cell.
\<close>

definition on_path :: "int list \<Rightarrow> nat \<Rightarrow> nat \<Rightarrow> bool" where
  "on_path tab k0 k \<longleftrightarrow>
     (\<exists>j. k = (k0 + j) mod length tab \<and> (\<forall>i<j. tab ! ((k0 + i) mod length tab) \<noteq> -1))"

definition cells_back :: "int list \<Rightarrow> int \<Rightarrow> trecord list \<Rightarrow> bool" where
  "cells_back tab maxpos recs \<longleftrightarrow> (\<forall>k<length tab. 0 \<le> tab ! k \<longrightarrow>
     tab ! k < int (length recs) \<and> rec_kpos (recs ! nat (tab ! k)) = int k \<and>
     on_path tab (nat (hash_key (rec_pair (recs ! nat (tab ! k))) maxpos)) k)"

definition live :: "int list \<Rightarrow> nat set" where
  "live tab = {i. int i \<in> set tab}"

definition hash_ok :: "thash \<Rightarrow> trecord list \<Rightarrow> bool" where
  "hash_ok H recs \<longleftrightarrow>
     (\<exists>b\<le>30. length (t_table H) = 2 ^ b \<and> t_maxpos H = 2 ^ b - 1) \<and>
     cells_back (t_table H) (t_maxpos H) recs \<and>
     inj_on (\<lambda>i. rec_pair (recs ! i)) (live (t_table H)) \<and>
     t_used H = int (card (live (t_table H)))"

text \<open>The map from pairs to identifiers that the table stands for.\<close>

definition hash_map :: "thash \<Rightarrow> trecord list \<Rightarrow> tpair \<Rightarrow> nat option" where
  "hash_map H recs p =
    (if \<exists>i\<in>live (t_table H). rec_pair (recs ! i) = p
     then Some (THE i. i \<in> live (t_table H) \<and> rec_pair (recs ! i) = p) else None)"

lemma hash_map_Some:
  assumes "inj_on (\<lambda>i. rec_pair (recs ! i)) (live (t_table H))"
  shows "hash_map H recs p = Some i \<longleftrightarrow> i \<in> live (t_table H) \<and> rec_pair (recs ! i) = p"
proof -
  have "(THE i. i \<in> live (t_table H) \<and> rec_pair (recs ! i) = p) = i"
    if "i \<in> live (t_table H)" "rec_pair (recs ! i) = p" for i
    using that assms by (intro the_equality) (auto dest: inj_onD)
  then show ?thesis by (auto simp: hash_map_def)
qed

lemma hash_map_None: "hash_map H recs p = None \<longleftrightarrow> (\<forall>i\<in>live (t_table H). rec_pair (recs ! i) \<noteq> p)"
  by (auto simp: hash_map_def)

lemma liveI: "k < length tab \<Longrightarrow> 0 \<le> tab ! k \<Longrightarrow> nat (tab ! k) \<in> live tab"
  by (auto simp: live_def)

lemma liveE: "i \<in> live tab \<Longrightarrow> (\<And>k. k < length tab \<Longrightarrow> tab ! k = int i \<Longrightarrow> P) \<Longrightarrow> P"
  by (auto simp: live_def in_set_conv_nth)

lemma finite_live [simp]: "finite (live tab)"
proof -
  have "live tab = int -` set tab" by (auto simp: live_def)
  then show ?thesis by (simp add: finite_vimageI)
qed

lemma cells_backD:
  assumes "cells_back tab m recs" "k < length tab" "tab ! k = int i"
  shows "i < length recs" "rec_kpos (recs ! i) = int k" "on_path tab (nat (hash_key (rec_pair (recs ! i)) m)) k"
  using assms by (auto simp: cells_back_def)

text \<open>An identifier sits in one cell only.\<close>

lemma live_cell: "cells_back tab m recs \<Longrightarrow> i \<in> live tab \<Longrightarrow>
    \<exists>k. k < length tab \<and> rec_kpos (recs ! i) = int k \<and> tab ! k = int i \<and>
      (\<forall>k'<length tab. tab ! k' = int i \<longrightarrow> k' = k)"
  by (erule liveE) (metis cells_backD(2) of_nat_eq_iff)

text \<open>Overwriting a cell that is not empty, or filling one, keeps all paths.\<close>

lemma on_path_update: "on_path tab k0 k \<Longrightarrow> x \<noteq> -1 \<Longrightarrow> on_path (tab[i := x]) k0 k"
  unfolding on_path_def by (metis length_list_update nth_list_update_neq nth_list_update_eq list_update_beyond not_le)

subsection \<open>Searching\<close>

lemma search_cont_ok:
  assumes "cells_back (t_table H) m recs" "k < length (t_table H)"
  shows "search_cont H recs p (int k) =
    Some (t_table H ! k \<noteq> -1 \<and> \<not> (0 \<le> t_table H ! k \<and> rec_pair (recs ! nat (t_table H ! k)) = p))"
  using assms by (auto simp: search_cont_def vec_simps cells_back_def)

text \<open>
  On a sound table the search returns the identifier stored for the pair, or -1, provided it stops
  at all; it stops when the table has an empty cell or the pair is present.
\<close>

lemma searchHash_ok:
  assumes ok: "hash_ok H recs" and fin: "-1 \<in> set (t_table H) \<or> hash_map H recs p \<noteq> None"
  shows "searchHash H recs p = Some (case hash_map H recs p of None \<Rightarrow> -1 | Some i \<Rightarrow> int i)"
proof -
  obtain b where b: "length (t_table H) = 2 ^ b" "t_maxpos H = 2 ^ b - 1" "b \<le> 30"
    and cb: "cells_back (t_table H) (t_maxpos H) recs" and inj: "inj_on (\<lambda>i. rec_pair (recs ! i)) (live (t_table H))"
    using ok by (auto simp: hash_ok_def)
  let ?tab = "t_table H" and ?h = "nat (hash_key p (t_maxpos H))"
  define C where "C k \<longleftrightarrow> ?tab ! k \<noteq> -1 \<and> \<not> (0 \<le> ?tab ! k \<and> rec_pair (recs ! nat (?tab ! k)) = p)" for k
  have cont: "search_cont H recs p (int k) = Some (C k)" if "k < 2 ^ b" for k
    using search_cont_ok [OF cb, of k p] that b(1) by (simp add: C_def)
  have key: "0 \<le> hash_key p (t_maxpos H)" "hash_key p (t_maxpos H) < 2 ^ b"
    using hash_key_pow [OF b(3)] by (simp_all add: b(2))
  have ex: "\<exists>k<2 ^ b. \<not> C k"
  proof (cases "hash_map H recs p")
    case None
    then show ?thesis using fin b(1) by (auto simp: in_set_conv_nth C_def)
  next
    case (Some i)
    then obtain k where "k < length ?tab" "?tab ! k = int i" "rec_pair (recs ! i) = p"
      unfolding hash_map_Some [OF inj] by (blast elim: liveE)
    then show ?thesis using b(1) by (intro exI [of _ k]) (simp add: C_def)
  qed
  obtain j where j: "\<forall>i<j. C ((?h + i) mod 2 ^ b)" "\<not> C ((?h + j) mod 2 ^ b)"
      "probe_while (search_cont H recs p) (2 ^ b - 1) (hash_key p (t_maxpos H)) = Some (int ((?h + j) mod 2 ^ b))"
    using probe_while_finds [OF cont key ex] by blast
  let ?c = "(?h + j) mod 2 ^ b"
  have k: "?c < length ?tab" by (simp add: b(1))
  then have res: "searchHash H recs p = Some (?tab ! ?c)" using j(3) by (simp add: searchHash_def b(2) vec_at_nat)
  show ?thesis
  proof (cases "?tab ! ?c = -1")
    case False
    then have t: "0 \<le> ?tab ! ?c" "rec_pair (recs ! nat (?tab ! ?c)) = p" using j(2) by (auto simp: C_def)
    then have "hash_map H recs p = Some (nat (?tab ! ?c))" using liveI [OF k] by (simp add: hash_map_Some [OF inj])
    then show ?thesis using res t(1) by simp
  next
    case True
    have "hash_map H recs p \<noteq> Some i" for i
    proof
      assume "hash_map H recs p = Some i"
      then obtain k' where k': "k' < length ?tab" "?tab ! k' = int i" and p: "rec_pair (recs ! i) = p"
        unfolding hash_map_Some [OF inj] by (blast elim: liveE)
      then obtain j' where j': "k' = (?h + j') mod 2 ^ b" "\<forall>i<j'. ?tab ! ((?h + i) mod 2 ^ b) \<noteq> -1"
        using cells_backD(3) [OF cb k'] b(1) by (auto simp: on_path_def)
      have "\<not> C k'" using k'(2) p by (simp add: C_def)
      then have "j \<le> j'" using j(1) j'(1) not_le by blast
      moreover have "j \<noteq> j'" using True j'(1) k'(2) by auto
      ultimately show False using j'(2) True by auto
    qed
    then show ?thesis using True res by (cases "hash_map H recs p") auto
  qed
qed

lemma searchHash_diverges:
  assumes ok: "hash_ok H recs" and "-1 \<notin> set (t_table H)" "hash_map H recs p = None"
  shows "searchHash H recs p = None"
proof -
  obtain b where b: "length (t_table H) = 2 ^ b" "t_maxpos H = 2 ^ b - 1" "b \<le> 30"
    and cb: "cells_back (t_table H) (t_maxpos H) recs"
    using ok by (auto simp: hash_ok_def)
  have key: "0 \<le> hash_key p (t_maxpos H)" "hash_key p (t_maxpos H) < 2 ^ b"
    using hash_key_pow [OF b(3)] by (simp_all add: b(2))
  have "search_cont H recs p (int k) = Some True" if "k < 2 ^ b" for k
  proof -
    have "t_table H ! k \<noteq> -1" using that assms(2) b(1) by (metis nth_mem)
    moreover have "rec_pair (recs ! nat (t_table H ! k)) \<noteq> p" if "0 \<le> t_table H ! k"
      using assms(3) liveI [of k "t_table H"] that \<open>k < 2 ^ b\<close> b(1) unfolding hash_map_None by auto
    ultimately show ?thesis using search_cont_ok [OF cb, of k p] that b(1) by simp
  qed
  then have "probe_while (search_cont H recs p) (2 ^ b - 1) (hash_key p (t_maxpos H)) = None"
    using probe_while_diverges [of b] key by blast
  then show ?thesis by (simp add: searchHash_def b(2) del: probe_while.simps)
qed

subsection \<open>Creating a table\<close>

lemma and_pred:
  fixes x :: int
  assumes "2 ^ k < x" "x < 2 ^ Suc k"
  shows "2 ^ k \<le> x AND (x - 1)" "x AND (x - 1) < x"
proof -
  have "x div 2 ^ k = 1" "(x - 1) div 2 ^ k = 1" 
    using assms int_div_pos_eq [of x "2 ^ k" 1 "x - 2 ^ k"] int_div_pos_eq [of "x - 1" "2 ^ k" 1 "x - 1 - 2 ^ k"] by auto
  then have "(x AND (x - 1)) div 2 ^ k = 1"
    by (simp add: drop_bit_eq_div [symmetric])
  then show "2 ^ k \<le> x AND (x - 1)"
    by (metis div_pos_pos_trivial zero_neq_one linorder_not_less AND_lower assms(1) less_trans zero_less_power zero_less_numeral order_less_imp_le)
  have "0 \<le> x - 1" using assms(1) by (smt (verit) zero_less_power)
  then show "x AND (x - 1) < x" using AND_upper2 [of "x - 1" x] by linarith
qed

lemma clear_low_pow:
  assumes "2 ^ k \<le> x" "x < 2 ^ Suc k" "k \<le> 30"
  shows "clear_low x = Some (2 ^ k)"
  using assms
proof (induction "nat x" arbitrary: x rule: less_induct)
  case less
  have "(2 :: int) ^ Suc k \<le> 2 ^ 31" by (rule power_increasing) (use less.prems in auto)
  then have m: "i32_arith (x - 1) = Some (x - 1)" using less.prems by (simp add: i32_arith_def)
  show ?case
  proof (cases "x = 2 ^ k")
    case True
    then have "x AND (x - 1) = 0" by (simp add: and_mask)
    then show ?thesis using m True by (subst clear_low.simps) simp
  next
    case False
    then have b: "2 ^ k \<le> x AND (x - 1)" "x AND (x - 1) < x" using and_pred [of k x] less.prems by auto
    moreover from b have "0 < x AND (x - 1)" by (smt (verit) zero_less_power)
    ultimately have "clear_low (x AND (x - 1)) = Some (2 ^ k)" using less.prems by (intro less.hyps) auto
    then show ?thesis using m \<open>0 < x AND (x - 1)\<close> by (subst clear_low.simps) simp
  qed
qed

lemma createHash_pow:
  assumes "2 ^ k \<le> x" "x < 2 ^ Suc k" "k \<le> 29"
  shows "createHash x = Some \<lparr>t_table = replicate (2 ^ Suc k) (-1), t_maxpos = 2 ^ Suc k - 1, t_used = 0\<rparr>"
proof -
  have le: "(2 :: int) ^ Suc k \<le> 2 ^ 30" by (rule power_increasing) (use assms in auto)
  have "clear_low x = Some (2 ^ k)" using assms by (intro clear_low_pow) auto
  moreover have "i32_arith (2 * (2 ^ k - 1)) = Some (2 * (2 ^ k - 1))" "i32_arith (2 * 2 ^ k) = Some (2 * 2 ^ k)"
    using le zero_less_power [of "2 :: int" k] by (auto simp: i32_arith_def algebra_simps simp del: zero_less_power)
  moreover have "2 * (2 ^ k - 1) OR 1 = (2 ^ Suc k - 1 :: int)" by (simp add: or_one_eq)
  moreover have "for_range 0 (int (2 ^ Suc k)) (\<lambda>i tab. write_cell (2 ^ Suc k) tab i (-1)) (replicate 0 (-1)) = Some (replicate (2 ^ Suc k) (-1 :: int))"
  proof (rule for_range_nat_eq)
    fix j :: nat assume "j < 2 ^ Suc k"
    then have "int j < int (2 ^ Suc k)" by (rule of_nat_less_iff [THEN iffD2])
    then show "write_cell (2 ^ Suc k) (replicate j (-1 :: int)) (int j) (-1) = Some (replicate (Suc j) (-1))"
      by (simp add: write_cell_def replicate_append_same)
  qed
  ultimately show ?thesis by (simp add: createHash_def)
qed

subsection \<open>Inserting\<close>

lemma live_update:
  "k < length tab \<Longrightarrow> tab ! k < 0 \<Longrightarrow> live (tab[k := int i]) = insert i (live tab)"
proof (intro set_eqI iffI)
  fix j assume k: "k < length tab" "tab ! k < 0"
  { assume "j \<in> live (tab[k := int i])"
    then show "j \<in> insert i (live tab)" by (auto simp: live_def dest!: set_update_subset_insert [THEN subsetD]) }
  assume "j \<in> insert i (live tab)"
  then show "j \<in> live (tab[k := int i])"
  proof
    assume "j = i" then show ?thesis using k by (auto simp: live_def set_update_memI)
  next
    assume "j \<in> live tab"
    then obtain k' where k': "k' < length tab" "tab ! k' = int j" by (rule liveE)
    then have "k' \<noteq> k" using k(2) by auto
    then have "(tab[k := int i]) ! k' = int j" using k' by simp
    then show ?thesis using k' unfolding live_def by (metis length_list_update mem_Collect_eq nth_mem)
  qed
qed

lemma live_inj:
  assumes "cells_back tab m recs"
  shows "card (live tab) = card {k. k < length tab \<and> 0 \<le> tab ! k}"
proof -
  have "live tab = (\<lambda>k. nat (tab ! k)) ` {k. k < length tab \<and> 0 \<le> tab ! k}"
    by (force simp: live_def in_set_conv_nth image_iff)
  moreover have "inj_on (\<lambda>k. nat (tab ! k)) {k. k < length tab \<and> 0 \<le> tab ! k}"
  proof (rule inj_onI)
    fix k k' assume a: "k \<in> {k. k < length tab \<and> 0 \<le> tab ! k}" "k' \<in> {k. k < length tab \<and> 0 \<le> tab ! k}"
      and "nat (tab ! k) = nat (tab ! k')"
    then have "tab ! k = tab ! k'" by auto
    then have "int k = int k'" using a assms unfolding cells_back_def by (metis mem_Collect_eq)
    then show "k = k'" by simp
  qed
  ultimately show ?thesis by (simp add: card_image)
qed

lemma free_cell:
  assumes "cells_back tab m recs" "card (live tab) < length tab"
  shows "\<exists>k<length tab. tab ! k < 0"
proof (rule ccontr)
  assume "\<not> ?thesis"
  then have "{k. k < length tab \<and> 0 \<le> tab ! k} = {..<length tab}" by auto
  then show False using live_inj [OF assms(1)] assms(2) by simp
qed

text \<open>The table and the records after an identifier has been put into a free cell.\<close>

lemma put_id_ok:
  assumes len: "length (t_table H) = 2 ^ b" and m: "t_maxpos H = 2 ^ b - 1" and b: "b \<le> 30"
    and cb: "cells_back (t_table H) (t_maxpos H) recs"
    and i: "i < length recs" "i \<notin> live (t_table H)" and room: "card (live (t_table H)) < 2 ^ b"
  shows "\<exists>k<2 ^ b. t_table H ! k < 0 \<and>
    put_id H recs (int i) = Some (H\<lparr>t_table := (t_table H)[k := int i]\<rparr>, recs[i := (recs ! i)\<lparr>rec_kpos := int k\<rparr>]) \<and>
    cells_back ((t_table H)[k := int i]) (t_maxpos H) (recs[i := (recs ! i)\<lparr>rec_kpos := int k\<rparr>])"
proof -
  let ?tab = "t_table H" and ?h = "hash_key (rec_pair (recs ! i)) (2 ^ b - 1)"
  have "\<exists>k<2 ^ b. \<not> 0 \<le> ?tab ! k" using free_cell [OF cb] room len by (auto simp: not_le)
  moreover have "do { t \<leftarrow> vec_at ?tab (int k); Some (0 \<le> t) } = Some (0 \<le> ?tab ! k)" if "k < 2 ^ b" for k
    using that len by (simp add: vec_at_nat)
  ultimately obtain j where j: "\<forall>i<j. 0 \<le> ?tab ! ((nat ?h + i) mod 2 ^ b)" "\<not> 0 \<le> ?tab ! ((nat ?h + j) mod 2 ^ b)"
     "finsertHash H (rec_pair (recs ! i)) = Some (int ((nat ?h + j) mod 2 ^ b))"
    using probe_while_finds [of b "\<lambda>k. do { t \<leftarrow> vec_at ?tab k; Some (0 \<le> t) }" "\<lambda>k. 0 \<le> ?tab ! k" ?h]
      hash_key_pow [OF b] unfolding finsertHash_def m by blast
  define k where "k = (nat ?h + j) mod 2 ^ b"
  have k: "k < 2 ^ b" "?tab ! k < 0" using j(2) by (simp_all add: k_def)
  let ?recs = "recs[i := (recs ! i)\<lparr>rec_kpos := int k\<rparr>]"
  have put: "put_id H recs (int i) = Some (H\<lparr>t_table := ?tab[k := int i]\<rparr>, ?recs)"
    using j(3) k(1) i(1) len by (simp add: put_id_def upd_at_def vec_at_nat vec_set_nat k_def [symmetric])
  have "cells_back (?tab[k := int i]) (t_maxpos H) ?recs"
    unfolding cells_back_def
  proof (intro allI impI)
    fix k' assume k': "k' < length (?tab[k := int i])" and t: "0 \<le> ?tab[k := int i] ! k'"
    show "?tab[k := int i] ! k' < int (length ?recs) \<and> rec_kpos (?recs ! nat (?tab[k := int i] ! k')) = int k' \<and>
       on_path (?tab[k := int i]) (nat (hash_key (rec_pair (?recs ! nat (?tab[k := int i] ! k'))) (t_maxpos H))) k'"
    proof (cases "k' = k")
      case True
      have "?tab ! ((nat ?h + i) mod 2 ^ b) \<noteq> -1" if "i < j" for i using j(1) that by fastforce
      then have "on_path ?tab (nat ?h) k" using len by (auto simp: on_path_def k_def)
      then show ?thesis using True k len i(1) m by (simp add: on_path_update)
    next
      case False
      then have t': "?tab[k := int i] ! k' = ?tab ! k'" by simp
      then have "nat (?tab ! k') \<in> live ?tab" using liveI [of k' ?tab] k' t by simp
      then have "nat (?tab ! k') \<noteq> i" using i(2) by blast
      then show ?thesis using cb k' t t' by (auto simp: cells_back_def intro: on_path_update)
    qed
  qed
  with put k show ?thesis by blast
qed

text \<open>Records that differ in their positions in the table only.\<close>

definition same_pairs :: "trecord list \<Rightarrow> trecord list \<Rightarrow> bool" where
  "same_pairs recs recs' \<longleftrightarrow> map (rec_kpos_update (\<lambda>_. 0)) recs = map (rec_kpos_update (\<lambda>_. 0)) recs'"

lemma same_pairs_length: "same_pairs recs recs' \<Longrightarrow> length recs' = length recs"
  unfolding same_pairs_def by (metis length_map)

lemma same_pairs_nth:
  assumes "same_pairs recs recs'" "i < length recs"
  shows "rec_pair (recs' ! i) = rec_pair (recs ! i)" "rec_freq (recs' ! i) = rec_freq (recs ! i)"
    "rec_cpos (recs' ! i) = rec_cpos (recs ! i)" "rec_hpos (recs' ! i) = rec_hpos (recs ! i)"
proof -
  have "(recs ! i)\<lparr>rec_kpos := 0\<rparr> = (recs' ! i)\<lparr>rec_kpos := 0\<rparr>"
    using assms same_pairs_length [OF assms(1)] unfolding same_pairs_def by (metis nth_map)
  then show "rec_pair (recs' ! i) = rec_pair (recs ! i)" "rec_freq (recs' ! i) = rec_freq (recs ! i)"
    "rec_cpos (recs' ! i) = rec_cpos (recs ! i)" "rec_hpos (recs' ! i) = rec_hpos (recs ! i)"
    by (metis trecord.select_convs trecord.surjective trecord.update_convs(5))+
qed

lemma same_pairs_refl [simp]: "same_pairs recs recs"
  by (simp add: same_pairs_def)

lemma same_pairs_trans: "same_pairs a b \<Longrightarrow> same_pairs b c \<Longrightarrow> same_pairs a c"
  by (simp add: same_pairs_def)

lemma same_pairs_update [simp]: "same_pairs recs (recs[i := (recs ! i)\<lparr>rec_kpos := k\<rparr>])"
  unfolding same_pairs_def by (cases "i < length recs") (auto intro!: nth_equalityI simp: nth_list_update list_update_beyond)

text \<open>The number of empty cells, which bounds how long searches are sure to end.\<close>

definition empties :: "thash \<Rightarrow> nat" where
  "empties H = count_list (t_table H) (-1)"

lemma count_list_update:
  "k < length xs \<Longrightarrow> count_list (xs[k := x]) y = count_list xs y - (if xs ! k = y then 1 else 0) + (if x = y then 1 else 0)"
  by (simp add: count_list_eq_mset mset_update)

lemma used_bound:
  assumes "\<not> f32 m < 2 * f32 u" "0 \<le> u" "0 \<le> m"
  shows "u < m + 1"
  using f32_bounds(1) [of u] f32_bounds(2) [of m] assms by linarith

lemma live_image: "live tab = (\<lambda>k. nat (tab ! k)) ` {k. k < length tab \<and> 0 \<le> tab ! k}"
  by (force simp: live_def in_set_conv_nth image_iff)

text \<open>In a table without deletion marks every cell is empty or holds an identifier of its own.\<close>

lemma unmarked_count:
  assumes "cells_back (t_table H) m recs" "\<forall>t\<in>set (t_table H). -1 \<le> t"
  shows "empties H + card (live (t_table H)) = length (t_table H)"
proof -
  let ?tab = "t_table H"
  let ?E = "{k. k < length ?tab \<and> ?tab ! k = -1}" and ?L = "{k. k < length ?tab \<and> 0 \<le> ?tab ! k}"
  have "?tab ! k = -1 \<or> 0 \<le> ?tab ! k" if "k < length ?tab" for k using assms(2) nth_mem [OF that] by fastforce
  then have "?E \<union> ?L = {..<length ?tab}" by auto
  moreover have "card (?E \<union> ?L) = card ?E + card ?L" by (rule card_Un_disjoint) auto
  moreover have "empties H = card ?E"
    unfolding empties_def by (simp add: count_list_eq_length_filter length_filter_conv_card eq_commute)
  ultimately show ?thesis using live_inj [OF assms(1)] by simp
qed

text \<open>The state of the loop of \<open>insertHash\<close> that moves the identifiers of \<open>tab\<close> to a new table.\<close>

definition moved :: "int list \<Rightarrow> trecord list \<Rightarrow> nat \<Rightarrow> nat \<Rightarrow> thash \<times> trecord list \<Rightarrow> bool" where
  "moved tab recs b j s \<longleftrightarrow> (case s of (N, rs) \<Rightarrow> length (t_table N) = 2 ^ b \<and> t_maxpos N = 2 ^ b - 1 \<and>
     cells_back (t_table N) (2 ^ b - 1) rs \<and> same_pairs recs rs \<and> (\<forall>t\<in>set (t_table N). -1 \<le> t) \<and>
     live (t_table N) = (\<lambda>k. nat (tab ! k)) ` {k. k < j \<and> 0 \<le> tab ! k})"

lemma moved_step:
  assumes I: "moved tab recs b j (N, rs)" and cb: "cells_back tab m recs"
    and j: "j < length tab" "length tab \<le> 2 ^ b" and b: "b \<le> 30" and True: "0 \<le> tab ! j"
  shows "\<exists>s'. put_id N rs (tab ! j) = Some s' \<and> moved tab recs b (Suc j) s'"
proof -
  have N: "length (t_table N) = 2 ^ b" "t_maxpos N = 2 ^ b - 1" "cells_back (t_table N) (t_maxpos N) rs" "same_pairs recs rs"
      "\<forall>t\<in>set (t_table N). -1 \<le> t" "live (t_table N) = (\<lambda>k. nat (tab ! k)) ` {k. k < j \<and> 0 \<le> tab ! k}"
    using I by (simp_all add: moved_def)
  obtain i where ti: "tab ! j = int i" using True by (metis nonneg_int_cases)
  have i: "i < length rs" using cells_backD(1) [OF cb j(1) ti] same_pairs_length [OF N(4)] by simp
  have fresh: "i \<notin> live (t_table N)"
  proof
    assume "i \<in> live (t_table N)"
    then obtain k where k: "k < j" "tab ! k = int i" unfolding N(6) by auto
    then show False using cells_backD(2) [OF cb _ k(2)] cells_backD(2) [OF cb j(1) ti] j(1) by simp
  qed
  have "card (live (t_table N)) \<le> card {k. k < j \<and> 0 \<le> tab ! k}" unfolding N(6) by (rule card_image_le) simp
  also have "\<dots> \<le> card {..<j}" by (rule card_mono) auto
  finally have room: "card (live (t_table N)) < 2 ^ b" using j by simp
  obtain k where k: "k < 2 ^ b" "t_table N ! k < 0"
      "put_id N rs (int i) = Some (N\<lparr>t_table := (t_table N)[k := int i]\<rparr>, rs[i := (rs ! i)\<lparr>rec_kpos := int k\<rparr>])"
      "cells_back ((t_table N)[k := int i]) (t_maxpos N) (rs[i := (rs ! i)\<lparr>rec_kpos := int k\<rparr>])"
    using put_id_ok [OF N(1,2) b N(3) i fresh room] by blast
  have "{k. k < Suc j \<and> 0 \<le> tab ! k} = insert j {k. k < j \<and> 0 \<le> tab ! k}" using True by (auto simp: less_Suc_eq)
  then have "live ((t_table N)[k := int i]) = (\<lambda>k. nat (tab ! k)) ` {k. k < Suc j \<and> 0 \<le> tab ! k}"
    using live_update [of k "t_table N" i] k N(1,6) by (simp add: ti)
  moreover have "\<forall>t\<in>set ((t_table N)[k := int i]). -1 \<le> t"
    using N(5) set_update_subset_insert [of "t_table N" k "int i"] by fastforce
  ultimately show ?thesis
    using k(3,4) N same_pairs_trans [OF N(4) same_pairs_update] by (simp add: ti moved_def)
qed

lemma rehash_ok:
  assumes ok: "hash_ok H recs" and m: "t_maxpos H < 2 ^ 29"
  shows "\<exists>H' recs'. rehash H recs = Some (H', recs') \<and> hash_ok H' recs' \<and> same_pairs recs recs' \<and>
    live (t_table H') = live (t_table H) \<and> empties H \<le> empties H' \<and> card (live (t_table H')) < length (t_table H')"
proof -
  obtain b where b: "length (t_table H) = 2 ^ b" "t_maxpos H = 2 ^ b - 1" "b \<le> 30"
    and cb: "cells_back (t_table H) (t_maxpos H) recs" and inj: "inj_on (\<lambda>i. rec_pair (recs ! i)) (live (t_table H))"
    and used: "t_used H = int (card (live (t_table H)))"
    using ok by (auto simp: hash_ok_def)
  let ?tab = "t_table H" and ?m = "2 ^ Suc b - 1 :: int"
  let ?new = "\<lparr>t_table = replicate (2 ^ Suc b) (-1), t_maxpos = ?m, t_used = 0\<rparr>"
  have b29: "b \<le> 29"
  proof (rule ccontr)
    assume "\<not> b \<le> 29"
    then have "(2 :: int) ^ 30 \<le> 2 ^ b" by (intro power_increasing) auto
    then show False using m b(2) by simp
  qed
  have pos: "(1 :: int) \<le> 2 ^ b" by simp
  have m2: "i32_arith (2 * t_maxpos H) = Some (2 * t_maxpos H)"
    using m pos unfolding b(2) by (simp add: i32_arith_def)
  have "2 * t_maxpos H OR 1 = ?m" unfolding b(2) by (simp add: or_one_eq)
  moreover have "(2 :: int) ^ b \<le> ?m" using pos by (simp only: power_Suc)
  ultimately have new: "createHash (2 * t_maxpos H OR 1) = Some ?new" using createHash_pow [of b ?m] b29 by simp
  let ?body = "\<lambda>i (newH, recs). do { t \<leftarrow> vec_at ?tab i; if 0 \<le> t then put_id newH recs t else Some (newH, recs) }"
  have "\<exists>s'. for_range 0 (int (2 ^ b)) ?body (?new, recs) = Some s' \<and> moved ?tab recs (Suc b) (2 ^ b) s'"
  proof (rule for_range_nat_rule)
    have "live (replicate n (- 1)) = {}" for n by (auto simp: live_def)
    then show "moved ?tab recs (Suc b) 0 (?new, recs)" by (simp add: moved_def cells_back_def)
  next
    fix j :: nat and s assume j: "j < 2 ^ b" and I: "moved ?tab recs (Suc b) j s"
    obtain N rs where s: "s = (N, rs)" by (cases s)
    show "\<exists>s'. ?body (int j) s = Some s' \<and> moved ?tab recs (Suc b) (Suc j) s'"
    proof (cases "0 \<le> ?tab ! j")
      case False
      then have "{k. k < Suc j \<and> 0 \<le> ?tab ! k} = {k. k < j \<and> 0 \<le> ?tab ! k}" by (auto simp: less_Suc_eq)
      then show ?thesis using False j b(1) I by (simp add: s vec_at_nat moved_def)
    next
      case True
      then show ?thesis using moved_step [of ?tab recs "Suc b" j N rs, OF I [unfolded s] cb] j b(1) b29
        by (simp add: s vec_at_nat)
    qed
  qed
  then obtain N rs where run: "for_range 0 (int (2 ^ b)) ?body (?new, recs) = Some (N, rs)"
    and I: "moved ?tab recs (Suc b) (2 ^ b) (N, rs)" by auto
  have lv: "live (t_table N) = live ?tab" using I live_image [of ?tab] b(1) by (simp add: moved_def)
  have res: "rehash H recs = Some (N\<lparr>t_used := t_used H\<rparr>, rs)"
    using run m2 new unfolding rehash_def by (simp add: b(2))
  have lt: "i < length recs" if "i \<in> live ?tab" for i using that cells_backD(1) [OF cb] by (blast elim: liveE)
  have "inj_on (\<lambda>i. rec_pair (rs ! i)) (live ?tab)"
    using inj same_pairs_nth(1) [of recs rs] lt I unfolding inj_on_def by (simp add: moved_def)
  then have "hash_ok (N\<lparr>t_used := t_used H\<rparr>) rs"
    using I lv used b29 unfolding hash_ok_def by (auto simp: moved_def intro!: exI [of _ "Suc b"])
  moreover have le: "card (live ?tab) \<le> 2 ^ b"
    unfolding live_inj [OF cb] b(1) using card_mono [of "{..<2 ^ b}" "{k. k < 2 ^ b \<and> 0 \<le> ?tab ! k}"] by auto
  moreover have "empties H \<le> 2 ^ b" unfolding empties_def b(1) [symmetric] by (rule count_le_length)
  moreover have "empties N + card (live ?tab) = 2 ^ Suc b" "length (t_table N) = 2 ^ Suc b"
    using I unmarked_count [of N "t_maxpos N" rs] lv by (simp_all add: moved_def)
  moreover have "card (live ?tab) < 2 ^ Suc b" using le by (rule le_less_trans) simp
  ultimately have "empties H \<le> empties (N\<lparr>t_used := t_used H\<rparr>)" "card (live (t_table (N\<lparr>t_used := t_used H\<rparr>))) < length (t_table (N\<lparr>t_used := t_used H\<rparr>))"
    "hash_ok (N\<lparr>t_used := t_used H\<rparr>) rs"
    using lv by (simp_all add: empties_def)
  moreover have "same_pairs recs rs" using I by (simp add: moved_def)
  ultimately show ?thesis using res lv by (intro exI conjI) (assumption | simp)+
qed

lemma hash_ok_put:
  assumes ok: "hash_ok H recs" and i: "i < length recs" "i \<notin> live (t_table H)" "hash_map H recs (rec_pair (recs ! i)) = None"
    and room: "card (live (t_table H)) < length (t_table H)"
  shows "\<exists>H' recs'. put_id (H\<lparr>t_used := t_used H + 1\<rparr>) recs (int i) = Some (H', recs') \<and> hash_ok H' recs' \<and>
    same_pairs recs recs' \<and> live (t_table H') = insert i (live (t_table H)) \<and> empties H \<le> Suc (empties H') \<and>
    t_maxpos H' = t_maxpos H"
proof -
  obtain b where b: "length (t_table H) = 2 ^ b" "t_maxpos H = 2 ^ b - 1" "b \<le> 30"
    and cb: "cells_back (t_table H) (t_maxpos H) recs" and inj: "inj_on (\<lambda>i. rec_pair (recs ! i)) (live (t_table H))"
    and used: "t_used H = int (card (live (t_table H)))"
    using ok by (auto simp: hash_ok_def)
  let ?H = "H\<lparr>t_used := t_used H + 1\<rparr>"
  obtain k where k: "k < 2 ^ b" "t_table H ! k < 0"
     "put_id ?H recs (int i) = Some (?H\<lparr>t_table := (t_table H)[k := int i]\<rparr>, recs[i := (recs ! i)\<lparr>rec_kpos := int k\<rparr>])"
     "cells_back ((t_table H)[k := int i]) (t_maxpos H) (recs[i := (recs ! i)\<lparr>rec_kpos := int k\<rparr>])"
    using put_id_ok [of ?H b recs i] b cb i room by auto
  let ?H' = "?H\<lparr>t_table := (t_table H)[k := int i]\<rparr>" and ?recs = "recs[i := (recs ! i)\<lparr>rec_kpos := int k\<rparr>]"
  have lv: "live (t_table ?H') = insert i (live (t_table H))" using live_update [of k "t_table H" i] k b(1) by simp
  have pair: "rec_pair (?recs ! j) = rec_pair (recs ! j)" for j by (cases "j = i") (use i(1) in auto)
  have "inj_on (\<lambda>i. rec_pair (?recs ! i)) (insert i (live (t_table H)))"
    unfolding pair using inj i(2,3) by (auto simp: inj_on_insert hash_map_None)
  then have "hash_ok ?H' ?recs"
    unfolding hash_ok_def lv using b k(4) used i(2) by auto
  moreover have "empties H \<le> Suc (empties ?H')"
    using count_list_update [of k "t_table H" "int i" "-1"] k(1) b(1) by (simp add: empties_def) linarith
  ultimately show ?thesis using k(3) lv same_pairs_update [of recs i "int k"] by (intro exI conjI) (assumption | simp)+
qed

lemma insertHash_ok:
  assumes ok: "hash_ok H recs" and m: "t_maxpos H < 2 ^ 29"
    and i: "i < length recs" "i \<notin> live (t_table H)" "hash_map H recs (rec_pair (recs ! i)) = None"
  shows "\<exists>H' recs'. insertHash H recs (int i) = Some (H', recs') \<and> hash_ok H' recs' \<and>
    same_pairs recs recs' \<and> live (t_table H') = insert i (live (t_table H)) \<and> empties H \<le> Suc (empties H')"
proof (cases "f32 (t_maxpos H) < 2 * f32 (t_used H)")
  case True
  obtain H1 recs1 where r: "rehash H recs = Some (H1, recs1)" "hash_ok H1 recs1" "same_pairs recs recs1"
      "live (t_table H1) = live (t_table H)" "empties H \<le> empties H1" "card (live (t_table H1)) < length (t_table H1)"
    using rehash_ok [OF ok m] by blast
  have lt: "j < length recs" if "j \<in> live (t_table H)" for j
    using that ok by (auto simp: hash_ok_def elim!: liveE dest: cells_backD(1))
  have "hash_map H1 recs1 (rec_pair (recs1 ! i)) = None"
    using i same_pairs_nth(1) [OF r(3)] lt unfolding hash_map_None r(4) by auto
  then obtain H' recs' where p: "put_id (H1\<lparr>t_used := t_used H1 + 1\<rparr>) recs1 (int i) = Some (H', recs')" "hash_ok H' recs'"
      "same_pairs recs1 recs'" "live (t_table H') = insert i (live (t_table H1))" "empties H1 \<le> Suc (empties H')"
    using hash_ok_put [OF r(2), of i] i r same_pairs_length [OF r(3)] by auto
  have "insertHash H recs (int i) = Some (H', recs')" using True r(1) p(1) by (simp add: insertHash_def)
  then show ?thesis using p r same_pairs_trans [OF r(3) p(3)] by auto
next
  case False
  have "0 \<le> t_maxpos H" "int (length (t_table H)) = t_maxpos H + 1" "0 \<le> t_used H" "t_used H = int (card (live (t_table H)))"
    using ok by (auto simp: hash_ok_def)
  then have "card (live (t_table H)) < length (t_table H)" using used_bound [OF False] by linarith
  then show ?thesis using hash_ok_put [OF ok i] False by (auto simp: insertHash_def)
qed

subsection \<open>Deleting and renaming\<close>

lemma live_mark:
  assumes cb: "cells_back tab m recs" and k: "k < length tab" "tab ! k = int i" and "x < 0"
  shows "live (tab[k := x]) = live tab - {i}"
proof (intro set_eqI iffI)
  fix j assume "j \<in> live (tab[k := x])"
  then obtain k' where k': "k' < length tab" "tab[k := x] ! k' = int j" by (auto elim: liveE)
  then have ne: "k' \<noteq> k" using assms(4) by (auto simp: k(1))
  then have t: "tab ! k' = int j" using k' by simp
  then have "j \<noteq> i" using cells_backD(2) [OF cb k'(1)] cells_backD(2) [OF cb k] ne by auto
  then show "j \<in> live tab - {i}" using t k'(1) nth_mem [OF k'(1)] by (auto simp: live_def)
next
  fix j assume j: "j \<in> live tab - {i}"
  then obtain k' where k': "k' < length tab" "tab ! k' = int j" by (auto elim: liveE)
  then have "k \<noteq> k'" using j k(2) by auto
  then have "tab[k := x] ! k' = int j" using k'(2) by simp
  then show "j \<in> live (tab[k := x])" using k'(1) unfolding live_def by (metis length_list_update mem_Collect_eq nth_mem)
qed

lemma deleteHash_ok:
  assumes ok: "hash_ok H recs" and i: "i \<in> live (t_table H)"
  shows "\<exists>H'. deleteHash H recs (int i) = Some H' \<and> hash_ok H' recs \<and> live (t_table H') = live (t_table H) - {i} \<and>
    empties H' = empties H \<and> t_maxpos H' = t_maxpos H"
proof -
  obtain b where b: "length (t_table H) = 2 ^ b" "t_maxpos H = 2 ^ b - 1" "b \<le> 30"
    and cb: "cells_back (t_table H) (t_maxpos H) recs" and inj: "inj_on (\<lambda>i. rec_pair (recs ! i)) (live (t_table H))"
    and used: "t_used H = int (card (live (t_table H)))"
    using ok by (auto simp: hash_ok_def)
  obtain k where k: "k < length (t_table H)" "rec_kpos (recs ! i) = int k" "t_table H ! k = int i"
    using live_cell [OF cb i] by blast
  let ?H = "H\<lparr>t_table := (t_table H)[k := -2], t_used := t_used H - 1\<rparr>"
  have res: "deleteHash H recs (int i) = Some ?H"
    using k cells_backD(1) [OF cb k(1,3)] by (simp add: deleteHash_def vec_at_nat vec_set_nat)
  have lv: "live (t_table ?H) = live (t_table H) - {i}" using live_mark [OF cb k(1,3), of "-2"] by simp
  have "cells_back (t_table ?H) (t_maxpos H) recs"
    using cb k(1) by (auto simp: cells_back_def nth_list_update intro: on_path_update)
  moreover have "t_used H - 1 = int (card (live (t_table H) - {i}))"
    using used card_Suc_Diff1 [OF finite_live i] by linarith
  ultimately have "hash_ok ?H recs"
    unfolding hash_ok_def lv using b inj by (auto simp: inj_on_diff simp del: card_Diff_insert)
  moreover have "empties ?H = empties H"
    using count_list_update [OF k(1), of "-2" "-1"] k(3) by (simp add: empties_def)
  ultimately show ?thesis using res lv by (intro exI conjI) (assumption | simp)+
qed

text \<open>Only the pair and the position of the records in the table matter to it.\<close>

lemma hash_ok_frame:
  assumes ok: "hash_ok H recs"
    and "\<And>i. i \<in> live (t_table H) \<Longrightarrow> i < length recs' \<and> rec_pair (recs' ! i) = rec_pair (recs ! i) \<and> rec_kpos (recs' ! i) = rec_kpos (recs ! i)"
  shows "hash_ok H recs'" "hash_map H recs' = hash_map H recs"
proof -
  have "cells_back (t_table H) (t_maxpos H) recs'"
    unfolding cells_back_def
  proof (intro allI impI)
    fix k assume k: "k < length (t_table H)" "0 \<le> t_table H ! k"
    then obtain i where i: "t_table H ! k = int i" by (metis nonneg_int_cases)
    then have "i \<in> live (t_table H)" using liveI [OF k] by simp
    then show "t_table H ! k < int (length recs') \<and> rec_kpos (recs' ! nat (t_table H ! k)) = int k \<and>
        on_path (t_table H) (nat (hash_key (rec_pair (recs' ! nat (t_table H ! k))) (t_maxpos H))) k"
      using assms(2) cells_backD [OF _ k(1) i] ok by (auto simp: i hash_ok_def)
  qed
  moreover have "inj_on (\<lambda>i. rec_pair (recs' ! i)) (live (t_table H))"
    using ok assms(2) by (auto simp: hash_ok_def inj_on_def)
  ultimately show ok': "hash_ok H recs'" using ok by (simp add: hash_ok_def)
  have "hash_map H recs' p = Some i \<longleftrightarrow> hash_map H recs p = Some i" for p i
    using ok ok' assms(2) by (auto simp: hash_ok_def hash_map_Some)
  then show "hash_map H recs' = hash_map H recs" by (metis (no_types) not_None_eq ext)
qed

lemma hashRepos_ok:
  assumes ok: "hash_ok H recs" and j: "j \<in> live (t_table H)" and i: "i \<notin> live (t_table H)" "i < length recs"
  shows "\<exists>H'. hashRepos H (recs[i := recs ! j]) (int i) = Some H' \<and> hash_ok H' (recs[i := recs ! j]) \<and>
    live (t_table H') = insert i (live (t_table H) - {j}) \<and> empties H' = empties H \<and> t_maxpos H' = t_maxpos H"
proof -
  obtain b where b: "length (t_table H) = 2 ^ b" "t_maxpos H = 2 ^ b - 1" "b \<le> 30"
    and cb: "cells_back (t_table H) (t_maxpos H) recs" and inj: "inj_on (\<lambda>i. rec_pair (recs ! i)) (live (t_table H))"
    and used: "t_used H = int (card (live (t_table H)))"
    using ok by (auto simp: hash_ok_def)
  obtain k where k: "k < length (t_table H)" "rec_kpos (recs ! j) = int k" "t_table H ! k = int j"
    using live_cell [OF cb j] by blast
  let ?H = "H\<lparr>t_table := (t_table H)[k := int i]\<rparr>" and ?recs = "recs[i := recs ! j]"
  have res: "hashRepos H ?recs (int i) = Some ?H"
    using k i(2) by (simp add: hashRepos_def vec_at_nat vec_set_nat)
  have lv: "live (t_table ?H) = insert i (live (t_table H) - {j})"
    using live_mark [OF cb k(1,3), of "-2"] live_update [of k "(t_table H)[k := -2]" i] k(1) by simp
  have "cells_back (t_table ?H) (t_maxpos H) ?recs"
    unfolding cells_back_def
  proof (intro allI impI)
    fix k' assume k': "k' < length (t_table ?H)" "0 \<le> t_table ?H ! k'"
    show "t_table ?H ! k' < int (length ?recs) \<and> rec_kpos (?recs ! nat (t_table ?H ! k')) = int k' \<and>
       on_path (t_table ?H) (nat (hash_key (rec_pair (?recs ! nat (t_table ?H ! k'))) (t_maxpos H))) k'"
    proof (cases "k' = k")
      case True
      then show ?thesis using k i(2) cells_backD(3) [OF cb k(1,3)] by (simp add: on_path_update)
    next
      case False
      then have t: "t_table ?H ! k' = t_table H ! k'" by simp
      then have "nat (t_table H ! k') \<noteq> i" using liveI [of k' "t_table H"] k' i(1) by auto
      then show ?thesis using t k' cb by (auto simp: cells_back_def intro: on_path_update)
    qed
  qed
  moreover have "inj_on (\<lambda>l. rec_pair (?recs ! l)) (insert i (live (t_table H) - {j}))"
  proof -
    have "rec_pair (?recs ! l) = rec_pair (recs ! (if l = i then j else l))" for l using i(2) by simp
    then show ?thesis using inj j i(1) unfolding inj_on_def by auto
  qed
  moreover have "card (insert i (live (t_table H) - {j})) = card (live (t_table H))"
    using card_Suc_Diff1 [OF finite_live j] i(1) by (simp del: card_Diff_insert)
  ultimately have "hash_ok ?H ?recs" unfolding hash_ok_def lv using b used by auto
  moreover have "empties ?H = empties H"
    using count_list_update [OF k(1), of "int i" "-1"] k(3) by (simp add: empties_def)
  ultimately show ?thesis using res lv by (intro exI conjI) (assumption | simp)+
qed

subsection \<open>The table as a dictionary\<close>

text \<open>
  What the rest of the compressor relies on: a finite map from pairs to record identifiers, with
  lookup, insertion and deletion, and the change of an identifier when a record moves.  \<open>room\<close>
  counts the insertions after which a lookup still ends; deletions do not restore it.
\<close>

locale pair_dict =
  fixes ok :: "'h \<Rightarrow> trecord list \<Rightarrow> bool"
    and dict :: "'h \<Rightarrow> trecord list \<Rightarrow> tpair \<Rightarrow> nat option"
    and room :: "'h \<Rightarrow> nat"
    and small :: "'h \<Rightarrow> bool"
    and find :: "'h \<Rightarrow> trecord list \<Rightarrow> tpair \<Rightarrow> int option"
    and add :: "'h \<Rightarrow> trecord list \<Rightarrow> int \<Rightarrow> ('h \<times> trecord list) option"
    and del :: "'h \<Rightarrow> trecord list \<Rightarrow> int \<Rightarrow> 'h option"
    and ren :: "'h \<Rightarrow> trecord list \<Rightarrow> int \<Rightarrow> 'h option"
  assumes dict_pair: "ok h r \<Longrightarrow> dict h r p = Some i \<Longrightarrow> i < length r \<and> rec_pair (r ! i) = p"
    and find: "ok h r \<Longrightarrow> 0 < room h \<Longrightarrow> find h r p = Some (case dict h r p of None \<Rightarrow> -1 | Some i \<Rightarrow> int i)"
    and add: "ok h r \<Longrightarrow> small h \<Longrightarrow> i < length r \<Longrightarrow> i \<notin> ran (dict h r) \<Longrightarrow> dict h r (rec_pair (r ! i)) = None \<Longrightarrow>
      \<exists>h' r'. add h r (int i) = Some (h', r') \<and> ok h' r' \<and> same_pairs r r' \<and>
        dict h' r' = (dict h r)(rec_pair (r ! i) \<mapsto> i) \<and> room h \<le> Suc (room h')"
    and del: "ok h r \<Longrightarrow> i \<in> ran (dict h r) \<Longrightarrow>
      \<exists>h'. del h r (int i) = Some h' \<and> ok h' r \<and> dict h' r = (dict h r)(rec_pair (r ! i) := None) \<and> room h' = room h"
    and ren: "ok h r \<Longrightarrow> j \<in> ran (dict h r) \<Longrightarrow> i \<notin> ran (dict h r) \<Longrightarrow> i < length r \<Longrightarrow>
      \<exists>h'. ren h (r[i := r ! j]) (int i) = Some h' \<and> ok h' (r[i := r ! j]) \<and>
        dict h' (r[i := r ! j]) = (dict h r)(rec_pair (r ! j) \<mapsto> i) \<and> room h' = room h"
    and frame: "ok h r \<Longrightarrow> (\<And>i. i \<in> ran (dict h r) \<Longrightarrow> i < length r' \<and> rec_pair (r' ! i) = rec_pair (r ! i) \<and> rec_kpos (r' ! i) = rec_kpos (r ! i)) \<Longrightarrow>
      ok h r' \<and> dict h r' = dict h r"
begin

lemma dict_ran: "ok h r \<Longrightarrow> i \<in> ran (dict h r) \<Longrightarrow> dict h r (rec_pair (r ! i)) = Some i"
  using dict_pair by (fastforce simp: ran_def)

text \<open>Looking up what has just been added, and what has just been deleted.\<close>

lemma find_add:
  assumes "ok h r" "small h" "i < length r" "i \<notin> ran (dict h r)" "dict h r (rec_pair (r ! i)) = None" "1 < room h"
  shows "\<exists>h' r'. add h r (int i) = Some (h', r') \<and> find h' r' (rec_pair (r ! i)) = Some (int i) \<and>
    (p \<noteq> rec_pair (r ! i) \<longrightarrow> find h' r' p = find h r p)"
proof -
  obtain h' r' where h': "add h r (int i) = Some (h', r')" "ok h' r'" "dict h' r' = (dict h r)(rec_pair (r ! i) \<mapsto> i)" "room h \<le> Suc (room h')"
    using add [OF assms(1-5)] by blast
  then show ?thesis using find [of h' r'] find [of h r] assms by auto
qed

lemma find_del:
  assumes "ok h r" "i \<in> ran (dict h r)" "0 < room h"
  shows "\<exists>h'. del h r (int i) = Some h' \<and> find h' r (rec_pair (r ! i)) = Some (-1) \<and>
    (p \<noteq> rec_pair (r ! i) \<longrightarrow> find h' r p = find h r p)"
proof -
  obtain h' where h': "del h r (int i) = Some h'" "ok h' r" "dict h' r = (dict h r)(rec_pair (r ! i) := None)" "room h' = room h"
    using del [OF assms(1,2)] by blast
  then show ?thesis using find [of h' r] find [of h r] assms by auto
qed

text \<open>Removing record \<open>i\<close> and moving record \<open>j\<close> into its place.\<close>

lemma del_ren:
  assumes "ok h r" "i \<in> ran (dict h r)" "j \<in> ran (dict h r)" "i \<noteq> j"
  shows "\<exists>h1 h'. del h r (int i) = Some h1 \<and> ren h1 (r[i := r ! j]) (int i) = Some h' \<and> ok h' (r[i := r ! j]) \<and>
    dict h' (r[i := r ! j]) = (dict h r)(rec_pair (r ! i) := None, rec_pair (r ! j) \<mapsto> i) \<and> room h' = room h"
proof -
  have ij: "dict h r (rec_pair (r ! i)) = Some i" "dict h r (rec_pair (r ! j)) = Some j"
    using dict_ran assms by auto
  obtain h1 where h1: "del h r (int i) = Some h1" "ok h1 r" "dict h1 r = (dict h r)(rec_pair (r ! i) := None)" "room h1 = room h"
    using del [OF assms(1,2)] by blast
  have "j \<in> ran (dict h1 r)" using ij assms(4) unfolding h1(3) by (intro ranI [of _ "rec_pair (r ! j)"]) auto
  moreover have "i \<notin> ran (dict h1 r)" using dict_ran [OF h1(2), of i] h1(3) by auto
  moreover have "i < length r" using dict_pair [OF assms(1) ij(1)] by simp
  ultimately show ?thesis using ren [OF h1(2), of j i] h1 by auto
qed

end

lemma hash_map_ran: "hash_ok H recs \<Longrightarrow> ran (hash_map H recs) = live (t_table H)"
  by (auto simp: ran_def hash_ok_def hash_map_Some)

lemma hash_map_upd:
  assumes "hash_ok H recs" "hash_ok H' recs'"
    and "\<And>i p. i \<in> live (t_table H') \<and> rec_pair (recs' ! i) = p \<longleftrightarrow> f p = Some i"
  shows "hash_map H' recs' = f"
proof
  fix p
  have "hash_map H' recs' p = Some i \<longleftrightarrow> f p = Some i" for i
    using assms by (simp add: hash_ok_def hash_map_Some)
  then show "hash_map H' recs' p = f p" by (metis not_None_eq)
qed

interpretation hash: pair_dict hash_ok hash_map empties "\<lambda>H. t_maxpos H < 2 ^ 29" searchHash insertHash deleteHash hashRepos
proof
  fix h r p i assume ok: "hash_ok h r" and "hash_map h r p = Some i"
  then have "i \<in> live (t_table h)" "rec_pair (r ! i) = p" by (auto simp: hash_ok_def hash_map_Some)
  then show "i < length r \<and> rec_pair (r ! i) = p" using ok cells_backD(1) by (auto simp: hash_ok_def elim!: liveE)
next
  fix h r p assume "hash_ok h r" "0 < empties h"
  then show "searchHash h r p = Some (case hash_map h r p of None \<Rightarrow> -1 | Some i \<Rightarrow> int i)"
    by (intro searchHash_ok) (auto simp: empties_def dest: count_notin)
next
  fix h r i assume a: "hash_ok h r" "t_maxpos h < 2 ^ 29" "i < length r" "i \<notin> ran (hash_map h r)" "hash_map h r (rec_pair (r ! i)) = None"
  then obtain h' r' where h: "insertHash h r (int i) = Some (h', r')" "hash_ok h' r'" "same_pairs r r'"
      "live (t_table h') = insert i (live (t_table h))" "empties h \<le> Suc (empties h')"
    using insertHash_ok [OF a(1-3)] hash_map_ran by auto
  have lt: "j < length r" if "j \<in> live (t_table h)" for j
    using that a(1) by (auto simp: hash_ok_def elim!: liveE dest: cells_backD(1))
  have "hash_map h' r' = (hash_map h r)(rec_pair (r ! i) \<mapsto> i)"
    using a h(3,4) same_pairs_nth(1) [OF h(3)] lt
    by (intro hash_map_upd [OF a(1) h(2)]) (auto simp: hash_ok_def hash_map_Some hash_map_None)
  then show "\<exists>h' r'. insertHash h r (int i) = Some (h', r') \<and> hash_ok h' r' \<and> same_pairs r r' \<and>
      hash_map h' r' = (hash_map h r)(rec_pair (r ! i) \<mapsto> i) \<and> empties h \<le> Suc (empties h')" using h by blast
next
  fix h r i assume a: "hash_ok h r" "i \<in> ran (hash_map h r)"
  then have "i \<in> live (t_table h)" by (simp add: hash_map_ran)
  then obtain h' where h: "deleteHash h r (int i) = Some h'" "hash_ok h' r" "live (t_table h') = live (t_table h) - {i}" "empties h' = empties h"
    using deleteHash_ok [OF a(1)] by blast
  have "hash_map h' r = (hash_map h r)(rec_pair (r ! i) := None)"
    using a h(3) hash_map_ran [OF a(1)]
    by (intro hash_map_upd [OF a(1) h(2)]) (auto simp: hash_ok_def hash_map_Some dest: inj_onD)
  then show "\<exists>h'. deleteHash h r (int i) = Some h' \<and> hash_ok h' r \<and>
      hash_map h' r = (hash_map h r)(rec_pair (r ! i) := None) \<and> empties h' = empties h" using h by blast
next
  fix h r i j assume a: "hash_ok h r" "j \<in> ran (hash_map h r)" "i \<notin> ran (hash_map h r)" "i < length r"
  then have "j \<in> live (t_table h)" "i \<notin> live (t_table h)" by (simp_all add: hash_map_ran)
  then obtain h' where h: "hashRepos h (r[i := r ! j]) (int i) = Some h'" "hash_ok h' (r[i := r ! j])"
      "live (t_table h') = insert i (live (t_table h) - {j})" "empties h' = empties h"
    using hashRepos_ok [OF a(1) _ _ a(4)] by blast
  have "hash_map h' (r[i := r ! j]) = (hash_map h r)(rec_pair (r ! j) \<mapsto> i)"
    using a h(3) hash_map_ran [OF a(1)]
    by (intro hash_map_upd [OF a(1) h(2)]) (auto simp: hash_ok_def hash_map_Some nth_list_update dest: inj_onD)
  then show "\<exists>h'. hashRepos h (r[i := r ! j]) (int i) = Some h' \<and> hash_ok h' (r[i := r ! j]) \<and>
      hash_map h' (r[i := r ! j]) = (hash_map h r)(rec_pair (r ! j) \<mapsto> i) \<and> empties h' = empties h" using h by blast
next
  fix h r and r' :: "trecord list" assume "hash_ok h r" "\<And>i. i \<in> ran (hash_map h r) \<Longrightarrow> i < length r' \<and> rec_pair (r' ! i) = rec_pair (r ! i) \<and> rec_kpos (r' ! i) = rec_kpos (r ! i)"
  then show "hash_ok h r' \<and> hash_map h r' = hash_map h r"
    using hash_ok_frame [of h r r'] hash_map_ran by auto
qed

text \<open>
  Property C28. On a sound table \<open>searchHash\<close> decides membership: it returns the identifier stored for
  the pair, or -1.  It never returns exactly when the pair is absent and no cell of the table is
  empty; deletion marks do not count as empty.
\<close>

theorem searchHash_decides:
  assumes "hash_ok H recs"
  shows "searchHash H recs p =
    (case hash_map H recs p of
       Some i \<Rightarrow> Some (int i)
     | None \<Rightarrow> if -1 \<in> set (t_table H) then Some (-1) else None)"
  using searchHash_ok [OF assms, of p] searchHash_diverges [OF assms, of p] by (auto split: option.splits)

definition marked_table :: thash where
  "marked_table = \<lparr>t_table = [-2, -2, 0, -2], t_maxpos = 3, t_used = 1\<rparr>"

definition marked_record :: trecord where
  "marked_record = \<lparr>rec_pair = \<lparr>left = 1, right = 2\<rparr>, rec_freq = 1, rec_cpos = 0, rec_hpos = 0, rec_kpos = 2\<rparr>"

lemma marked_table_ok: "hash_ok marked_table [marked_record]"
proof -
  have lv: "live (t_table marked_table) = {0}" by (auto simp: live_def marked_table_def)
  have key: "nat (hash_key (rec_pair marked_record) 3) < 4" using hash_key_pow [of 2] by (simp add: nat_less_iff)
  have path: "on_path (t_table marked_table) k0 2" if k0: "k0 < 4" for k0
  proof -
    obtain j where j: "(k0 + j) mod 4 = 2" using cyclic_cell [of 2 4 k0] k0 by auto
    have "t_table marked_table ! k \<noteq> -1" if "k < 4" for k
    proof -
      have "k = 0 \<or> k = 1 \<or> k = 2 \<or> k = 3" using that by auto
      then show ?thesis by (auto simp: marked_table_def)
    qed
    then show ?thesis unfolding on_path_def using j by (intro exI [of _ j]) (simp add: marked_table_def)
  qed
  have "cells_back (t_table marked_table) 3 [marked_record]"
    unfolding cells_back_def
  proof (intro allI impI)
    fix k assume k: "k < length (t_table marked_table)" "0 \<le> t_table marked_table ! k"
    then have "k = 0 \<or> k = 1 \<or> k = 2 \<or> k = 3" by (auto simp: marked_table_def)
    then have "k = 2" using k(2) by (auto simp: marked_table_def)
    then show "t_table marked_table ! k < int (length [marked_record]) \<and>
        rec_kpos ([marked_record] ! nat (t_table marked_table ! k)) = int k \<and>
        on_path (t_table marked_table) (nat (hash_key (rec_pair ([marked_record] ! nat (t_table marked_table ! k))) 3)) k"
      using path [OF key] by (simp add: marked_table_def marked_record_def)
  qed
  then show ?thesis unfolding hash_ok_def lv by (auto simp: marked_table_def intro: exI [of _ 2])
qed

text \<open>A table of four cells with one pair left in which a search for another pair goes round for ever.\<close>

theorem searchHash_decides_witness:
  "searchHash marked_table [marked_record] \<lparr>left = 1, right = 2\<rparr> = Some 0 \<and>
   searchHash marked_table [marked_record] \<lparr>left = 2, right = 1\<rparr> = None"
proof -
  have inj: "inj_on (\<lambda>i. rec_pair ([marked_record] ! i)) (live (t_table marked_table))"
    using marked_table_ok by (simp add: hash_ok_def)
  have "hash_map marked_table [marked_record] \<lparr>left = 1, right = 2\<rparr> = Some 0"
    by (simp add: hash_map_Some [OF inj]) (simp add: live_def marked_table_def marked_record_def)
  moreover have "hash_map marked_table [marked_record] \<lparr>left = 2, right = 1\<rparr> = None"
    by (auto simp: hash_map_None live_def marked_table_def marked_record_def)
  moreover have "-1 \<notin> set (t_table marked_table)" by (simp add: marked_table_def)
  ultimately show ?thesis using searchHash_decides [OF marked_table_ok] by simp
qed

text \<open>
  Property C29. \<open>insertHash\<close> always ends, also when it moves all identifiers to a table of twice the
  size, and keeps the invariant: the table then stands for the old map with the pair of the new
  record added, and the records change in their table positions only.
\<close>

theorem insertHash_updates:
  assumes "hash_ok H recs" "t_maxpos H < 2 ^ 29" "i < length recs" "i \<notin> ran (hash_map H recs)"
    and "hash_map H recs (rec_pair (recs ! i)) = None"
  shows "\<exists>H' recs'. insertHash H recs (int i) = Some (H', recs') \<and> hash_ok H' recs' \<and> same_pairs recs recs' \<and>
    hash_map H' recs' = (hash_map H recs)(rec_pair (recs ! i) \<mapsto> i) \<and> empties H \<le> Suc (empties H')"
  by (rule hash.add [OF assms])

theorem insertHash_updates_witness:
  "\<exists>H' recs'. insertHash \<lparr>t_table = [-1, -1], t_maxpos = 1, t_used = 0\<rparr> [marked_record] 0 = Some (H', recs') \<and>
     hash_map H' recs' = [\<lparr>left = 1, right = 2\<rparr> \<mapsto> 0]"
proof -
  let ?H = "\<lparr>t_table = [-1, -1], t_maxpos = 1, t_used = 0\<rparr>"
  have lv: "live (t_table ?H) = {}" by (auto simp: live_def)
  have "hash_ok ?H [marked_record]" unfolding hash_ok_def lv by (auto simp: cells_back_def less_Suc_eq intro: exI [of _ 1])
  moreover have "hash_map ?H [marked_record] = Map.empty" by (rule ext) (simp add: hash_map_None live_def)
  ultimately show ?thesis
    using insertHash_updates [of ?H "[marked_record]" 0] by (auto simp: marked_record_def)
qed

end
