(* ===== verification/Pair_Heap.thy ===== *)
theory Pair_Heap
  imports Pair_Hash
begin

text \<open>
  The priority queue of pairs (\<open>compress/heap.h\<close>, \<open>compress/heap.cc\<close>).  Pairs that occur fewer than
  \<open>sqrtu\<close> times are kept in one array per frequency.  The others sit in doubly linked lists, one per
  frequency, whose heads form a doubly linked list in the order of the frequencies.  All links
  are indices into two preallocated arrays, \<open>freq\<close> for the pairs and \<open>ff\<close> for the frequencies, each
  with a list of its free cells; -1 is the null link.

  The functions take the heap and the records it refers to.  The tests of the debugging
  flag \<open>PRNH\<close>, which is never set, are left out.
\<close>

subsection \<open>Data\<close>

record thfreq =
  f_freq :: int
  f_elems :: int
  f_larger :: int
  f_smaller :: int

record thnode =
  n_id :: int
  n_prev :: int
  n_next :: int
  n_fnode :: int

record theap =
  h_freq :: "thnode list"
  h_freef :: int
  h_ff :: "thfreq list"
  h_freeff :: int
  h_smallest :: int
  h_largest :: int
  h_infreq :: "tarray list"
  h_sqrtu :: int
  h_max :: int

text \<open>Access to the fields of a cell, and to the array of a frequency.  Array 0 is never initialised.\<close>

definition set_node :: "theap \<Rightarrow> int \<Rightarrow> (thnode \<Rightarrow> thnode) \<Rightarrow> theap option" where
  "set_node H i g = do { ns \<leftarrow> upd_at (h_freq H) i g; Some (H\<lparr>h_freq := ns\<rparr>) }"

definition set_ff :: "theap \<Rightarrow> int \<Rightarrow> (thfreq \<Rightarrow> thfreq) \<Rightarrow> theap option" where
  "set_ff H i g = do { fs \<leftarrow> upd_at (h_ff H) i g; Some (H\<lparr>h_ff := fs\<rparr>) }"

definition infreq_at :: "theap \<Rightarrow> int \<Rightarrow> tarray option" where
  "infreq_at H i = (if 1 \<le> i then vec_at (h_infreq H) i else None)"

definition infreq_set :: "theap \<Rightarrow> int \<Rightarrow> tarray \<Rightarrow> theap option" where
  "infreq_set H i A =
    (if 1 \<le> i then do { xs \<leftarrow> vec_set (h_infreq H) i A; Some (H\<lparr>h_infreq := xs\<rparr>) } else None)"

subsection \<open>Creation and destruction\<close>

partial_function (option) sqrt_loop :: "int \<Rightarrow> int \<Rightarrow> int option" where
  "sqrt_loop s u = do {
     q \<leftarrow> i32_arith (s * s);
     if q < u then sqrt_loop (s + 1) u else Some s
   }"

declare sqrt_loop.simps [code]

text \<open>The fields that the source leaves uninitialised hold the arbitrary value \<open>mem\<close>.\<close>

definition createHeap :: "int \<Rightarrow> int \<Rightarrow> int \<Rightarrow> theap option" where
  "createHeap mem u minsize = do {
     s \<leftarrow> sqrt_loop 2 u;
     Some \<lparr>h_freq = map (\<lambda>i. \<lparr>n_id = mem, n_prev = mem, n_next = (if i < s - 1 then i + 1 else -1), n_fnode = mem\<rparr>) [0..s - 1],
       h_freef = 0,
       h_ff = map (\<lambda>i. \<lparr>f_freq = mem, f_elems = mem, f_larger = (if i < s - 1 then i + 1 else -1), f_smaller = mem\<rparr>) [0..s - 1],
       h_freeff = 0,
       h_smallest = -1,
       h_largest = -1,
       h_infreq = replicate (nat s) (createArray minsize),
       h_sqrtu = s,
       h_max = s\<rparr>
   }"

definition destroyHeap :: "theap \<Rightarrow> theap option" where
  "destroyHeap H = do {
     H1 \<leftarrow> for_range 1 (h_sqrtu H) (\<lambda>i H. do { A \<leftarrow> infreq_at H i; infreq_set H i (destroyArray A) }) H;
     Some (H1\<lparr>h_infreq := [], h_freq := [], h_ff := [], h_smallest := -1, h_largest := -1, h_sqrtu := 0\<rparr>)
   }"

subsection \<open>The arrays of the infrequent pairs\<close>

definition move :: "tarray \<Rightarrow> int \<Rightarrow> int \<Rightarrow> trecord list \<Rightarrow> (tarray \<times> trecord list) option" where
  "move A i j recs = do {
     x \<leftarrow> vec_at (a_pairs A) j;
     A' \<leftarrow> arr_put A i x;
     recs' \<leftarrow> upd_at recs x (rec_hpos_update (\<lambda>_. i));
     Some (A', recs')
   }"

definition del_low :: "theap \<Rightarrow> trecord list \<Rightarrow> int \<Rightarrow> int \<Rightarrow> (theap \<times> trecord list) option" where
  "del_low H recs freq hpos = do {
     A \<leftarrow> infreq_at H freq;
     (A', recs') \<leftarrow> move A hpos (a_size A - 1) recs;
     H' \<leftarrow> infreq_set H freq (deleteArray A');
     Some (H', recs')
   }"

definition ins_low :: "theap \<Rightarrow> trecord list \<Rightarrow> int \<Rightarrow> int \<Rightarrow> (theap \<times> trecord list) option" where
  "ins_low H recs ix freq = do {
     A \<leftarrow> infreq_at H freq;
     (A', pos) \<leftarrow> insertArray A ix;
     H' \<leftarrow> infreq_set H freq A';
     recs' \<leftarrow> upd_at recs ix (rec_hpos_update (\<lambda>_. pos));
     Some (H', recs')
   }"

subsection \<open>The lists of the frequent pairs\<close>

text \<open>Remove node \<open>hpos\<close> from the list of frequency cell \<open>fp\<close>.\<close>

definition unlink_node :: "theap \<Rightarrow> int \<Rightarrow> int \<Rightarrow> theap option" where
  "unlink_node H hpos fp = do {
     p \<leftarrow> vec_at (h_freq H) hpos;
     H1 \<leftarrow> (if n_prev p = -1 then set_ff H fp (f_elems_update (\<lambda>_. n_next p))
            else set_node H (n_prev p) (n_next_update (\<lambda>_. n_next p)));
     if n_next p \<noteq> -1 then set_node H1 (n_next p) (n_prev_update (\<lambda>_. n_prev p)) else Some H1
   }"

text \<open>If the list of frequency cell \<open>fp\<close> has become empty, unlink the cell and free it.\<close>

definition drop_ff :: "theap \<Rightarrow> int \<Rightarrow> theap option" where
  "drop_ff H fp = do {
     f \<leftarrow> vec_at (h_ff H) fp;
     if f_elems f = -1 then do {
       H1 \<leftarrow> (if f_smaller f = -1 then Some (H\<lparr>h_smallest := f_larger f\<rparr>)
              else set_ff H (f_smaller f) (f_larger_update (\<lambda>_. f_larger f)));
       H2 \<leftarrow> (if f_larger f = -1 then Some (H1\<lparr>h_largest := f_smaller f\<rparr>)
              else set_ff H1 (f_larger f) (f_smaller_update (\<lambda>_. f_smaller f)));
       H3 \<leftarrow> set_ff H2 fp (f_larger_update (\<lambda>_. h_freeff H2));
       Some (H3\<lparr>h_freeff := fp\<rparr>)
     } else Some H
   }"

text \<open>Make node \<open>hpos\<close> the first of the list of frequency cell \<open>fp\<close>, whose head it was not.\<close>

definition push_node :: "theap \<Rightarrow> int \<Rightarrow> int \<Rightarrow> theap option" where
  "push_node H hpos fp = do {
     f \<leftarrow> vec_at (h_ff H) fp;
     H1 \<leftarrow> set_node H hpos (n_next_update (\<lambda>_. f_elems f));
     set_node H1 (f_elems f) (n_prev_update (\<lambda>_. hpos))
   }"

text \<open>The test whether the neighbouring frequency cell \<open>fp\<close> exists and is for \<open>freq\<close>.\<close>

definition has_freq :: "theap \<Rightarrow> int \<Rightarrow> int \<Rightarrow> bool option" where
  "has_freq H fp freq = (if fp = -1 then Some False else do { f \<leftarrow> vec_at (h_ff H) fp; Some (f_freq f = freq) })"

text \<open>Raise the frequency of the frequent node \<open>hpos\<close> to \<open>freq\<close>.\<close>

definition inc_high :: "theap \<Rightarrow> int \<Rightarrow> int \<Rightarrow> theap option" where
  "inc_high H hpos freq = do {
     p \<leftarrow> vec_at (h_freq H) hpos;
     let fp = n_fnode p;
     f \<leftarrow> vec_at (h_ff H) fp;
     above \<leftarrow> has_freq H (f_larger f) freq;
     if n_prev p = -1 \<and> n_next p = -1 \<and> \<not> above then set_ff H fp (f_freq_update (\<lambda>_. freq))
     else do {
       H1 \<leftarrow> unlink_node H hpos fp;
       H2 \<leftarrow> set_node H1 hpos (n_prev_update (\<lambda>_. -1));
       (H3, lfp) \<leftarrow>
         (if above then do { H3 \<leftarrow> push_node H2 hpos (f_larger f); Some (H3, f_larger f) }
          else do {
            let lfp = h_freeff H2;
            lf \<leftarrow> vec_at (h_ff H2) lfp;
            let H4 = H2\<lparr>h_freeff := f_larger lf\<rparr>;
            H5 \<leftarrow> set_ff H4 lfp (\<lambda>lf. lf\<lparr>f_freq := freq, f_smaller := fp, f_larger := f_larger f\<rparr>);
            H6 \<leftarrow> (if f_larger f \<noteq> -1 then set_ff H5 (f_larger f) (f_smaller_update (\<lambda>_. lfp))
                   else Some (H5\<lparr>h_largest := lfp\<rparr>));
            H7 \<leftarrow> set_ff H6 fp (f_larger_update (\<lambda>_. lfp));
            H8 \<leftarrow> set_node H7 hpos (n_next_update (\<lambda>_. -1));
            Some (H8, lfp)
          });
       H9 \<leftarrow> set_ff H3 lfp (f_elems_update (\<lambda>_. hpos));
       H10 \<leftarrow> set_node H9 hpos (n_fnode_update (\<lambda>_. lfp));
       drop_ff H10 fp
     }
   }"

text \<open>A pair becomes frequent: a free node is taken for it and put into the list of the smallest frequency.\<close>

definition ins_high :: "theap \<Rightarrow> trecord list \<Rightarrow> int \<Rightarrow> int \<Rightarrow> (theap \<times> trecord list) option" where
  "ins_high H recs ix freq = do {
     let hpos = h_freef H;
     p \<leftarrow> vec_at (h_freq H) hpos;
     let H1 = H\<lparr>h_freef := n_next p\<rparr>;
     recs' \<leftarrow> upd_at recs ix (rec_hpos_update (\<lambda>_. hpos));
     H2 \<leftarrow> set_node H1 hpos (\<lambda>p. p\<lparr>n_prev := -1, n_id := ix\<rparr>);
     same \<leftarrow> has_freq H2 (h_smallest H2) freq;
     (H3, fp) \<leftarrow>
       (if same then do { H3 \<leftarrow> push_node H2 hpos (h_smallest H2); Some (H3, h_smallest H2) }
        else do {
          let fp = h_freeff H2;
          f \<leftarrow> vec_at (h_ff H2) fp;
          let H4 = H2\<lparr>h_freeff := f_larger f\<rparr>;
          H5 \<leftarrow> set_ff H4 fp (\<lambda>f. f\<lparr>f_freq := freq, f_smaller := -1, f_larger := h_smallest H4\<rparr>);
          H6 \<leftarrow> (if h_smallest H5 \<noteq> -1 then set_ff H5 (h_smallest H5) (f_smaller_update (\<lambda>_. fp)) else Some H5);
          let H7 = H6\<lparr>h_smallest := fp\<rparr>;
          let H8 = (if h_largest H7 = -1 then H7\<lparr>h_largest := fp\<rparr> else H7);
          H9 \<leftarrow> set_node H8 hpos (n_next_update (\<lambda>_. -1));
          Some (H9, fp)
        });
     H10 \<leftarrow> set_ff H3 fp (f_elems_update (\<lambda>_. hpos));
     H11 \<leftarrow> set_node H10 hpos (n_fnode_update (\<lambda>_. fp));
     Some (H11, recs')
   }"

definition incFreq :: "theap \<Rightarrow> trecord list \<Rightarrow> int \<Rightarrow> (theap \<times> trecord list) option" where
  "incFreq H recs ix = do {
     r \<leftarrow> vec_at recs ix;
     let freq = rec_freq r;
     let hpos = rec_hpos r;
     recs1 \<leftarrow> upd_at recs ix (rec_freq_update (\<lambda>_. freq + 1));
     if h_sqrtu H \<le> freq then do { H1 \<leftarrow> inc_high H hpos (freq + 1); Some (H1, recs1) }
     else do {
       (H1, recs2) \<leftarrow> del_low H recs1 freq hpos;
       if freq + 1 < h_sqrtu H1 then ins_low H1 recs2 ix (freq + 1) else ins_high H1 recs2 ix (freq + 1)
     }
   }"

text \<open>Lower the frequency of the frequent node \<open>hpos\<close> to \<open>freq\<close>, which is still frequent.\<close>

definition dec_high :: "theap \<Rightarrow> int \<Rightarrow> int \<Rightarrow> theap option" where
  "dec_high H hpos freq = do {
     p \<leftarrow> vec_at (h_freq H) hpos;
     let fp = n_fnode p;
     f \<leftarrow> vec_at (h_ff H) fp;
     below \<leftarrow> has_freq H (f_smaller f) freq;
     if n_prev p = -1 \<and> n_next p = -1 \<and> \<not> below then set_ff H fp (f_freq_update (\<lambda>_. freq))
     else do {
       H1 \<leftarrow> unlink_node H hpos fp;
       H2 \<leftarrow> set_node H1 hpos (n_prev_update (\<lambda>_. -1));
       (H3, sfp) \<leftarrow>
         (if below then do { H3 \<leftarrow> push_node H2 hpos (f_smaller f); Some (H3, f_smaller f) }
          else do {
            let sfp = h_freeff H2;
            sf \<leftarrow> vec_at (h_ff H2) sfp;
            let H4 = H2\<lparr>h_freeff := f_larger sf\<rparr>;
            H5 \<leftarrow> set_ff H4 sfp (\<lambda>sf. sf\<lparr>f_freq := freq, f_larger := fp, f_smaller := f_smaller f\<rparr>);
            H6 \<leftarrow> (if f_smaller f \<noteq> -1 then set_ff H5 (f_smaller f) (f_larger_update (\<lambda>_. sfp))
                   else Some (H5\<lparr>h_smallest := sfp\<rparr>));
            H7 \<leftarrow> set_ff H6 fp (f_smaller_update (\<lambda>_. sfp));
            H8 \<leftarrow> set_node H7 hpos (n_next_update (\<lambda>_. -1));
            Some (H8, sfp)
          });
       H9 \<leftarrow> set_ff H3 sfp (f_elems_update (\<lambda>_. hpos));
       H10 \<leftarrow> set_node H9 hpos (n_fnode_update (\<lambda>_. sfp));
       drop_ff H10 fp
     }
   }"

text \<open>Remove node \<open>hpos\<close>, whose frequency is the smallest of the frequent ones, and free its cell.\<close>

definition del_high :: "theap \<Rightarrow> int \<Rightarrow> theap option" where
  "del_high H hpos = do {
     p \<leftarrow> vec_at (h_freq H) hpos;
     let fp = n_fnode p;
     H1 \<leftarrow> unlink_node H hpos fp;
     H2 \<leftarrow> set_node H1 hpos (n_next_update (\<lambda>_. h_freef H1));
     let H3 = H2\<lparr>h_freef := hpos\<rparr>;
     f \<leftarrow> vec_at (h_ff H3) fp;
     if f_elems f = -1 then do {
       let H4 = H3\<lparr>h_smallest := f_larger f\<rparr>;
       H5 \<leftarrow> (if f_larger f = -1 then Some (H4\<lparr>h_largest := -1\<rparr>)
              else set_ff H4 (f_larger f) (f_smaller_update (\<lambda>_. -1)));
       H6 \<leftarrow> set_ff H5 fp (f_larger_update (\<lambda>_. h_freeff H5));
       Some (H6\<lparr>h_freeff := fp\<rparr>)
     } else Some H3
   }"

text \<open>
  The part of \<open>decFreq\<close> before the call of \<open>removeRecord\<close>: the result says whether the pair has
  occurrences left.
\<close>

definition dec_heap :: "theap \<Rightarrow> trecord list \<Rightarrow> int \<Rightarrow> (theap \<times> trecord list \<times> bool) option" where
  "dec_heap H recs ix = do {
     r \<leftarrow> vec_at recs ix;
     let freq = rec_freq r;
     let hpos = rec_hpos r;
     recs1 \<leftarrow> upd_at recs ix (rec_freq_update (\<lambda>_. freq - 1));
     if h_sqrtu H < freq then do { H1 \<leftarrow> dec_high H hpos (freq - 1); Some (H1, recs1, True) }
     else do {
       (H1, recs2) \<leftarrow>
         (if freq < h_sqrtu H then del_low H recs1 freq hpos
          else do { H1 \<leftarrow> del_high H hpos; Some (H1, recs1) });
       if 0 < freq - 1 then do { (H2, recs3) \<leftarrow> ins_low H1 recs2 ix (freq - 1); Some (H2, recs3, True) }
       else Some (H1, recs2, False)
     }
   }"

definition insertHeap :: "theap \<Rightarrow> trecord list \<Rightarrow> int \<Rightarrow> (theap \<times> trecord list) option" where
  "insertHeap H recs ix = do {
     (H1, recs1) \<leftarrow> ins_low H recs ix 1;
     recs2 \<leftarrow> upd_at recs1 ix (rec_freq_update (\<lambda>_. 1));
     Some (H1, recs2)
   }"

subsection \<open>Extracting a most frequent pair\<close>

function max_loop :: "theap \<Rightarrow> int \<Rightarrow> int option" where
  "max_loop H m =
    (if m = 0 then Some 0
     else if m < 0 then None
     else do { A \<leftarrow> infreq_at H m; if a_size A = 0 then max_loop H (m - 1) else Some m })"
  by pat_completeness auto
termination by (relation "measure (\<lambda>(H, m). nat m)") auto

declare max_loop.simps [simp del]

definition extractMax :: "theap \<Rightarrow> (theap \<times> int) option" where
  "extractMax H = do {
     let H0 = (if h_max H = h_sqrtu H \<and> h_largest H = -1 then H\<lparr>h_max := h_max H - 1\<rparr> else H);
     if h_max H0 < h_sqrtu H0 then do {
       m \<leftarrow> max_loop H0 (h_max H0);
       let H1 = H0\<lparr>h_max := m\<rparr>;
       if m = 0 then Some (H1, -1)
       else do {
         A \<leftarrow> infreq_at H1 m;
         ret \<leftarrow> vec_at (a_pairs A) (a_size A - 1);
         H2 \<leftarrow> infreq_set H1 m (deleteArray A);
         Some (H2, ret)
       }
     } else do {
       let fp = h_largest H0;
       f \<leftarrow> vec_at (h_ff H0) fp;
       let pp = f_elems f;
       p \<leftarrow> vec_at (h_freq H0) pp;
       H1 \<leftarrow> set_ff H0 fp (f_elems_update (\<lambda>_. n_next p));
       H2 \<leftarrow> (if n_next p \<noteq> -1 then set_node H1 (n_next p) (n_prev_update (\<lambda>_. -1))
              else do {
                let H3 = H1\<lparr>h_largest := f_smaller f\<rparr>;
                H4 \<leftarrow> (if f_smaller f = -1 then Some (H3\<lparr>h_smallest := -1\<rparr>)
                       else set_ff H3 (f_smaller f) (f_larger_update (\<lambda>_. -1)));
                H5 \<leftarrow> set_ff H4 fp (f_larger_update (\<lambda>_. h_freeff H4));
                Some (H5\<lparr>h_freeff := fp\<rparr>)
              });
       H6 \<leftarrow> set_node H2 pp (n_next_update (\<lambda>_. h_freef H2));
       Some (H6\<lparr>h_freef := pp\<rparr>, n_id p)
     }
   }"

definition heapRepos :: "theap \<Rightarrow> trecord list \<Rightarrow> int \<Rightarrow> theap option" where
  "heapRepos H recs ix = do {
     r \<leftarrow> vec_at recs ix;
     if rec_freq r < h_sqrtu H then do {
       A \<leftarrow> infreq_at H (rec_freq r);
       A' \<leftarrow> arr_put A (rec_hpos r) ix;
       infreq_set H (rec_freq r) A'
     } else set_node H (rec_hpos r) (n_id_update (\<lambda>_. ix))
   }"

subsection \<open>The debugging output\<close>

text \<open>The lines that \<open>prnH\<close> prints after its heading, as pairs of a frequency and the first node of its list.\<close>

partial_function (option) prn_loop :: "theap \<Rightarrow> int \<Rightarrow> (int \<times> int) list option" where
  "prn_loop H fp =
    (if fp = -1 then Some []
     else do {
       f \<leftarrow> vec_at (h_ff H) fp;
       rest \<leftarrow> prn_loop H (f_smaller f);
       Some ((f_freq f, f_elems f) # rest)
     })"

declare prn_loop.simps [code]

definition prnH :: "theap \<Rightarrow> (int \<times> int) list option" where
  "prnH H = prn_loop H (h_largest H)"

end
