(* ===== verification/Links.thy ===== *)
theory Links
  imports Laconic_Prelude
begin

text \<open>
  Doubly linked lists whose links are indices, with -1 for no link.  A list of indices stands for
  the chain; \<open>first_link\<close> is the index of its head and \<open>next_link\<close>, \<open>prev_link\<close> are the links that
  its elements have.  The lemmas say how these change when an element is removed or added.
\<close>

fun first_link :: "nat list \<Rightarrow> int" where
  "first_link [] = -1"
| "first_link (x # xs) = int x"

fun next_link :: "nat list \<Rightarrow> nat \<Rightarrow> int" where
  "next_link [] x = -1"
| "next_link (y # ys) x = (if y = x then first_link ys else next_link ys x)"

definition last_link :: "nat list \<Rightarrow> int" where
  "last_link xs = first_link (rev xs)"

definition prev_link :: "nat list \<Rightarrow> nat \<Rightarrow> int" where
  "prev_link xs x = next_link (rev xs) x"

lemma first_link_append: "first_link (xs @ ys) = (if xs = [] then first_link ys else first_link xs)"
  by (cases xs) simp_all

lemma first_link_eq [simp]: "first_link xs = -1 \<longleftrightarrow> xs = []"
  by (cases xs) simp_all

lemma first_link_hd: "xs \<noteq> [] \<Longrightarrow> first_link xs = int (hd xs)"
  by (cases xs) simp_all

lemma last_link_simps [simp]: "last_link [] = -1" "last_link (xs @ [x]) = int x" "last_link xs = -1 \<longleftrightarrow> xs = []"
  by (simp_all add: last_link_def)

lemma last_link_append: "last_link (xs @ ys) = (if ys = [] then last_link xs else last_link ys)"
  by (simp add: last_link_def first_link_append)

lemma last_link_Cons: "last_link (x # xs) = (if xs = [] then int x else last_link xs)"
  using last_link_append [of "[x]" xs] last_link_simps(2) [of "[]" x] by simp

lemma last_link_last: "xs \<noteq> [] \<Longrightarrow> last_link xs = int (last xs)"
  by (induction xs) (simp_all add: last_link_Cons)

lemma next_link_notin [simp]: "x \<notin> set xs \<Longrightarrow> next_link xs x = -1"
  by (induction xs) auto

lemma prev_link_notin [simp]: "x \<notin> set xs \<Longrightarrow> prev_link xs x = -1"
  by (simp add: prev_link_def)

lemma next_link_append:
  "next_link (xs @ ys) x =
    (if x \<in> set xs then (if next_link xs x = -1 then first_link ys else next_link xs x) else next_link ys x)"
  by (induction xs) (auto simp: first_link_append)

lemma next_link_last:
  "distinct xs \<Longrightarrow> x \<in> set xs \<Longrightarrow> next_link xs x = -1 \<longleftrightarrow> x = last xs"
  by (induction xs) auto

lemma next_link_mid: "x \<notin> set xs \<Longrightarrow> next_link (xs @ x # ys) x = first_link ys"
  by (simp add: next_link_append)

lemma prev_link_mid: "x \<notin> set ys \<Longrightarrow> prev_link (xs @ x # ys) x = last_link xs"
  by (simp add: prev_link_def next_link_append last_link_def)

lemma next_link_range: "next_link xs x = -1 \<or> (\<exists>y\<in>set xs. next_link xs x = int y)"
proof (induction xs)
  case (Cons y ys)
  then show ?case by (cases ys) auto
qed simp

lemma first_link_range: "first_link xs = -1 \<or> (\<exists>y\<in>set xs. first_link xs = int y)"
  by (cases xs) auto

lemma last_link_range: "last_link xs = -1 \<or> (\<exists>y\<in>set xs. last_link xs = int y)"
  using first_link_range [of "rev xs"] by (simp add: last_link_def)

text \<open>The links of a list around an element \<open>x\<close>, before and after \<open>x\<close> is taken out.\<close>

lemma next_link_remove:
  assumes "distinct (xs @ x # ys)" "z \<in> set (xs @ ys)"
  shows "next_link (xs @ ys) z = (if z \<in> set xs \<and> z = last xs then first_link ys else next_link (xs @ x # ys) z)"
proof (cases "z \<in> set xs")
  case True
  then have "xs \<noteq> []" by auto
  then show ?thesis using True assms next_link_last [of xs z] by (auto simp: next_link_append)
next
  case False
  then show ?thesis using assms by (auto simp: next_link_append)
qed

lemma next_link_before:
  assumes "distinct (xs @ x # ys)" "z \<in> set xs"
  shows "next_link (xs @ x # ys) z = int x \<longleftrightarrow> z = last xs"
proof -
  have "next_link xs z \<noteq> int x" using next_link_range [of xs z] assms by auto
  then show ?thesis using assms next_link_last [of xs z] by (auto simp: next_link_append)
qed

lemma prev_link_remove:
  assumes "distinct (xs @ x # ys)" "z \<in> set (xs @ ys)"
  shows "prev_link (xs @ ys) z = (if z \<in> set ys \<and> z = hd ys then last_link xs else prev_link (xs @ x # ys) z)"
proof -
  have "next_link (rev ys @ rev xs) z =
      (if z \<in> set (rev ys) \<and> z = last (rev ys) then first_link (rev xs) else next_link (rev ys @ x # rev xs) z)"
    by (rule next_link_remove) (use assms in auto)
  moreover have "ys \<noteq> [] \<Longrightarrow> last (rev ys) = hd ys" by (simp add: last_rev)
  ultimately show ?thesis by (cases "ys = []") (auto simp: prev_link_def last_link_def)
qed

lemma next_link_Cons_other: "x \<noteq> z \<Longrightarrow> next_link (x # xs) z = next_link xs z"
  by simp

lemma prev_link_Cons:
  assumes "distinct (x # xs)" "z \<in> set (x # xs)"
  shows "prev_link (x # xs) z = (if z = x then -1 else if z = hd xs then int x else prev_link xs z)"
proof -
  have "next_link (rev xs) z = -1 \<longleftrightarrow> z = last (rev xs)" if "z \<in> set xs"
    by (rule next_link_last) (use assms that in simp_all)
  then have "next_link (rev xs) z = -1 \<longleftrightarrow> z = hd xs" if "z \<in> set xs" using that by (simp add: last_rev)
  then show ?thesis
    using assms by (cases "z = x") (simp_all add: prev_link_def next_link_append)
qed

lemma prev_link_range: "prev_link xs x = -1 \<or> (\<exists>y\<in>set xs. prev_link xs x = int y)"
  using next_link_range [of "rev xs" x] by (simp add: prev_link_def)

end
