(* ===== verification/Heap_Cells.thy ===== *)
theory Heap_Cells
  imports Pair_Heap Links
begin

text \<open>
  The linked lists in the priority queue of \<open>heap.cc\<close>: what their links look like, and what the steps that
  the operations of the queue are made of do to them.
\<close>

subsection \<open>The lists of the frequent pairs\<close>

text \<open>
  A frequency cell in use: its index in \<open>ff\<close>, its frequency and the nodes of its list.  \<open>high_ok\<close> describes the
  links of the cells \<open>hs\<close> in the order of the list, of nodes \<open>fl\<close> that are in no list at the moment, and
  of the free nodes \<open>fn\<close> and free cells \<open>ff\<close>.
\<close>

type_synonym fcell = "nat \<times> int \<times> nat list"

abbreviation cells_of :: "fcell list \<Rightarrow> nat list" where
  "cells_of hs \<equiv> map fst hs"

abbreviation nodes_of :: "fcell list \<Rightarrow> nat list" where
  "nodes_of hs \<equiv> concat (map (\<lambda>h. snd (snd h)) hs)"

definition cell_ok :: "theap \<Rightarrow> fcell list \<Rightarrow> fcell \<Rightarrow> bool" where
  "cell_ok H hs h \<longleftrightarrow> (case h of (c, f, ns) \<Rightarrow>
     f_freq (h_ff H ! c) = f \<and> f_elems (h_ff H ! c) = first_link ns \<and>
     f_larger (h_ff H ! c) = next_link (cells_of hs) c \<and> f_smaller (h_ff H ! c) = prev_link (cells_of hs) c \<and>
     (\<forall>x\<in>set ns. n_next (h_freq H ! x) = next_link ns x \<and> n_prev (h_freq H ! x) = prev_link ns x \<and>
        n_fnode (h_freq H ! x) = int c))"

definition high_ok :: "theap \<Rightarrow> fcell list \<Rightarrow> nat list \<Rightarrow> nat list \<Rightarrow> nat list \<Rightarrow> bool" where
  "high_ok H hs fl fn ff \<longleftrightarrow>
     distinct (nodes_of hs @ fl @ fn) \<and> set (nodes_of hs @ fl @ fn) = {..<length (h_freq H)} \<and>
     distinct (cells_of hs @ ff) \<and> set (cells_of hs @ ff) = {..<length (h_ff H)} \<and>
     (\<forall>h\<in>set hs. cell_ok H hs h) \<and>
     h_smallest H = first_link (cells_of hs) \<and> h_largest H = last_link (cells_of hs) \<and>
     h_freef H = first_link fn \<and> (\<forall>x\<in>set fn. n_next (h_freq H ! x) = next_link fn x) \<and>
     h_freeff H = first_link ff \<and> (\<forall>c\<in>set ff. f_larger (h_ff H ! c) = next_link ff c)"

lemma high_okD:
  assumes "high_ok H hs fl fn ff"
  shows "distinct (nodes_of hs @ fl @ fn)" "set (nodes_of hs @ fl @ fn) = {..<length (h_freq H)}"
    "distinct (cells_of hs @ ff)" "set (cells_of hs @ ff) = {..<length (h_ff H)}"
    "h \<in> set hs \<Longrightarrow> cell_ok H hs h"
    "h_smallest H = first_link (cells_of hs)" "h_largest H = last_link (cells_of hs)"
    "h_freef H = first_link fn" "x \<in> set fn \<Longrightarrow> n_next (h_freq H ! x) = next_link fn x"
    "h_freeff H = first_link ff" "c \<in> set ff \<Longrightarrow> f_larger (h_ff H ! c) = next_link ff c"
  using assms by (auto simp: high_ok_def)

text \<open>What the operations on the lists leave alone.\<close>

definition same_low :: "theap \<Rightarrow> theap \<Rightarrow> bool" where
  "same_low H H' \<longleftrightarrow> h_infreq H' = h_infreq H \<and> h_sqrtu H' = h_sqrtu H \<and> h_max H' = h_max H \<and>
     length (h_freq H') = length (h_freq H) \<and> length (h_ff H') = length (h_ff H) \<and>
     map n_id (h_freq H') = map n_id (h_freq H)"

lemma same_low_refl [simp]: "same_low H H"
  by (simp add: same_low_def)

lemma same_low_trans: "same_low H H1 \<Longrightarrow> same_low H1 H2 \<Longrightarrow> same_low H H2"
  by (simp add: same_low_def)

lemma upd_at_nat: "i < length xs \<Longrightarrow> upd_at xs (int i) g = Some (xs[i := g (xs ! i)])"
  by (simp add: upd_at_def vec_simps)

lemma set_node_nat: "x < length (h_freq H) \<Longrightarrow> set_node H (int x) g = Some (H\<lparr>h_freq := (h_freq H)[x := g (h_freq H ! x)]\<rparr>)"
  by (simp add: set_node_def upd_at_nat)

lemma set_ff_nat: "c < length (h_ff H) \<Longrightarrow> set_ff H (int c) g = Some (H\<lparr>h_ff := (h_ff H)[c := g (h_ff H ! c)]\<rparr>)"
  by (simp add: set_ff_def upd_at_nat)

lemma map_update_same: "g (f x) = g (xs ! i) \<Longrightarrow> map g (xs[i := f x]) = map g xs"
  by (metis list_update_id map_update)

lemma nth_upd: "xs[i := v] ! j = (if i = j \<and> j < length xs then v else xs ! j)"
  by (cases "i = j \<and> \<not> j < length xs") (auto simp: list_update_beyond)

text \<open>A node in no list can be changed freely.\<close>

lemma high_ok_floating:
  assumes "high_ok H hs fl fn ff" "x \<in> set fl"
  shows "high_ok (H\<lparr>h_freq := (h_freq H)[x := p]\<rparr>) hs fl fn ff"
proof -
  have x: "x \<notin> set (nodes_of hs)" "x \<notin> set fn" using high_okD(1) [OF assms(1)] assms(2) by auto
  have "cell_ok (H\<lparr>h_freq := (h_freq H)[x := p]\<rparr>) hs h" if "h \<in> set hs" for h
  proof -
    have "x \<notin> set (snd (snd h))" using that x(1) by auto
    then show ?thesis using high_okD(5) [OF assms(1) that]
      by (auto simp: cell_ok_def nth_upd split: prod.splits)
  qed
  then show ?thesis using assms(1) x(2) by (auto simp: high_ok_def nth_upd)
qed

lemma nodes_bound: "high_ok H hs fl fn ff \<Longrightarrow> x \<in> set (nodes_of hs @ fl @ fn) \<Longrightarrow> x < length (h_freq H)"
  using high_okD(2) by blast

lemma cells_bound: "high_ok H hs fl fn ff \<Longrightarrow> c \<in> set (cells_of hs @ ff) \<Longrightarrow> c < length (h_ff H)"
  using high_okD(4) by blast

lemma unlink_node_ok:
  assumes ok: "high_ok H (A @ (c, f, xs @ x # ys) # B) fl fn ff"
  shows "\<exists>H'. unlink_node H (int x) (int c) = Some H' \<and> same_low H H' \<and>
    high_ok H' (A @ (c, f, xs @ ys) # B) (x # fl) fn ff"
proof -
  let ?hs = "A @ (c, f, xs @ x # ys) # B" and ?hs' = "A @ (c, f, xs @ ys) # B"
  note D = high_okD [OF ok]
  have cell: "cell_ok H ?hs (c, f, xs @ x # ys)" by (rule D(5)) simp
  have dist: "distinct (xs @ x # ys)" using D(1) by auto
  have bx: "x < length (h_freq H)" and bc: "c < length (h_ff H)"
    using nodes_bound [OF ok, of x] cells_bound [OF ok, of c] by auto
  have bl: "last xs < length (h_freq H)" if "xs \<noteq> []" using nodes_bound [OF ok, of "last xs"] that by auto
  have bh: "hd ys < length (h_freq H)" if "ys \<noteq> []" using nodes_bound [OF ok, of "hd ys"] that by auto
  have px: "n_prev (h_freq H ! x) = last_link xs" "n_next (h_freq H ! x) = first_link ys"
    using cell dist by (auto simp: cell_ok_def prev_link_mid next_link_mid)
  define N1 where "N1 = (if xs = [] then h_freq H else (h_freq H)[last xs := (h_freq H ! last xs)\<lparr>n_next := first_link ys\<rparr>])"
  define F1 where "F1 = (if xs = [] then (h_ff H)[c := (h_ff H ! c)\<lparr>f_elems := first_link ys\<rparr>] else h_ff H)"
  define N2 where "N2 = (if ys = [] then N1 else N1[hd ys := (N1 ! hd ys)\<lparr>n_prev := last_link xs\<rparr>])"
  define H' where "H' = H\<lparr>h_freq := N2, h_ff := F1\<rparr>"
  have len: "length N1 = length (h_freq H)" "length N2 = length (h_freq H)" "length F1 = length (h_ff H)"
    by (simp_all add: N1_def N2_def F1_def)
  have run: "unlink_node H (int x) (int c) = Some H'"
    using bx bc bl bh px len(1)
    by (auto simp: unlink_node_def vec_simps set_node_nat set_ff_nat H'_def N1_def F1_def N2_def
        last_link_last first_link_hd)
  have N: "n_next (N2 ! z) = (if xs \<noteq> [] \<and> z = last xs then first_link ys else n_next (h_freq H ! z))"
    "n_prev (N2 ! z) = (if ys \<noteq> [] \<and> z = hd ys then last_link xs else n_prev (h_freq H ! z))"
    "n_fnode (N2 ! z) = n_fnode (h_freq H ! z)" "n_id (N2 ! z) = n_id (h_freq H ! z)" if "z < length (h_freq H)" for z
    using that bl bh by (auto simp: N1_def N2_def nth_upd)
  have F: "f_elems (F1 ! d) = (if xs = [] \<and> d = c then first_link ys else f_elems (h_ff H ! d))"
    "f_freq (F1 ! d) = f_freq (h_ff H ! d)" "f_larger (F1 ! d) = f_larger (h_ff H ! d)"
    "f_smaller (F1 ! d) = f_smaller (h_ff H ! d)" for d
    using bc by (auto simp: F1_def nth_upd)
  have cells: "cell_ok H' ?hs' h" if "h \<in> set ?hs'" for h
  proof (cases "h = (c, f, xs @ ys)")
    case True
    have "n_next (N2 ! z) = next_link (xs @ ys) z" "n_prev (N2 ! z) = prev_link (xs @ ys) z" "n_fnode (N2 ! z) = int c"
      if z: "z \<in> set (xs @ ys)" for z
    proof -
      have bz: "z < length (h_freq H)" using nodes_bound [OF ok, of z] z by auto
      have old: "n_next (h_freq H ! z) = next_link (xs @ x # ys) z" "n_prev (h_freq H ! z) = prev_link (xs @ x # ys) z"
        "n_fnode (h_freq H ! z) = int c"
        using cell z by (auto simp: cell_ok_def)
      have 1: "xs \<noteq> [] \<and> z = last xs \<longleftrightarrow> z \<in> set xs \<and> z = last xs" by auto
      have 2: "ys \<noteq> [] \<and> z = hd ys \<longleftrightarrow> z \<in> set ys \<and> z = hd ys" by auto
      show "n_next (N2 ! z) = next_link (xs @ ys) z" "n_prev (N2 ! z) = prev_link (xs @ ys) z" "n_fnode (N2 ! z) = int c"
        unfolding N [OF bz] old next_link_remove [OF dist z] prev_link_remove [OF dist z] 1 2 by simp_all
    qed
    then show ?thesis using cell F True by (auto simp: cell_ok_def H'_def first_link_append)
  next
    case False
    then have h: "h \<in> set (A @ B)" using that by auto
    obtain d g ns where hd: "h = (d, g, ns)" by (cases h)
    have "d \<noteq> c" using D(3) h hd by (force simp: image_iff)
    have ns: "z \<notin> set (xs @ x # ys)" "z < length (h_freq H)" if "z \<in> set ns" for z
      using D(1) h hd that nodes_bound [OF ok, of z] by (force+)
    then have "n_next (N2 ! z) = n_next (h_freq H ! z) \<and> n_prev (N2 ! z) = n_prev (h_freq H ! z) \<and>
        n_fnode (N2 ! z) = n_fnode (h_freq H ! z)" if "z \<in> set ns" for z
      using N [of z] that by (metis append_is_Nil_conv in_set_conv_decomp last_in_set hd_in_set Un_iff set_append list.set_intros(2))
    moreover have "cell_ok H ?hs h" using D(5) h by auto
    ultimately show ?thesis using F [of d] \<open>d \<noteq> c\<close> by (auto simp: cell_ok_def H'_def hd)
  qed
  have "n_next (N2 ! z) = next_link fn z" if "z \<in> set fn" for z
  proof -
    have "z \<notin> set xs" "z < length (h_freq H)" using D(1) that nodes_bound [OF ok, of z] by auto
    then show ?thesis using N(1) [of z] D(9) [OF that] last_in_set by fastforce
  qed
  then have "high_ok H' ?hs' (x # fl) fn ff"
    using D cells F len unfolding high_ok_def by (auto simp: H'_def)
  moreover have "same_low H H'"
    using len N(4) by (auto simp: same_low_def H'_def intro: nth_equalityI)
  ultimately show ?thesis using run by blast
qed


lemma in_append_mid: "h \<in> set (A @ B) \<Longrightarrow> h \<in> set (A @ x # B)"
  by auto

lemma cell_ok_frame:
  assumes "cell_ok H hs (d, g, ns)"
    and "f_freq (h_ff H' ! d) = f_freq (h_ff H ! d)" "f_elems (h_ff H' ! d) = f_elems (h_ff H ! d)"
    and "f_larger (h_ff H' ! d) = next_link (cells_of hs') d" "f_smaller (h_ff H' ! d) = prev_link (cells_of hs') d"
    and "\<And>z. z \<in> set ns \<Longrightarrow> n_next (h_freq H' ! z) = n_next (h_freq H ! z) \<and>
      n_prev (h_freq H' ! z) = n_prev (h_freq H ! z) \<and> n_fnode (h_freq H' ! z) = n_fnode (h_freq H ! z)"
  shows "cell_ok H' hs' (d, g, ns)"
  using assms by (auto simp: cell_ok_def)

lemma high_other:
  assumes "high_ok H (A @ (c, f, ns) # B) fl fn ff" "(d, g, ms) \<in> set (A @ B)"
  shows "d \<noteq> c" "set ms \<inter> set ns = {}" "set ms \<inter> set fl = {}" "set ms \<inter> set fn = {}" "d \<notin> set ff"
proof -
  note D = high_okD(1,3) [OF assms(1)]
  have "d \<in> set (cells_of (A @ B))" using assms(2) by force
  then show "d \<noteq> c" "d \<notin> set ff" using D(2) by auto
  have d: "distinct (nodes_of A @ ns @ nodes_of B @ fl @ fn)" using D(1) by simp
  have "set ms \<subseteq> set (nodes_of A) \<union> set (nodes_of B)" using assms(2) by force
  then show "set ms \<inter> set ns = {}" "set ms \<inter> set fl = {}" "set ms \<inter> set fn = {}"
    using d unfolding distinct_append set_append by blast+
qed

text \<open>A node is put in front of the list of a cell.\<close>

definition put_front :: "theap \<Rightarrow> int \<Rightarrow> int \<Rightarrow> theap option" where
  "put_front H x c = do {
     H1 \<leftarrow> push_node H x c;
     H2 \<leftarrow> set_ff H1 c (f_elems_update (\<lambda>_. x));
     set_node H2 x (n_fnode_update (\<lambda>_. c))
   }"

lemma put_front_ok:
  assumes ok: "high_ok H (A @ (c, f, ns) # B) (x # fl) fn ff" and ns: "ns \<noteq> []" and pv: "n_prev (h_freq H ! x) = -1"
  shows "\<exists>H'. put_front H (int x) (int c) = Some H' \<and> same_low H H' \<and> high_ok H' (A @ (c, f, x # ns) # B) fl fn ff"
proof -
  let ?hs = "A @ (c, f, ns) # B" and ?hs' = "A @ (c, f, x # ns) # B"
  note D = high_okD [OF ok]
  define y where "y = hd ns"
  have y: "y \<in> set ns" "first_link ns = int y" using ns by (simp_all add: y_def first_link_hd)
  have cell: "cell_ok H ?hs (c, f, ns)" by (rule D(5)) simp
  have dist: "distinct (x # ns)" using D(1) by auto
  have b: "x < length (h_freq H)" "y < length (h_freq H)" "c < length (h_ff H)" "x \<noteq> y"
    using nodes_bound [OF ok, of x] nodes_bound [OF ok, of y] cells_bound [OF ok, of c] y dist by auto
  define N where "N = (h_freq H)[x := (h_freq H ! x)\<lparr>n_next := int y\<rparr>, y := (h_freq H ! y)\<lparr>n_prev := int x\<rparr>,
    x := (h_freq H ! x)\<lparr>n_next := int y, n_fnode := int c\<rparr>]"
  define H' where "H' = H\<lparr>h_freq := N, h_ff := (h_ff H)[c := (h_ff H ! c)\<lparr>f_elems := int x\<rparr>]\<rparr>"
  have run: "put_front H (int x) (int c) = Some H'"
    using b y cell
    by (simp add: put_front_def push_node_def vec_simps set_node_nat set_ff_nat H'_def N_def cell_ok_def)
  have N: "n_next (N ! z) = (if z = x then int y else n_next (h_freq H ! z))"
    "n_prev (N ! z) = (if z = y then int x else n_prev (h_freq H ! z))"
    "n_fnode (N ! z) = (if z = x then int c else n_fnode (h_freq H ! z))" "n_id (N ! z) = n_id (h_freq H ! z)" for z
    using b by (auto simp: N_def nth_upd)
  have "cell_ok H' ?hs' (c, f, x # ns)"
    using cell dist y(2) pv b unfolding cell_ok_def
    by (auto simp: H'_def N prev_link_Cons nth_upd y_def)
  moreover have "cell_ok H' ?hs' h" if "h \<in> set (A @ B)" for h
  proof -
    obtain d g ms where h: "h = (d, g, ms)" by (cases h)
    note other = high_other [OF ok that [unfolded h]]
    show ?thesis unfolding h
      by (rule cell_ok_frame [OF D(5) [OF that [unfolded h, THEN in_append_mid]]])
        (use other y(1) D(5) [OF that [unfolded h, THEN in_append_mid]] in \<open>auto simp: H'_def N nth_upd cell_ok_def\<close>)
  qed
  moreover have "x \<notin> set fn" using D(1) by auto
  then have "n_next (N ! z) = next_link fn z" if "z \<in> set fn" for z using D(9) that by (auto simp: N)
  ultimately have "high_ok H' ?hs' fl fn ff" using D unfolding high_ok_def by (auto simp: H'_def N_def nth_upd)
  moreover have "same_low H H'" using N(4) by (auto simp: same_low_def H'_def N_def intro: nth_equalityI)
  ultimately show ?thesis using run by blast
qed

text \<open>The links around an element that is put into a list.\<close>

lemma next_link_insert:
  assumes "distinct (xs @ x # ys)" "z \<in> set (xs @ ys)"
  shows "next_link (xs @ x # ys) z = (if xs \<noteq> [] \<and> z = last xs then int x else next_link (xs @ ys) z)"
proof (cases "xs \<noteq> [] \<and> z = last xs")
  case True
  then show ?thesis using next_link_before [OF assms(1), of z] by simp
next
  case False
  then have "\<not> (z \<in> set xs \<and> z = last xs)" by auto
  then have "next_link (xs @ ys) z = next_link (xs @ x # ys) z" using next_link_remove [OF assms] by (simp only: if_False)
  then show ?thesis using False by (simp only: if_False)
qed

lemma prev_link_insert:
  assumes "distinct (xs @ x # ys)" "z \<in> set (xs @ ys)"
  shows "prev_link (xs @ x # ys) z = (if ys \<noteq> [] \<and> z = hd ys then int x else prev_link (xs @ ys) z)"
proof -
  have "next_link (rev ys @ x # rev xs) z =
      (if rev ys \<noteq> [] \<and> z = last (rev ys) then int x else next_link (rev ys @ rev xs) z)"
    by (rule next_link_insert) (use assms in auto)
  then show ?thesis by (simp add: prev_link_def last_rev)
qed

text \<open>A node gets a cell of its own, between the cells of \<open>A\<close> and of \<open>B\<close>.\<close>

lemma new_cell_ok:
  assumes ok: "high_ok H (A @ B) (x # fl) fn (d # ff)"
    and len: "length (h_freq H') = length (h_freq H)" "length (h_ff H') = length (h_ff H)"
    and N: "\<And>z. z < length (h_freq H) \<Longrightarrow> z \<noteq> x \<Longrightarrow> h_freq H' ! z = h_freq H ! z"
      "n_next (h_freq H' ! x) = -1" "n_prev (h_freq H' ! x) = -1" "n_fnode (h_freq H' ! x) = int d"
    and F: "\<And>e. e < length (h_ff H) \<Longrightarrow> f_freq (h_ff H' ! e) = (if e = d then f else f_freq (h_ff H ! e)) \<and>
        f_elems (h_ff H' ! e) = (if e = d then int x else f_elems (h_ff H ! e)) \<and>
        f_larger (h_ff H' ! e) = (if e = d then first_link (cells_of B)
          else if A \<noteq> [] \<and> e = last (cells_of A) then int d else f_larger (h_ff H ! e)) \<and>
        f_smaller (h_ff H' ! e) = (if e = d then last_link (cells_of A)
          else if B \<noteq> [] \<and> e = hd (cells_of B) then int d else f_smaller (h_ff H ! e))"
    and ends: "h_smallest H' = (if A = [] then int d else h_smallest H)" "h_largest H' = (if B = [] then int d else h_largest H)"
      "h_freef H' = h_freef H" "h_freeff H' = first_link ff"
  shows "high_ok H' (A @ (d, f, [x]) # B) fl fn ff"
proof -
  let ?hs' = "A @ (d, f, [x]) # B"
  note D = high_okD [OF ok]
  have dist: "distinct (cells_of A @ d # cells_of B)" and d: "d \<notin> set (cells_of (A @ B))" "d < length (h_ff H)"
    using D(3) cells_bound [OF ok, of d] by auto
  have dn: "distinct (nodes_of A @ nodes_of B @ x # fl @ fn)" using D(1) by simp
  have fd: "f_freq (h_ff H' ! d) = f" "f_elems (h_ff H' ! d) = int x" "f_larger (h_ff H' ! d) = first_link (cells_of B)"
    "f_smaller (h_ff H' ! d) = last_link (cells_of A)"
    using F [OF d(2)] by simp_all
  have "next_link (cells_of ?hs') d = first_link (cells_of B)" "prev_link (cells_of ?hs') d = last_link (cells_of A)"
    using dist by (simp_all add: next_link_mid prev_link_mid)
  then have "cell_ok H' ?hs' (d, f, [x])"
    unfolding cell_ok_def by (simp add: fd N(2-4) prev_link_def)
  moreover have "cell_ok H' ?hs' h" if h: "h \<in> set (A @ B)" for h
  proof -
    obtain e g ms where heq: "h = (e, g, ms)" by (cases h)
    have e: "e \<in> set (cells_of A @ cells_of B)" using imageI [OF h, of fst] heq by (simp add: image_Un)
    have e: "e \<in> set (cells_of A @ cells_of B)" "e < length (h_ff H)" "e \<noteq> d"
      using e cells_bound [OF ok, of e] d(1) by auto
    have sub: "set ms \<subseteq> set (nodes_of A) \<union> set (nodes_of B)" using h heq by force
    have ms: "z \<noteq> x \<and> z < length (h_freq H)" if z: "z \<in> set ms" for z
    proof -
      have "z \<in> set (nodes_of A) \<union> set (nodes_of B)" using sub z by blast
      then show ?thesis using dn nodes_bound [OF ok, of z] by auto
    qed
    have old: "cell_ok H (A @ B) (e, g, ms)" using D(5) h heq by simp
    show ?thesis unfolding heq
    proof (rule cell_ok_frame [OF old])
      show "f_larger (h_ff H' ! e) = next_link (cells_of ?hs') e"
        using F [OF e(2)] e(3) old next_link_insert [OF dist e(1)] by (auto simp: cell_ok_def)
      show "f_smaller (h_ff H' ! e) = prev_link (cells_of ?hs') e"
        using F [OF e(2)] e(3) old prev_link_insert [OF dist e(1)] by (auto simp: cell_ok_def)
    qed (use F [OF e(2)] e(3) N(1) ms in auto)
  qed
  moreover have "n_next (h_freq H' ! z) = next_link fn z" if "z \<in> set fn" for z
  proof -
    have "z \<noteq> x" using dn that by auto
    then show ?thesis using D(9) [OF that] N(1) [of z] nodes_bound [OF ok, of z] that by simp
  qed
  moreover have "f_larger (h_ff H' ! e) = next_link ff e" if "e \<in> set ff" for e
  proof -
    have "e \<noteq> d" "e \<notin> set (cells_of (A @ B))" using D(3) that by auto
    moreover have "e \<noteq> last (cells_of A)" if "A \<noteq> []" using calculation(2) that last_in_set [of "cells_of A"] by auto
    ultimately show ?thesis using F [of e] cells_bound [OF ok, of e] D(11) [of e] that by auto
  qed
  ultimately show ?thesis
    using D len ends dn unfolding high_ok_def
    by (auto simp: first_link_append last_link_append last_link_Cons)
qed

text \<open>A cell whose list is empty is taken out and becomes the first free cell.\<close>

lemma dropped_cell_ok:
  assumes ok: "high_ok H (A @ (c, f, []) # B) fl fn ff"
    and N: "h_freq H' = h_freq H" and len: "length (h_ff H') = length (h_ff H)"
    and F: "\<And>e. e < length (h_ff H) \<Longrightarrow> f_freq (h_ff H' ! e) = f_freq (h_ff H ! e) \<and>
        f_elems (h_ff H' ! e) = f_elems (h_ff H ! e) \<and>
        f_larger (h_ff H' ! e) = (if e = c then first_link ff
          else if A \<noteq> [] \<and> e = last (cells_of A) then first_link (cells_of B) else f_larger (h_ff H ! e)) \<and>
        (e \<noteq> c \<longrightarrow> f_smaller (h_ff H' ! e) = (if B \<noteq> [] \<and> e = hd (cells_of B) then last_link (cells_of A) else f_smaller (h_ff H ! e)))"
    and ends: "h_smallest H' = (if A = [] then first_link (cells_of B) else h_smallest H)"
      "h_largest H' = (if B = [] then last_link (cells_of A) else h_largest H)" "h_freef H' = h_freef H" "h_freeff H' = int c"
  shows "high_ok H' (A @ B) fl fn (c # ff)"
proof -
  note D = high_okD [OF ok]
  have dist: "distinct (cells_of A @ c # cells_of B)" and c: "c \<notin> set (cells_of (A @ B))" "c < length (h_ff H)" "c \<notin> set ff"
    using D(3) cells_bound [OF ok, of c] by auto
  have "cell_ok H' (A @ B) h" if h: "h \<in> set (A @ B)" for h
  proof -
    obtain e g ms where heq: "h = (e, g, ms)" by (cases h)
    have e: "e \<in> set (cells_of A @ cells_of B)" using imageI [OF h, of fst] heq by (simp add: image_Un)
    have e: "e \<in> set (cells_of A @ cells_of B)" "e < length (h_ff H)" "e \<noteq> c"
      using e cells_bound [OF ok, of e] c(1) by auto
    have old: "cell_ok H (A @ (c, f, []) # B) (e, g, ms)" using D(5) h heq by auto
    have 1: "A \<noteq> [] \<and> e = last (cells_of A) \<longleftrightarrow> e \<in> set (cells_of A) \<and> e = last (cells_of A)"
      using last_in_set [of "cells_of A"] by auto
    have 2: "B \<noteq> [] \<and> e = hd (cells_of B) \<longleftrightarrow> e \<in> set (cells_of B) \<and> e = hd (cells_of B)"
      using hd_in_set [of "cells_of B"] by auto
    show ?thesis unfolding heq
    proof (rule cell_ok_frame [OF old])
      show "f_larger (h_ff H' ! e) = next_link (cells_of (A @ B)) e"
        using F [OF e(2)] e(3) old next_link_remove [OF dist e(1)] unfolding 1 by (auto simp: cell_ok_def)
      show "f_smaller (h_ff H' ! e) = prev_link (cells_of (A @ B)) e"
        using F [OF e(2)] e(3) old prev_link_remove [OF dist e(1)] unfolding 2 by (auto simp: cell_ok_def)
    qed (use F [OF e(2)] N in auto)
  qed
  moreover have "f_larger (h_ff H' ! e) = next_link (c # ff) e" if "e \<in> set (c # ff)" for e
  proof (cases "e = c")
    case False
    then have "e \<in> set ff" "e \<notin> set (cells_of (A @ B))" using D(3) that by auto
    moreover have "e \<noteq> last (cells_of A)" if "A \<noteq> []" using calculation(2) that last_in_set [of "cells_of A"] by auto
    ultimately show ?thesis using F [of e] cells_bound [OF ok, of e] D(11) [of e] False by auto
  qed (use F [OF c(2)] in simp)
  ultimately show ?thesis
    using D N len ends unfolding high_ok_def
    by (auto simp: first_link_append last_link_append last_link_Cons)
qed

lemma cell_links:
  assumes "high_ok H (A @ (c, f, ns) # B) fl fn ff"
  shows "f_larger (h_ff H ! c) = first_link (cells_of B)" "f_smaller (h_ff H ! c) = last_link (cells_of A)"
    "f_elems (h_ff H ! c) = first_link ns" "f_freq (h_ff H ! c) = f" "c < length (h_ff H)"
proof -
  have "cell_ok H (A @ (c, f, ns) # B) (c, f, ns)" by (rule high_okD(5) [OF assms]) simp
  moreover have "c \<notin> set (cells_of A)" "c \<notin> set (cells_of B)" using high_okD(3) [OF assms] by auto
  ultimately show "f_larger (h_ff H ! c) = first_link (cells_of B)" "f_smaller (h_ff H ! c) = last_link (cells_of A)"
    "f_elems (h_ff H ! c) = first_link ns" "f_freq (h_ff H ! c) = f"
    by (simp_all add: cell_ok_def next_link_mid prev_link_mid)
  show "c < length (h_ff H)" using cells_bound [OF assms, of c] by simp
qed

lemma cells_ends:
  assumes ok: "high_ok H (A @ (c, f, ns) # B) fl fn ff"
  shows "A \<noteq> [] \<Longrightarrow> last (cells_of A) < length (h_ff H) \<and> last (cells_of A) \<noteq> c \<and> last (cells_of A) \<notin> set ff"
    "B \<noteq> [] \<Longrightarrow> hd (cells_of B) < length (h_ff H) \<and> hd (cells_of B) \<noteq> c \<and> hd (cells_of B) \<notin> set ff"
    "A \<noteq> [] \<Longrightarrow> B \<noteq> [] \<Longrightarrow> last (cells_of A) \<noteq> hd (cells_of B)"
proof -
  have d: "distinct (cells_of A @ c # cells_of B @ ff)" using high_okD(3) [OF ok] by simp
  have a: "last (cells_of A) \<in> set (cells_of A)" if "A \<noteq> []" using that by (intro last_in_set) simp
  have b: "hd (cells_of B) \<in> set (cells_of B)" if "B \<noteq> []" using that by (intro hd_in_set) simp
  show "last (cells_of A) < length (h_ff H) \<and> last (cells_of A) \<noteq> c \<and> last (cells_of A) \<notin> set ff" if "A \<noteq> []"
    using a [OF that] d cells_bound [OF ok, of "last (cells_of A)"] by auto
  show "hd (cells_of B) < length (h_ff H) \<and> hd (cells_of B) \<noteq> c \<and> hd (cells_of B) \<notin> set ff" if "B \<noteq> []"
    using b [OF that] d cells_bound [OF ok, of "hd (cells_of B)"] by auto
  show "last (cells_of A) \<noteq> hd (cells_of B)" if "A \<noteq> []" "B \<noteq> []"
    using a [OF that(1)] b [OF that(2)] d by (metis append.assoc distinct_append disjoint_iff append_Cons set_append Un_iff list.set_intros(2))
qed

lemma drop_ff_ok:
  assumes ok: "high_ok H (A @ (c, f, ns) # B) fl fn ff"
  shows "\<exists>H'. drop_ff H (int c) = Some H' \<and> same_low H H' \<and>
    (if ns = [] then high_ok H' (A @ B) fl fn (c # ff) else H' = H)"
proof (cases "ns = []")
  case False
  then show ?thesis using cell_links [OF ok] by (simp add: drop_ff_def vec_simps)
next
  case True
  note L = cell_links [OF ok] and E = cells_ends [OF ok] and D = high_okD [OF ok]
  define F1 where "F1 = (if A = [] then h_ff H else (h_ff H)[last (cells_of A) := (h_ff H ! last (cells_of A))\<lparr>f_larger := first_link (cells_of B)\<rparr>])"
  define F2 where "F2 = (if B = [] then F1 else F1[hd (cells_of B) := (F1 ! hd (cells_of B))\<lparr>f_smaller := last_link (cells_of A)\<rparr>])"
  define H' where "H' = H\<lparr>h_ff := F2[c := (F2 ! c)\<lparr>f_larger := h_freeff H\<rparr>], h_freeff := int c,
    h_smallest := (if A = [] then first_link (cells_of B) else h_smallest H),
    h_largest := (if B = [] then last_link (cells_of A) else h_largest H)\<rparr>"
  have len: "length F1 = length (h_ff H)" "length F2 = length (h_ff H)" by (simp_all add: F1_def F2_def)
  have run: "drop_ff H (int c) = Some H'"
    using L E True len
    by (simp add: drop_ff_def vec_simps set_ff_nat H'_def F1_def F2_def last_link_last first_link_hd)
  have "high_ok H' (A @ B) fl fn (c # ff)"
  proof (rule dropped_cell_ok [OF ok [unfolded True]])
    fix e assume "e < length (h_ff H)"
    then show "f_freq (h_ff H' ! e) = f_freq (h_ff H ! e) \<and> f_elems (h_ff H' ! e) = f_elems (h_ff H ! e) \<and>
        f_larger (h_ff H' ! e) = (if e = c then first_link ff
          else if A \<noteq> [] \<and> e = last (cells_of A) then first_link (cells_of B) else f_larger (h_ff H ! e)) \<and>
        (e \<noteq> c \<longrightarrow> f_smaller (h_ff H' ! e) = (if B \<noteq> [] \<and> e = hd (cells_of B) then last_link (cells_of A) else f_smaller (h_ff H ! e)))"
      using E L len D(10) by (auto simp: H'_def F1_def F2_def nth_upd)
  qed (simp_all add: H'_def len)
  then show ?thesis using run True by (simp add: same_low_def H'_def len)
qed

text \<open>A free node is taken, and a node is freed.\<close>

lemma take_node_ok:
  assumes ok: "high_ok H hs fl (x # fn) ff"
  shows "high_ok (H\<lparr>h_freef := n_next (h_freq H ! x)\<rparr>) hs (x # fl) fn ff"
proof -
  note D = high_okD [OF ok]
  have "n_next (h_freq H ! x) = first_link fn" using D(9) [of x] by simp
  moreover have "n_next (h_freq H ! z) = next_link fn z" if "z \<in> set fn" for z
    using D(9) [of z] D(1) that by auto
  ultimately show ?thesis using D unfolding high_ok_def cell_ok_def by auto
qed

lemma free_node_ok:
  assumes ok: "high_ok H hs (x # fl) fn ff"
  shows "high_ok (H\<lparr>h_freq := (h_freq H)[x := (h_freq H ! x)\<lparr>n_next := h_freef H\<rparr>], h_freef := int x\<rparr>) hs fl (x # fn) ff"
proof -
  let ?H = "H\<lparr>h_freq := (h_freq H)[x := (h_freq H ! x)\<lparr>n_next := h_freef H\<rparr>]\<rparr>"
  note D = high_okD [OF high_ok_floating [OF ok, of x "(h_freq H ! x)\<lparr>n_next := h_freef H\<rparr>"]] and b = nodes_bound [OF ok, of x]
  have x: "x \<notin> set fn" using high_okD(1) [OF ok] by auto
  have "n_next (h_freq ?H ! z) = next_link (x # fn) z" if "z \<in> set (x # fn)" for z
    using that b x D(9) [of z] high_okD(8) [OF ok] by (auto simp: nth_upd)
  then show ?thesis using D(1-7) D(10,11) unfolding high_ok_def cell_ok_def by (simp add: ac_simps)
qed

subsection \<open>Opening a cell for a new frequency\<close>

text \<open>
  The parts of \<open>incFreq\<close>, \<open>decFreq\<close> and of the insertion of a frequent pair that take a free cell for a
  frequency not met before: after the cell \<open>fp\<close>, before it, or in front of all cells.
\<close>

definition fill_cell :: "theap \<Rightarrow> int \<Rightarrow> int \<Rightarrow> theap option" where
  "fill_cell H hpos fp = do {
     H1 \<leftarrow> set_node H hpos (n_next_update (\<lambda>_. -1));
     H2 \<leftarrow> set_ff H1 fp (f_elems_update (\<lambda>_. hpos));
     set_node H2 hpos (n_fnode_update (\<lambda>_. fp))
   }"

definition open_above :: "theap \<Rightarrow> int \<Rightarrow> int \<Rightarrow> int \<Rightarrow> int \<Rightarrow> theap option" where
  "open_above H hpos freq fp larger = do {
     let lfp = h_freeff H;
     lf \<leftarrow> vec_at (h_ff H) lfp;
     H5 \<leftarrow> set_ff (H\<lparr>h_freeff := f_larger lf\<rparr>) lfp (\<lambda>lf. lf\<lparr>f_freq := freq, f_smaller := fp, f_larger := larger\<rparr>);
     H6 \<leftarrow> (if larger \<noteq> -1 then set_ff H5 larger (f_smaller_update (\<lambda>_. lfp)) else Some (H5\<lparr>h_largest := lfp\<rparr>));
     H7 \<leftarrow> set_ff H6 fp (f_larger_update (\<lambda>_. lfp));
     fill_cell H7 hpos lfp
   }"

definition open_below :: "theap \<Rightarrow> int \<Rightarrow> int \<Rightarrow> int \<Rightarrow> int \<Rightarrow> theap option" where
  "open_below H hpos freq fp smaller = do {
     let sfp = h_freeff H;
     sf \<leftarrow> vec_at (h_ff H) sfp;
     H5 \<leftarrow> set_ff (H\<lparr>h_freeff := f_larger sf\<rparr>) sfp (\<lambda>sf. sf\<lparr>f_freq := freq, f_larger := fp, f_smaller := smaller\<rparr>);
     H6 \<leftarrow> (if smaller \<noteq> -1 then set_ff H5 smaller (f_larger_update (\<lambda>_. sfp)) else Some (H5\<lparr>h_smallest := sfp\<rparr>));
     H7 \<leftarrow> set_ff H6 fp (f_smaller_update (\<lambda>_. sfp));
     fill_cell H7 hpos sfp
   }"

definition open_first :: "theap \<Rightarrow> int \<Rightarrow> int \<Rightarrow> theap option" where
  "open_first H hpos freq = do {
     let fp = h_freeff H;
     f \<leftarrow> vec_at (h_ff H) fp;
     let H4 = H\<lparr>h_freeff := f_larger f\<rparr>;
     H5 \<leftarrow> set_ff H4 fp (\<lambda>f. f\<lparr>f_freq := freq, f_smaller := -1, f_larger := h_smallest H4\<rparr>);
     H6 \<leftarrow> (if h_smallest H5 \<noteq> -1 then set_ff H5 (h_smallest H5) (f_smaller_update (\<lambda>_. fp)) else Some H5);
     let H7 = H6\<lparr>h_smallest := fp\<rparr>;
     fill_cell (if h_largest H7 = -1 then H7\<lparr>h_largest := fp\<rparr> else H7) hpos fp
   }"

lemma open_above_ok:
  assumes ok: "high_ok H (A @ (c, f, ns) # B) (x # fl) fn (d # ff)" and pv: "n_prev (h_freq H ! x) = -1"
  shows "\<exists>H'. open_above H (int x) fr (int c) (first_link (cells_of B)) = Some H' \<and> same_low H H' \<and>
    high_ok H' (A @ (c, f, ns) # (d, fr, [x]) # B) fl fn ff"
proof -
  note L = cell_links [OF ok] and E = cells_ends [OF ok] and D = high_okD [OF ok]
  have d: "d < length (h_ff H)" "d \<noteq> c" "x < length (h_freq H)" "h_freeff H = int d" "f_larger (h_ff H ! d) = first_link ff"
    using cells_bound [OF ok, of d] nodes_bound [OF ok, of x] D(3,10) D(11) [of d] by auto
  define F1 where "F1 = (h_ff H)[d := (h_ff H ! d)\<lparr>f_freq := fr, f_smaller := int c, f_larger := first_link (cells_of B)\<rparr>]"
  define F2 where "F2 = (if B = [] then F1 else F1[hd (cells_of B) := (F1 ! hd (cells_of B))\<lparr>f_smaller := int d\<rparr>])"
  define F3 where "F3 = F2[c := (F2 ! c)\<lparr>f_larger := int d\<rparr>]"
  define H' where "H' = H\<lparr>h_ff := F3[d := (F3 ! d)\<lparr>f_elems := int x\<rparr>], h_freeff := first_link ff,
    h_largest := (if B = [] then int d else h_largest H),
    h_freq := (h_freq H)[x := (h_freq H ! x)\<lparr>n_next := -1\<rparr>, x := (h_freq H ! x)\<lparr>n_next := -1, n_fnode := int d\<rparr>]\<rparr>"
  have len: "length F1 = length (h_ff H)" "length F2 = length (h_ff H)" "length F3 = length (h_ff H)"
    by (simp_all add: F1_def F2_def F3_def)
  have run: "open_above H (int x) fr (int c) (first_link (cells_of B)) = Some H'"
  proof (cases "B = []")
    case True
    then show ?thesis using d L(5)
      by (simp add: open_above_def Let_def fill_cell_def vec_simps set_ff_nat set_node_nat H'_def F1_def F2_def F3_def)
  next
    case False
    then show ?thesis using d L(5) E(2)
      by (simp add: open_above_def Let_def fill_cell_def vec_simps set_ff_nat set_node_nat H'_def F1_def F2_def F3_def first_link_hd)
  qed
  have "high_ok H' ((A @ [(c, f, ns)]) @ (d, fr, [x]) # B) fl fn ff"
  proof (rule new_cell_ok [where H = H])
    show "high_ok H ((A @ [(c, f, ns)]) @ B) (x # fl) fn (d # ff)" using ok by simp
    fix e assume "e < length (h_ff H)"
    then show "f_freq (h_ff H' ! e) = (if e = d then fr else f_freq (h_ff H ! e)) \<and>
        f_elems (h_ff H' ! e) = (if e = d then int x else f_elems (h_ff H ! e)) \<and>
        f_larger (h_ff H' ! e) = (if e = d then first_link (cells_of B)
          else if A @ [(c, f, ns)] \<noteq> [] \<and> e = last (cells_of (A @ [(c, f, ns)])) then int d else f_larger (h_ff H ! e)) \<and>
        f_smaller (h_ff H' ! e) = (if e = d then last_link (cells_of (A @ [(c, f, ns)]))
          else if B \<noteq> [] \<and> e = hd (cells_of B) then int d else f_smaller (h_ff H ! e))"
      using E(2) d len by (auto simp: H'_def F1_def F2_def F3_def nth_upd)
  qed (use d pv len in \<open>auto simp: H'_def nth_upd\<close>)
  moreover have "same_low H H'" using len d by (auto simp: same_low_def H'_def nth_upd intro: nth_equalityI)
  ultimately show ?thesis using run by simp
qed

lemma open_below_ok:
  assumes ok: "high_ok H (A @ (c, f, ns) # B) (x # fl) fn (d # ff)" and pv: "n_prev (h_freq H ! x) = -1"
  shows "\<exists>H'. open_below H (int x) fr (int c) (last_link (cells_of A)) = Some H' \<and> same_low H H' \<and>
    high_ok H' (A @ (d, fr, [x]) # (c, f, ns) # B) fl fn ff"
proof -
  note L = cell_links [OF ok] and E = cells_ends [OF ok] and D = high_okD [OF ok]
  have d: "d < length (h_ff H)" "d \<noteq> c" "x < length (h_freq H)" "h_freeff H = int d" "f_larger (h_ff H ! d) = first_link ff"
    using cells_bound [OF ok, of d] nodes_bound [OF ok, of x] D(3,10) D(11) [of d] by auto
  define F1 where "F1 = (h_ff H)[d := (h_ff H ! d)\<lparr>f_freq := fr, f_larger := int c, f_smaller := last_link (cells_of A)\<rparr>]"
  define F2 where "F2 = (if A = [] then F1 else F1[last (cells_of A) := (F1 ! last (cells_of A))\<lparr>f_larger := int d\<rparr>])"
  define F3 where "F3 = F2[c := (F2 ! c)\<lparr>f_smaller := int d\<rparr>]"
  define H' where "H' = H\<lparr>h_ff := F3[d := (F3 ! d)\<lparr>f_elems := int x\<rparr>], h_freeff := first_link ff,
    h_smallest := (if A = [] then int d else h_smallest H),
    h_freq := (h_freq H)[x := (h_freq H ! x)\<lparr>n_next := -1\<rparr>, x := (h_freq H ! x)\<lparr>n_next := -1, n_fnode := int d\<rparr>]\<rparr>"
  have len: "length F1 = length (h_ff H)" "length F2 = length (h_ff H)" "length F3 = length (h_ff H)"
    by (simp_all add: F1_def F2_def F3_def)
  have run: "open_below H (int x) fr (int c) (last_link (cells_of A)) = Some H'"
  proof (cases "A = []")
    case True
    then show ?thesis using d L(5)
      by (simp add: open_below_def Let_def fill_cell_def vec_simps set_ff_nat set_node_nat H'_def F1_def F2_def F3_def)
  next
    case False
    then show ?thesis using d L(5) E(1)
      by (simp add: open_below_def Let_def fill_cell_def vec_simps set_ff_nat set_node_nat H'_def F1_def F2_def F3_def last_link_last)
  qed
  have "high_ok H' (A @ (d, fr, [x]) # ((c, f, ns) # B)) fl fn ff"
  proof (rule new_cell_ok [where H = H])
    show "high_ok H (A @ (c, f, ns) # B) (x # fl) fn (d # ff)" by (rule ok)
    fix e assume "e < length (h_ff H)"
    then show "f_freq (h_ff H' ! e) = (if e = d then fr else f_freq (h_ff H ! e)) \<and>
        f_elems (h_ff H' ! e) = (if e = d then int x else f_elems (h_ff H ! e)) \<and>
        f_larger (h_ff H' ! e) = (if e = d then first_link (cells_of ((c, f, ns) # B))
          else if A \<noteq> [] \<and> e = last (cells_of A) then int d else f_larger (h_ff H ! e)) \<and>
        f_smaller (h_ff H' ! e) = (if e = d then last_link (cells_of A)
          else if (c, f, ns) # B \<noteq> [] \<and> e = hd (cells_of ((c, f, ns) # B)) then int d else f_smaller (h_ff H ! e))"
      using E(1) d len by (auto simp: H'_def F1_def F2_def F3_def nth_upd)
  qed (use d pv len in \<open>auto simp: H'_def nth_upd\<close>)
  moreover have "same_low H H'" using len d by (auto simp: same_low_def H'_def nth_upd intro: nth_equalityI)
  ultimately show ?thesis using run by simp
qed

lemma open_first_ok:
  assumes ok: "high_ok H hs (x # fl) fn (d # ff)" and pv: "n_prev (h_freq H ! x) = -1"
  shows "\<exists>H'. open_first H (int x) fr = Some H' \<and> same_low H H' \<and> high_ok H' ((d, fr, [x]) # hs) fl fn ff"
proof -
  note D = high_okD [OF ok]
  have d: "d < length (h_ff H)" "x < length (h_freq H)" "h_freeff H = int d" "f_larger (h_ff H ! d) = first_link ff"
    "d \<notin> set (cells_of hs)"
    using cells_bound [OF ok, of d] nodes_bound [OF ok, of x] D(3,10) D(11) [of d] by auto
  have E: "hd (cells_of hs) < length (h_ff H) \<and> hd (cells_of hs) \<noteq> d" if "hs \<noteq> []"
  proof -
    have "hd (cells_of hs) \<in> set (cells_of hs)" using that by (intro hd_in_set) simp
    then show ?thesis using d(5) cells_bound [OF ok, of "hd (cells_of hs)"] by auto
  qed
  have ends: "h_smallest H = first_link (cells_of hs)" "h_largest H = last_link (cells_of hs)" using D(6,7) by simp_all
  define F1 where "F1 = (h_ff H)[d := (h_ff H ! d)\<lparr>f_freq := fr, f_smaller := -1, f_larger := first_link (cells_of hs)\<rparr>]"
  define F2 where "F2 = (if hs = [] then F1 else F1[hd (cells_of hs) := (F1 ! hd (cells_of hs))\<lparr>f_smaller := int d\<rparr>])"
  define H' where "H' = H\<lparr>h_ff := F2[d := (F2 ! d)\<lparr>f_elems := int x\<rparr>], h_freeff := first_link ff,
    h_smallest := int d, h_largest := (if hs = [] then int d else h_largest H),
    h_freq := (h_freq H)[x := (h_freq H ! x)\<lparr>n_next := -1\<rparr>, x := (h_freq H ! x)\<lparr>n_next := -1, n_fnode := int d\<rparr>]\<rparr>"
  have len: "length F1 = length (h_ff H)" "length F2 = length (h_ff H)" by (simp_all add: F1_def F2_def)
  have run: "open_first H (int x) fr = Some H'"
  proof (cases "hs = []")
    case True
    then show ?thesis using d ends
      by (simp add: open_first_def Let_def fill_cell_def vec_simps set_ff_nat set_node_nat H'_def F1_def F2_def)
  next
    case False
    then show ?thesis using d ends E
      by (simp add: open_first_def Let_def fill_cell_def vec_simps set_ff_nat set_node_nat H'_def F1_def F2_def first_link_hd last_link_last)
  qed
  have "high_ok H' ([] @ (d, fr, [x]) # hs) fl fn ff"
  proof (rule new_cell_ok [where H = H])
    show "high_ok H ([] @ hs) (x # fl) fn (d # ff)" using ok by simp
    fix e assume "e < length (h_ff H)"
    then show "f_freq (h_ff H' ! e) = (if e = d then fr else f_freq (h_ff H ! e)) \<and>
        f_elems (h_ff H' ! e) = (if e = d then int x else f_elems (h_ff H ! e)) \<and>
        f_larger (h_ff H' ! e) = (if e = d then first_link (cells_of hs)
          else if [] \<noteq> [] \<and> e = last (cells_of []) then int d else f_larger (h_ff H ! e)) \<and>
        f_smaller (h_ff H' ! e) = (if e = d then last_link (cells_of [])
          else if hs \<noteq> [] \<and> e = hd (cells_of hs) then int d else f_smaller (h_ff H ! e))"
      using E d len by (auto simp: H'_def F1_def F2_def nth_upd)
  qed (use d pv len in \<open>auto simp: H'_def nth_upd\<close>)
  moreover have "same_low H H'" using len d by (auto simp: same_low_def H'_def nth_upd intro: nth_equalityI)
  ultimately show ?thesis using run by simp
qed

end
