(* ===== verification/Heap_Order.thy ===== *)
theory Heap_Order
  imports Heap_Cells
begin

text \<open>
  The frequent pairs of the priority queue as a set of nodes with frequencies, and the operations
  of \<open>heap.cc\<close> on it.
\<close>

definition cells_well :: "fcell list \<Rightarrow> bool" where
  "cells_well hs \<longleftrightarrow> (\<forall>h\<in>set hs. snd (snd h) \<noteq> []) \<and> sorted_wrt (<) (map (\<lambda>h. fst (snd h)) hs)"

definition pairs_of :: "fcell list \<Rightarrow> (nat \<times> int) set" where
  "pairs_of hs = {(x, f). \<exists>c ns. (c, f, ns) \<in> set hs \<and> x \<in> set ns}"

lemma pairs_of_simps [simp]:
  "pairs_of [] = {}" "pairs_of ((c, f, ns) # hs) = (\<lambda>x. (x, f)) ` set ns \<union> pairs_of hs"
  by (auto simp: pairs_of_def)

lemma pairs_of_append [simp]: "pairs_of (A @ B) = pairs_of A \<union> pairs_of B"
  by (auto simp: pairs_of_def)

lemma pairs_of_fst: "fst ` pairs_of hs = set (nodes_of hs)"
  by (force simp: pairs_of_def)

lemma pairs_of_node: "(x, f) \<in> pairs_of hs \<Longrightarrow> x \<in> set (nodes_of hs)"
  by (force simp: pairs_of_def)

lemma cells_well_mid:
  "cells_well (A @ (c, f, ns) # B) \<longleftrightarrow> cells_well A \<and> ns \<noteq> [] \<and> cells_well B \<and>
    (\<forall>a\<in>set A. fst (snd a) < f) \<and> (\<forall>b\<in>set B. f < fst (snd b)) \<and> (\<forall>a\<in>set A. \<forall>b\<in>set B. fst (snd a) < fst (snd b))"
  by (auto simp: cells_well_def sorted_wrt_append)

lemma cells_well_append:
  "cells_well (A @ B) \<longleftrightarrow> cells_well A \<and> cells_well B \<and> (\<forall>a\<in>set A. \<forall>b\<in>set B. fst (snd a) < fst (snd b))"
  by (auto simp: cells_well_def sorted_wrt_append)

lemma length_cells_le: "(\<forall>h\<in>set hs. snd (snd h) \<noteq> []) \<Longrightarrow> length hs \<le> length (nodes_of hs)"
proof (induction hs)
  case (Cons h hs)
  then have "0 < length (snd (snd h))" "length hs \<le> length (nodes_of hs)" by simp_all
  then show ?case by (simp only: list.map concat.simps length_append list.size)
qed simp

lemma count_cells:
  assumes "high_ok H hs fl fn ff"
  shows "length (nodes_of hs) + length fl + length fn = length (h_freq H)" "length hs + length ff = length (h_ff H)"
proof -
  note D = high_okD(1-4) [OF assms]
  show "length (nodes_of hs) + length fl + length fn = length (h_freq H)"
    using distinct_card [OF D(1)] unfolding D(2) by simp
  show "length hs + length ff = length (h_ff H)"
    using distinct_card [OF D(3)] unfolding D(4) by simp
qed

lemma find_pair:
  assumes "(x, f) \<in> pairs_of hs"
  obtains A c xs ys B where "hs = A @ (c, f, xs @ x # ys) # B"
  using assms by (auto simp: pairs_of_def dest!: split_list)

subsection \<open>Raising and lowering a frequency\<close>

lemma inc_high_eq:
  "inc_high H hpos freq = do {
     p \<leftarrow> vec_at (h_freq H) hpos;
     f \<leftarrow> vec_at (h_ff H) (n_fnode p);
     above \<leftarrow> has_freq H (f_larger f) freq;
     if n_prev p = -1 \<and> n_next p = -1 \<and> \<not> above then set_ff H (n_fnode p) (f_freq_update (\<lambda>_. freq))
     else do {
       H1 \<leftarrow> unlink_node H hpos (n_fnode p);
       H2 \<leftarrow> set_node H1 hpos (n_prev_update (\<lambda>_. -1));
       H3 \<leftarrow> (if above then put_front H2 hpos (f_larger f) else open_above H2 hpos freq (n_fnode p) (f_larger f));
       drop_ff H3 (n_fnode p)
     }
   }"
  unfolding inc_high_def Let_def open_above_def put_front_def fill_cell_def
  by (intro Option.bind_cong refl if_cong) (simp_all cong: if_cong)

lemma has_freq_cell:
  assumes "high_ok H hs fl fn ff" "(c, f, ns) \<in> set hs"
  shows "has_freq H (int c) fr = Some (f = fr)"
proof -
  obtain A B where hs: "hs = A @ (c, f, ns) # B" using split_list [OF assms(2)] by blast
  show ?thesis using cell_links(4,5) [OF assms(1) [unfolded hs]] by (simp add: has_freq_def vec_simps)
qed

lemma has_freq_first:
  assumes "high_ok H (A @ B) fl fn ff"
  shows "has_freq H (first_link (cells_of B)) fr = Some (B \<noteq> [] \<and> fst (snd (hd B)) = fr)"
proof (cases B)
  case (Cons b B')
  obtain c f ns where b: "b = (c, f, ns)" by (cases b)
  show ?thesis using has_freq_cell [OF assms, of c f ns fr] Cons b by simp
qed (simp add: has_freq_def)

lemma has_freq_last:
  assumes "high_ok H (A @ B) fl fn ff"
  shows "has_freq H (last_link (cells_of A)) fr = Some (A \<noteq> [] \<and> fst (snd (last A)) = fr)"
proof (cases A rule: rev_cases)
  case (snoc A' a)
  obtain c f ns where a: "a = (c, f, ns)" by (cases a)
  show ?thesis using has_freq_cell [OF assms, of c f ns fr] snoc a by simp
qed (simp add: has_freq_def)

lemma set_freq_ok:
  assumes ok: "high_ok H (A @ (c, f, ns) # B) fl fn ff"
  shows "\<exists>H'. set_ff H (int c) (f_freq_update (\<lambda>_. fr)) = Some H' \<and> same_low H H' \<and> high_ok H' (A @ (c, fr, ns) # B) fl fn ff"
proof -
  let ?hs = "A @ (c, f, ns) # B" and ?hs' = "A @ (c, fr, ns) # B"
  note D = high_okD [OF ok] and b = cell_links(5) [OF ok]
  define H' where "H' = H\<lparr>h_ff := (h_ff H)[c := (h_ff H ! c)\<lparr>f_freq := fr\<rparr>]\<rparr>"
  have "cell_ok H' ?hs' h" if h: "h \<in> set ?hs'" for h
  proof (cases "h = (c, fr, ns)")
    case True
    have "cell_ok H ?hs (c, f, ns)" by (rule D(5)) simp
    then show ?thesis using b True by (auto simp: cell_ok_def H'_def)
  next
    case False
    then have h': "h \<in> set (A @ B)" using h by auto
    obtain e g ms where heq: "h = (e, g, ms)" by (cases h)
    have "e \<noteq> c" by (rule high_other(1) [OF ok h' [unfolded heq]])
    moreover have "cell_ok H ?hs h" using D(5) h' by auto
    ultimately show ?thesis by (auto simp: heq cell_ok_def H'_def nth_upd)
  qed
  then have "high_ok H' ?hs' fl fn ff" using D unfolding high_ok_def by (auto simp: H'_def nth_upd)
  moreover have "set_ff H (int c) (f_freq_update (\<lambda>_. fr)) = Some H'" using b by (simp add: set_ff_nat H'_def)
  ultimately show ?thesis by (auto simp: same_low_def H'_def)
qed

lemma node_links:
  assumes ok: "high_ok H (A @ (c, f, xs @ x # ys) # B) fl fn ff"
  shows "n_fnode (h_freq H ! x) = int c" "n_prev (h_freq H ! x) = last_link xs" "n_next (h_freq H ! x) = first_link ys"
    "x < length (h_freq H)" "x \<notin> set (xs @ ys)" "(x, g) \<notin> pairs_of A" "(x, g) \<notin> pairs_of B"
proof -
  have d: "distinct (nodes_of A @ (xs @ x # ys) @ nodes_of B)" using high_okD(1) [OF ok] by auto
  have "cell_ok H (A @ (c, f, xs @ x # ys) # B) (c, f, xs @ x # ys)" by (rule high_okD(5) [OF ok]) simp
  then show "n_fnode (h_freq H ! x) = int c" "n_prev (h_freq H ! x) = last_link xs" "n_next (h_freq H ! x) = first_link ys"
    using d by (simp_all add: cell_ok_def prev_link_mid next_link_mid)
  show "x < length (h_freq H)" using nodes_bound [OF ok, of x] by simp
  show "x \<notin> set (xs @ ys)" using d by simp
  show "(x, g) \<notin> pairs_of A" "(x, g) \<notin> pairs_of B"
    using d pairs_of_node [of x g A] pairs_of_node [of x g B] by auto
qed

lemma floating_prev:
  assumes "high_ok H hs (x # fl) fn ff"
  obtains H' where "set_node H (int x) (n_prev_update (\<lambda>_. -1)) = Some H'" "same_low H H'"
    "high_ok H' hs (x # fl) fn ff" "n_prev (h_freq H' ! x) = -1"
proof -
  define H' where "H' = H\<lparr>h_freq := (h_freq H)[x := (h_freq H ! x)\<lparr>n_prev := -1\<rparr>]\<rparr>"
  have "x < length (h_freq H)" using nodes_bound [OF assms, of x] by simp
  then have "set_node H (int x) (n_prev_update (\<lambda>_. -1)) = Some H'" "same_low H H'" "n_prev (h_freq H' ! x) = -1"
    by (auto simp: set_node_nat H'_def same_low_def map_update_same)
  moreover have "high_ok H' hs (x # fl) fn ff" unfolding H'_def by (rule high_ok_floating [OF assms]) simp
  ultimately show thesis using that by blast
qed

lemma inc_high_ok:
  assumes ok: "high_ok H hs [] fn ff" and well: "cells_well hs" and len: "length (h_ff H) = length (h_freq H)"
    and x: "(x, f) \<in> pairs_of hs"
  shows "\<exists>H' hs' ff'. inc_high H (int x) (f + 1) = Some H' \<and> same_low H H' \<and> high_ok H' hs' [] fn ff' \<and>
    cells_well hs' \<and> pairs_of hs' = insert (x, f + 1) (pairs_of hs - {(x, f)})"
proof -
  obtain A c xs ys B where hs: "hs = A @ (c, f, xs @ x # ys) # B" using find_pair [OF x] by blast
  note ok = ok [unfolded hs] and well = well [unfolded hs]
  note n = node_links [OF ok] and cl = cell_links [OF ok]
  define above where "above \<longleftrightarrow> B \<noteq> [] \<and> fst (snd (hd B)) = f + 1"
  have ab: "has_freq H (first_link (cells_of B)) (f + 1) = Some above"
    using has_freq_first [of H "A @ [(c, f, xs @ x # ys)]" B "[]" fn ff "f + 1"] ok by (simp add: above_def)
  have W: "cells_well A" "cells_well B" "\<And>a. a \<in> set A \<Longrightarrow> fst (snd a) < f" "\<And>b. b \<in> set B \<Longrightarrow> f < fst (snd b)"
    using well by (auto simp: cells_well_mid)
  have Wab: "cells_well (A @ B)" using well unfolding cells_well_mid unfolding cells_well_append by blast
  have prs: "pairs_of hs - {(x, f)} = pairs_of A \<union> (\<lambda>x. (x, f)) ` set (xs @ ys) \<union> pairs_of B"
    using n(5,6,7) by (auto simp: hs)
  have far: "f + 1 < fst (snd b)" if nab: "\<not> above" and b: "b \<in> set B" for b
  proof -
    obtain b0 B' where B: "B = b0 # B'" using b by (cases B) auto
    have "f + 1 < fst (snd b0)" using nab W(4) [of b0] B by (auto simp: above_def)
    moreover have "fst (snd b0) \<le> fst (snd b)" using W(2) b B by (auto simp: cells_well_def)
    ultimately show ?thesis by linarith
  qed
  have run: "inc_high H (int x) (f + 1) =
      (if xs = [] \<and> ys = [] \<and> \<not> above then set_ff H (int c) (f_freq_update (\<lambda>_. f + 1))
       else do {
         H1 \<leftarrow> unlink_node H (int x) (int c);
         H2 \<leftarrow> set_node H1 (int x) (n_prev_update (\<lambda>_. -1));
         H3 \<leftarrow> (if above then put_front H2 (int x) (first_link (cells_of B))
           else open_above H2 (int x) (f + 1) (int c) (first_link (cells_of B)));
         drop_ff H3 (int c)
       })"
    using n(1-4) cl(1,5) ab by (simp add: inc_high_eq vec_simps cong: if_cong)
  show ?thesis
  proof (cases "xs = [] \<and> ys = [] \<and> \<not> above")
    case True
    have "f + 1 < fst (snd b)" if "b \<in> set B" for b using far True that by blast
    moreover have "fst (snd a) < f + 1" if "a \<in> set A" for a using W(3) [OF that] by simp
    moreover have "\<forall>a\<in>set A. \<forall>b\<in>set B. fst (snd a) < fst (snd b)" using Wab by (simp add: cells_well_append)
    ultimately have "cells_well (A @ (c, f + 1, [x]) # B)" using W(1,2) unfolding cells_well_mid by blast
    moreover obtain H' where "set_ff H (int c) (f_freq_update (\<lambda>_. f + 1)) = Some H'" "same_low H H'"
      "high_ok H' (A @ (c, f + 1, [x]) # B) [] fn ff"
      using set_freq_ok [OF ok, of "f + 1"] True by auto
    moreover have "pairs_of (A @ (c, f + 1, [x]) # B) = insert (x, f + 1) (pairs_of hs - {(x, f)})"
      unfolding prs using True by auto
    ultimately show ?thesis using True run by (intro exI conjI) (assumption | simp)+
  next
    case False
    obtain H1 where H1: "unlink_node H (int x) (int c) = Some H1" "same_low H H1"
      "high_ok H1 (A @ (c, f, xs @ ys) # B) [x] fn ff"
      using unlink_node_ok [OF ok] by blast
    obtain H2 where H2: "set_node H1 (int x) (n_prev_update (\<lambda>_. -1)) = Some H2" "same_low H1 H2"
      "high_ok H2 (A @ (c, f, xs @ ys) # B) [x] fn ff" "n_prev (h_freq H2 ! x) = -1"
      by (rule floating_prev [OF H1(3)])
    show ?thesis
    proof (cases above)
      case True
      then obtain d ms B' where B: "B = (d, f + 1, ms) # B'" by (cases B) (auto simp: above_def)
      have ms: "ms \<noteq> []" using W(2) B by (simp add: cells_well_def)
      obtain H3 where H3: "put_front H2 (int x) (int d) = Some H3" "same_low H2 H3"
        "high_ok H3 (A @ (c, f, xs @ ys) # (d, f + 1, x # ms) # B') [] fn ff"
        using put_front_ok [of H2 "A @ [(c, f, xs @ ys)]" d "f + 1" ms B' x "[]" fn ff] H2 ms B by auto
      let ?hs' = "if xs @ ys = [] then A @ (d, f + 1, x # ms) # B' else A @ (c, f, xs @ ys) # (d, f + 1, x # ms) # B'"
      obtain H4 where H4: "drop_ff H3 (int c) = Some H4" "same_low H3 H4"
        "high_ok H4 ?hs' [] fn (if xs @ ys = [] then c # ff else ff)"
        using drop_ff_ok [OF H3(3)] H3(3) by (auto split: if_splits)
      have "cells_well ?hs'"
        using well Wab B ms by (auto simp: cells_well_def sorted_wrt_append)
      moreover have "pairs_of ?hs' = insert (x, f + 1) (pairs_of hs - {(x, f)})"
        unfolding prs B by (auto split: if_splits)
      moreover have "inc_high H (int x) (f + 1) = Some H4" using True H1(1) H2(1) H3(1) H4(1) B unfolding run by simp
      moreover have "same_low H H4" using H1(2) H2(2) H3(2) H4(2) by (simp add: same_low_def)
      ultimately show ?thesis using H4(3) by blast
    next
      case nab: False
      then have ne: "xs @ ys \<noteq> []" using False by auto
      have "length (A @ (c, f, xs @ ys) # B) \<le> length (nodes_of (A @ (c, f, xs @ ys) # B))"
        using well ne by (intro length_cells_le) (auto simp: cells_well_def)
      moreover have "length (h_freq H2) = length (h_freq H)" "length (h_ff H2) = length (h_freq H)"
        using len H1(2) H2(2) by (simp_all add: same_low_def)
      ultimately have "0 < length ff" using count_cells [OF H2(3)] by (simp only: list.size)
      then obtain d ff' where ff: "ff = d # ff'" by (cases ff) auto
      obtain H3 where H3: "open_above H2 (int x) (f + 1) (int c) (first_link (cells_of B)) = Some H3" "same_low H2 H3"
        "high_ok H3 (A @ (c, f, xs @ ys) # (d, f + 1, [x]) # B) [] fn ff'"
        using open_above_ok [OF H2(3) [unfolded ff] H2(4)] by blast
      have H4: "drop_ff H3 (int c) = Some H3" using drop_ff_ok [OF H3(3)] ne by auto
      have "f + 1 < fst (snd b)" if "b \<in> set B" for b using far nab that by blast
      then have "cells_well (A @ (c, f, xs @ ys) # (d, f + 1, [x]) # B)"
        using well ne by (fastforce simp: cells_well_def sorted_wrt_append)
      moreover have "pairs_of (A @ (c, f, xs @ ys) # (d, f + 1, [x]) # B) = insert (x, f + 1) (pairs_of hs - {(x, f)})"
        unfolding prs by auto
      moreover have "inc_high H (int x) (f + 1) = Some H3" using ne nab H1(1) H2(1) H3(1) H4 unfolding run by auto
      moreover have "same_low H H3" using H1(2) H2(2) H3(2) by (simp add: same_low_def)
      ultimately show ?thesis using H3(3) by blast
    qed
  qed
qed

lemma dec_high_eq:
  "dec_high H hpos freq = do {
     p \<leftarrow> vec_at (h_freq H) hpos;
     f \<leftarrow> vec_at (h_ff H) (n_fnode p);
     below \<leftarrow> has_freq H (f_smaller f) freq;
     if n_prev p = -1 \<and> n_next p = -1 \<and> \<not> below then set_ff H (n_fnode p) (f_freq_update (\<lambda>_. freq))
     else do {
       H1 \<leftarrow> unlink_node H hpos (n_fnode p);
       H2 \<leftarrow> set_node H1 hpos (n_prev_update (\<lambda>_. -1));
       H3 \<leftarrow> (if below then put_front H2 hpos (f_smaller f) else open_below H2 hpos freq (n_fnode p) (f_smaller f));
       drop_ff H3 (n_fnode p)
     }
   }"
  unfolding dec_high_def Let_def open_below_def put_front_def fill_cell_def
  by (intro Option.bind_cong refl if_cong) (simp_all cong: if_cong)

lemma dec_high_ok:
  assumes ok: "high_ok H hs [] fn ff" and well: "cells_well hs" and len: "length (h_ff H) = length (h_freq H)"
    and x: "(x, f) \<in> pairs_of hs"
  shows "\<exists>H' hs' ff'. dec_high H (int x) (f - 1) = Some H' \<and> same_low H H' \<and> high_ok H' hs' [] fn ff' \<and>
    cells_well hs' \<and> pairs_of hs' = insert (x, f - 1) (pairs_of hs - {(x, f)})"
proof -
  obtain A c xs ys B where hs: "hs = A @ (c, f, xs @ x # ys) # B" using find_pair [OF x] by blast
  note ok = ok [unfolded hs] and well = well [unfolded hs]
  note n = node_links [OF ok] and cl = cell_links [OF ok]
  define below where "below \<longleftrightarrow> A \<noteq> [] \<and> fst (snd (last A)) = f - 1"
  have ab: "has_freq H (last_link (cells_of A)) (f - 1) = Some below"
    using has_freq_last [OF ok, of "f - 1"] by (simp add: below_def)
  have W: "cells_well A" "cells_well B" "\<And>a. a \<in> set A \<Longrightarrow> fst (snd a) < f" "\<And>b. b \<in> set B \<Longrightarrow> f < fst (snd b)"
    using well by (auto simp: cells_well_mid)
  have Wab: "cells_well (A @ B)" using well unfolding cells_well_mid unfolding cells_well_append by blast
  have prs: "pairs_of hs - {(x, f)} = pairs_of A \<union> (\<lambda>x. (x, f)) ` set (xs @ ys) \<union> pairs_of B"
    using n(5,6,7) by (auto simp: hs)
  have far: "fst (snd a) < f - 1" if nb: "\<not> below" and a: "a \<in> set A" for a
  proof -
    obtain a0 A' where A: "A = A' @ [a0]" using a by (cases A rule: rev_cases) auto
    have "fst (snd a0) < f - 1" using nb W(3) [of a0] A by (auto simp: below_def)
    moreover have "fst (snd a) \<le> fst (snd a0)" using W(1) a A by (auto simp: cells_well_def sorted_wrt_append)
    ultimately show ?thesis by linarith
  qed
  have run: "dec_high H (int x) (f - 1) =
      (if xs = [] \<and> ys = [] \<and> \<not> below then set_ff H (int c) (f_freq_update (\<lambda>_. f - 1))
       else do {
         H1 \<leftarrow> unlink_node H (int x) (int c);
         H2 \<leftarrow> set_node H1 (int x) (n_prev_update (\<lambda>_. -1));
         H3 \<leftarrow> (if below then put_front H2 (int x) (last_link (cells_of A))
           else open_below H2 (int x) (f - 1) (int c) (last_link (cells_of A)));
         drop_ff H3 (int c)
       })"
    using n(1-4) cl(2,5) ab by (simp add: dec_high_eq vec_simps cong: if_cong)
  show ?thesis
  proof (cases "xs = [] \<and> ys = [] \<and> \<not> below")
    case True
    have "fst (snd a) < f - 1" if "a \<in> set A" for a using far True that by blast
    moreover have "f - 1 < fst (snd b)" if "b \<in> set B" for b using W(4) [OF that] by simp
    moreover have "\<forall>a\<in>set A. \<forall>b\<in>set B. fst (snd a) < fst (snd b)" using Wab by (simp add: cells_well_append)
    ultimately have "cells_well (A @ (c, f - 1, [x]) # B)" using W(1,2) unfolding cells_well_mid by blast
    moreover obtain H' where "set_ff H (int c) (f_freq_update (\<lambda>_. f - 1)) = Some H'" "same_low H H'"
      "high_ok H' (A @ (c, f - 1, [x]) # B) [] fn ff"
      using set_freq_ok [OF ok, of "f - 1"] True by auto
    moreover have "pairs_of (A @ (c, f - 1, [x]) # B) = insert (x, f - 1) (pairs_of hs - {(x, f)})"
      unfolding prs using True by auto
    ultimately show ?thesis using True run by (intro exI conjI) (assumption | simp)+
  next
    case False
    obtain H1 where H1: "unlink_node H (int x) (int c) = Some H1" "same_low H H1"
      "high_ok H1 (A @ (c, f, xs @ ys) # B) [x] fn ff"
      using unlink_node_ok [OF ok] by blast
    obtain H2 where H2: "set_node H1 (int x) (n_prev_update (\<lambda>_. -1)) = Some H2" "same_low H1 H2"
      "high_ok H2 (A @ (c, f, xs @ ys) # B) [x] fn ff" "n_prev (h_freq H2 ! x) = -1"
      by (rule floating_prev [OF H1(3)])
    show ?thesis
    proof (cases below)
      case True
      then obtain d ms A' where A: "A = A' @ [(d, f - 1, ms)]" by (cases A rule: rev_cases) (auto simp: below_def)
      have ms: "ms \<noteq> []" using W(1) A by (simp add: cells_well_def)
      obtain H3 where H3: "put_front H2 (int x) (int d) = Some H3" "same_low H2 H3"
        "high_ok H3 ((A' @ [(d, f - 1, x # ms)]) @ (c, f, xs @ ys) # B) [] fn ff"
        using put_front_ok [of H2 A' d "f - 1" ms "(c, f, xs @ ys) # B" x "[]" fn ff] H2 ms A by auto
      let ?hs' = "if xs @ ys = [] then (A' @ [(d, f - 1, x # ms)]) @ B else (A' @ [(d, f - 1, x # ms)]) @ (c, f, xs @ ys) # B"
      obtain H4 where H4: "drop_ff H3 (int c) = Some H4" "same_low H3 H4"
        "high_ok H4 ?hs' [] fn (if xs @ ys = [] then c # ff else ff)"
        using drop_ff_ok [OF H3(3)] H3(3) by (auto split: if_splits)
      have "cells_well ?hs'"
        using well Wab A ms by (auto simp: cells_well_def sorted_wrt_append)
      moreover have "pairs_of ?hs' = insert (x, f - 1) (pairs_of hs - {(x, f)})"
        unfolding prs A by (auto split: if_splits)
      moreover have "dec_high H (int x) (f - 1) = Some H4" using True H1(1) H2(1) H3(1) H4(1) A unfolding run by simp
      moreover have "same_low H H4" using H1(2) H2(2) H3(2) H4(2) by (simp add: same_low_def)
      ultimately show ?thesis using H4(3) by blast
    next
      case nb: False
      then have ne: "xs @ ys \<noteq> []" using False by auto
      have "length (A @ (c, f, xs @ ys) # B) \<le> length (nodes_of (A @ (c, f, xs @ ys) # B))"
        using well ne by (intro length_cells_le) (auto simp: cells_well_def)
      moreover have "length (h_freq H2) = length (h_freq H)" "length (h_ff H2) = length (h_freq H)"
        using len H1(2) H2(2) by (simp_all add: same_low_def)
      ultimately have "0 < length ff" using count_cells [OF H2(3)] by (simp only: list.size)
      then obtain d ff' where ff: "ff = d # ff'" by (cases ff) auto
      obtain H3 where H3: "open_below H2 (int x) (f - 1) (int c) (last_link (cells_of A)) = Some H3" "same_low H2 H3"
        "high_ok H3 ((A @ [(d, f - 1, [x])]) @ (c, f, xs @ ys) # B) [] fn ff'"
        using open_below_ok [OF H2(3) [unfolded ff] H2(4), of "f - 1"] by auto
      have H4: "drop_ff H3 (int c) = Some H3" using drop_ff_ok [OF H3(3)] ne by auto
      have "fst (snd a) < f - 1" if "a \<in> set A" for a using far nb that by blast
      then have "cells_well ((A @ [(d, f - 1, [x])]) @ (c, f, xs @ ys) # B)"
        using well ne by (fastforce simp: cells_well_def sorted_wrt_append)
      moreover have "pairs_of ((A @ [(d, f - 1, [x])]) @ (c, f, xs @ ys) # B) = insert (x, f - 1) (pairs_of hs - {(x, f)})"
        unfolding prs by auto
      moreover have "dec_high H (int x) (f - 1) = Some H3" using ne nb H1(1) H2(1) H3(1) H4 unfolding run by auto
      moreover have "same_low H H3" using H1(2) H2(2) H3(2) by (simp add: same_low_def)
      ultimately show ?thesis using H3(3) by blast
    qed
  qed
qed

subsection \<open>Pairs that become frequent, and that cease to be\<close>

lemma ins_high_eq:
  "ins_high H recs ix freq = do {
     p \<leftarrow> vec_at (h_freq H) (h_freef H);
     recs' \<leftarrow> upd_at recs ix (rec_hpos_update (\<lambda>_. h_freef H));
     H2 \<leftarrow> set_node (H\<lparr>h_freef := n_next p\<rparr>) (h_freef H) (\<lambda>p. p\<lparr>n_prev := -1, n_id := ix\<rparr>);
     same \<leftarrow> has_freq H2 (h_smallest H2) freq;
     H3 \<leftarrow> (if same then put_front H2 (h_freef H) (h_smallest H2) else open_first H2 (h_freef H) freq);
     Some (H3, recs')
   }"
  unfolding ins_high_def Let_def open_first_def put_front_def fill_cell_def
  by (intro Option.bind_cong refl if_cong) (simp_all cong: if_cong)

lemma ins_high_ok:
  assumes ok: "high_ok H hs [] (x # fn) ff" and well: "cells_well hs" and len: "length (h_ff H) = length (h_freq H)"
    and fr: "\<forall>h\<in>set hs. fr \<le> fst (snd h)" and ix: "i < length recs"
  shows "\<exists>H' hs' ff'. ins_high H recs (int i) fr = Some (H', recs[i := (recs ! i)\<lparr>rec_hpos := int x\<rparr>]) \<and>
    h_infreq H' = h_infreq H \<and> h_sqrtu H' = h_sqrtu H \<and> h_max H' = h_max H \<and>
    length (h_freq H') = length (h_freq H) \<and> length (h_ff H') = length (h_ff H) \<and>
    map n_id (h_freq H') = (map n_id (h_freq H))[x := int i] \<and>
    high_ok H' hs' [] fn ff' \<and> cells_well hs' \<and> pairs_of hs' = insert (x, fr) (pairs_of hs) \<and> x \<notin> fst ` pairs_of hs"
proof -
  note D = high_okD [OF ok] and b = nodes_bound [OF ok, of x]
  define H1 where "H1 = H\<lparr>h_freef := n_next (h_freq H ! x)\<rparr>"
  define H2 where "H2 = H1\<lparr>h_freq := (h_freq H)[x := (h_freq H ! x)\<lparr>n_prev := -1, n_id := int i\<rparr>]\<rparr>"
  have ok1: "high_ok H1 hs [x] fn ff" unfolding H1_def by (rule take_node_ok [OF ok])
  have ok2: "high_ok H2 hs [x] fn ff"
    using high_ok_floating [OF ok1, of x "(h_freq H ! x)\<lparr>n_prev := -1, n_id := int i\<rparr>"] by (simp add: H2_def H1_def)
  have pv: "n_prev (h_freq H2 ! x) = -1" using b by (simp add: H2_def)
  have ids: "map n_id (h_freq H2) = (map n_id (h_freq H))[x := int i]" by (simp add: H2_def map_update)
  have same: "has_freq H2 (h_smallest H2) fr = Some (hs \<noteq> [] \<and> fst (snd (hd hs)) = fr)"
    using has_freq_first [of H2 "[]" hs "[x]" fn ff fr] ok2 high_okD(6) [OF ok2] by simp
  have fx: "h_freef H = int x" using D(8) by simp
  have run: "ins_high H recs (int i) fr = do {
      H3 \<leftarrow> (if hs \<noteq> [] \<and> fst (snd (hd hs)) = fr then put_front H2 (int x) (h_smallest H2) else open_first H2 (int x) fr);
      Some (H3, recs[i := (recs ! i)\<lparr>rec_hpos := int x\<rparr>]) }"
    using b ix same by (simp add: ins_high_eq fx vec_simps upd_at_nat set_node_nat H2_def H1_def)
  have fresh: "x \<notin> fst ` pairs_of hs" using D(1) by (auto simp: pairs_of_fst)
  show ?thesis
  proof (cases "hs \<noteq> [] \<and> fst (snd (hd hs)) = fr")
    case True
    then obtain c ns B where hs: "hs = (c, fr, ns) # B" by (cases hs) auto
    have ns: "ns \<noteq> []" using well by (simp add: hs cells_well_def)
    obtain H3 where H3: "put_front H2 (int x) (int c) = Some H3" "same_low H2 H3" "high_ok H3 ((c, fr, x # ns) # B) [] fn ff"
      using put_front_ok [of H2 "[]" c fr ns B x "[]" fn ff] ok2 ns pv by (auto simp: hs)
    have "h_smallest H2 = int c" using high_okD(6) [OF ok2] by (simp add: hs)
    then have "ins_high H recs (int i) fr = Some (H3, recs[i := (recs ! i)\<lparr>rec_hpos := int x\<rparr>])"
      using run H3(1) True by simp
    moreover have "cells_well ((c, fr, x # ns) # B)" using well by (simp add: hs cells_well_def)
    moreover have "pairs_of ((c, fr, x # ns) # B) = insert (x, fr) (pairs_of hs)" by (auto simp: hs)
    ultimately show ?thesis using H3(2,3) ids fresh by (intro exI conjI) (assumption | simp add: same_low_def H2_def H1_def)+
  next
    case False
    have "length hs \<le> length (nodes_of hs)" using well by (intro length_cells_le) (simp add: cells_well_def)
    moreover have "length (h_ff H2) = length (h_freq H2)" using len by (simp add: H2_def H1_def)
    ultimately have "0 < length ff" using count_cells [OF ok2] by (simp only: list.size)
    then obtain d ff' where ff: "ff = d # ff'" by (cases ff) auto
    obtain H3 where H3: "open_first H2 (int x) fr = Some H3" "same_low H2 H3" "high_ok H3 ((d, fr, [x]) # hs) [] fn ff'"
      using open_first_ok [OF ok2 [unfolded ff] pv] by blast
    have "ins_high H recs (int i) fr = Some (H3, recs[i := (recs ! i)\<lparr>rec_hpos := int x\<rparr>])"
      using run H3(1) False by (simp cong: if_cong)
    moreover have "fr < fst (snd h)" if h: "h \<in> set hs" for h
    proof (cases hs)
      case (Cons a B)
      have "fr < fst (snd a)" using False fr Cons by (simp add: order.order_iff_strict eq_commute)
      moreover have "fst (snd a) \<le> fst (snd h)" using well h Cons by (auto simp: cells_well_def)
      ultimately show ?thesis by linarith
    qed (use h in simp)
    then have "cells_well ((d, fr, [x]) # hs)" using well by (simp add: cells_well_def)
    moreover have "pairs_of ((d, fr, [x]) # hs) = insert (x, fr) (pairs_of hs)" by simp
    ultimately show ?thesis using H3(2,3) ids fresh by (intro exI conjI) (assumption | simp add: same_low_def H2_def H1_def)+
  qed
qed

lemma free_node:
  assumes ok: "high_ok H hs [x] fn ff"
  shows "\<exists>H1. set_node H (int x) (n_next_update (\<lambda>_. h_freef H)) = Some H1 \<and> same_low H (H1\<lparr>h_freef := int x\<rparr>) \<and>
    h_ff H1 = h_ff H \<and> h_freeff H1 = h_freeff H \<and> high_ok (H1\<lparr>h_freef := int x\<rparr>) hs [] (x # fn) ff"
  using free_node_ok [OF ok] nodes_bound [OF ok, of x]
  by (auto simp: set_node_nat same_low_def map_update_same)

text \<open>The two ways in which the cell at an end of the list of frequencies is taken out.\<close>

definition drop_first :: "theap \<Rightarrow> int \<Rightarrow> int \<Rightarrow> theap option" where
  "drop_first H fp larger = do {
     let H4 = H\<lparr>h_smallest := larger\<rparr>;
     H5 \<leftarrow> (if larger = -1 then Some (H4\<lparr>h_largest := -1\<rparr>) else set_ff H4 larger (f_smaller_update (\<lambda>_. -1)));
     H6 \<leftarrow> set_ff H5 fp (f_larger_update (\<lambda>_. h_freeff H5));
     Some (H6\<lparr>h_freeff := fp\<rparr>)
   }"

definition drop_last :: "theap \<Rightarrow> int \<Rightarrow> int \<Rightarrow> theap option" where
  "drop_last H fp smaller = do {
     let H3 = H\<lparr>h_largest := smaller\<rparr>;
     H4 \<leftarrow> (if smaller = -1 then Some (H3\<lparr>h_smallest := -1\<rparr>) else set_ff H3 smaller (f_larger_update (\<lambda>_. -1)));
     H5 \<leftarrow> set_ff H4 fp (f_larger_update (\<lambda>_. h_freeff H4));
     Some (H5\<lparr>h_freeff := fp\<rparr>)
   }"

lemma drop_first_drop_ff:
  assumes "high_ok H ((c, f, []) # B) fl fn ff"
  shows "drop_first H (int c) (first_link (cells_of B)) = drop_ff H (int c)"
  using cell_links [of H "[]" c f "[]" B fl fn ff] assms
  by (simp add: drop_first_def drop_ff_def Let_def vec_simps)

lemma drop_last_drop_ff:
  assumes "high_ok H (A @ [(c, f, [])]) fl fn ff"
  shows "drop_last H (int c) (last_link (cells_of A)) = drop_ff H (int c)"
  using cell_links [OF assms]
  by (auto simp: drop_last_def drop_ff_def Let_def vec_simps set_ff_def split: Option.bind_splits)

lemma del_high_ok:
  assumes ok: "high_ok H hs [] fn ff" and well: "cells_well hs"
    and x: "(x, f) \<in> pairs_of hs" and least: "\<forall>h\<in>set hs. f \<le> fst (snd h)"
  shows "\<exists>H' hs' ff'. del_high H (int x) = Some H' \<and> same_low H H' \<and> high_ok H' hs' [] (x # fn) ff' \<and>
    cells_well hs' \<and> pairs_of hs' = pairs_of hs - {(x, f)}"
proof -
  obtain A c xs ys B where hs: "hs = A @ (c, f, xs @ x # ys) # B" using find_pair [OF x] by blast
  have A: "A = []" using well least by (cases A rule: rev_cases) (auto simp: hs cells_well_mid)
  note ok = ok [unfolded hs A append_Nil]
  note n = node_links [where A = "[]", unfolded append_Nil, OF ok]
  obtain H1 where H1: "unlink_node H (int x) (int c) = Some H1" "same_low H H1" "high_ok H1 ((c, f, xs @ ys) # B) [x] fn ff"
    using unlink_node_ok [of H "[]" c f xs x ys B "[]" fn ff] ok by auto
  obtain H2 where H2: "set_node H1 (int x) (n_next_update (\<lambda>_. h_freef H1)) = Some H2" "same_low H1 (H2\<lparr>h_freef := int x\<rparr>)"
    "high_ok (H2\<lparr>h_freef := int x\<rparr>) ((c, f, xs @ ys) # B) [] (x # fn) ff"
    using free_node [OF H1(3)] by blast
  define H3 where "H3 = H2\<lparr>h_freef := int x\<rparr>"
  note ok3 = H2(3) [folded H3_def]
  note cl = cell_links [where A = "[]", unfolded append_Nil, OF ok3]
  have ffs: "h_ff H2 = h_ff H3" by (simp add: H3_def)
  have run: "del_high H (int x) = (if xs @ ys = [] then drop_first H3 (int c) (first_link (cells_of B)) else Some H3)"
    using n(1,4) cl ffs H1(1) H2(1)
    by (simp add: del_high_def drop_first_def Let_def vec_simps H3_def [symmetric] cong: if_cong)
  have low: "same_low H H3" using H1(2) H2(2) by (simp add: same_low_def H3_def)
  have prs: "pairs_of hs - {(x, f)} = (\<lambda>x. (x, f)) ` set (xs @ ys) \<union> pairs_of B"
    using n(5) node_links(7) [of H "[]" c f xs x ys B "[]" fn ff f] ok by (auto simp: hs A)
  show ?thesis
  proof (cases "xs @ ys = []")
    case True
    obtain H4 where H4: "drop_ff H3 (int c) = Some H4" "same_low H3 H4" "high_ok H4 B [] (x # fn) (c # ff)"
      using drop_ff_ok [of H3 "[]" c f "xs @ ys" B "[]" "x # fn" ff] ok3 True by auto
    have "del_high H (int x) = Some H4" using run True H4(1) drop_first_drop_ff [of H3 c f B] ok3 by simp
    moreover have "cells_well B" using well by (simp add: hs A cells_well_def)
    moreover have "same_low H H4" using low H4(2) by (simp add: same_low_def)
    ultimately show ?thesis using H4(3) prs True by (intro exI conjI) (assumption | simp)+
  next
    case False
    have "cells_well ((c, f, xs @ ys) # B)" using well False by (auto simp: hs A cells_well_def)
    moreover have "del_high H (int x) = Some H3" using run False by auto
    moreover have "pairs_of ((c, f, xs @ ys) # B) = pairs_of hs - {(x, f)}" unfolding prs by simp
    ultimately show ?thesis using ok3 low by blast
  qed
qed

subsection \<open>Taking a most frequent pair\<close>

definition extract_high :: "theap \<Rightarrow> (theap \<times> int) option" where
  "extract_high H = do {
     let fp = h_largest H;
     f \<leftarrow> vec_at (h_ff H) fp;
     let pp = f_elems f;
     p \<leftarrow> vec_at (h_freq H) pp;
     H1 \<leftarrow> set_ff H fp (f_elems_update (\<lambda>_. n_next p));
     H2 \<leftarrow> (if n_next p \<noteq> -1 then set_node H1 (n_next p) (n_prev_update (\<lambda>_. -1)) else drop_last H1 fp (f_smaller f));
     H6 \<leftarrow> set_node H2 pp (n_next_update (\<lambda>_. h_freef H2));
     Some (H6\<lparr>h_freef := pp\<rparr>, n_id p)
   }"

lemma extract_high_ok:
  assumes ok: "high_ok H hs [] fn ff" and well: "cells_well hs" and ne: "hs \<noteq> []"
  shows "\<exists>x f H' hs' ff'. extract_high H = Some (H', n_id (h_freq H ! x)) \<and> same_low H H' \<and> high_ok H' hs' [] (x # fn) ff' \<and>
    cells_well hs' \<and> (x, f) \<in> pairs_of hs \<and> pairs_of hs' = pairs_of hs - {(x, f)} \<and> (\<forall>(y, g)\<in>pairs_of hs. g \<le> f)"
proof -
  obtain A a where "hs = A @ [a]" using ne by (cases hs rule: rev_cases) auto
  moreover obtain c f ns where "a = (c, f, ns)" by (cases a)
  moreover from calculation obtain x ys where "ns = x # ys" using well by (cases ns) (auto simp: cells_well_def)
  ultimately have hs: "hs = A @ [(c, f, [] @ x # ys)]" by simp
  note ok = ok [unfolded hs]
  note n = node_links [OF ok] and cl = cell_links [OF ok] and D = high_okD [OF ok]
  have lg: "h_largest H = int c" using D(7) by simp
  obtain H1 where H1: "unlink_node H (int x) (int c) = Some H1" "same_low H H1" "high_ok H1 (A @ [(c, f, ys)]) [x] fn ff"
    using unlink_node_ok [OF ok] by auto
  have run: "extract_high H = do {
     H2 \<leftarrow> (if ys \<noteq> [] then Some H1 else drop_last H1 (int c) (last_link (cells_of A)));
     H6 \<leftarrow> set_node H2 (int x) (n_next_update (\<lambda>_. h_freef H2));
     Some (H6\<lparr>h_freef := int x\<rparr>, n_id (h_freq H ! x)) }"
    using n(1-4) cl H1(1)
    by (auto simp: extract_high_def unlink_node_def Let_def lg vec_simps split: Option.bind_splits if_splits)
  have top: "\<forall>(y, g)\<in>pairs_of hs. g \<le> f"
    using well by (fastforce simp: hs cells_well_mid pairs_of_def)
  have prs: "(x, f) \<in> pairs_of hs" "pairs_of hs - {(x, f)} = pairs_of A \<union> (\<lambda>x. (x, f)) ` set ys"
    using n(5,6) by (auto simp: hs)
  obtain H2 hs' ff' where H2: "(if ys \<noteq> [] then Some H1 else drop_last H1 (int c) (last_link (cells_of A))) = Some H2"
    "same_low H1 H2" "high_ok H2 hs' [x] fn ff'" "cells_well hs'" "pairs_of hs' = pairs_of hs - {(x, f)}"
  proof (cases "ys = []")
    case True
    obtain H2 where H2: "drop_ff H1 (int c) = Some H2" "same_low H1 H2" "high_ok H2 A [x] fn (c # ff)"
      using drop_ff_ok [OF H1(3)] True by auto
    have "drop_last H1 (int c) (last_link (cells_of A)) = Some H2"
      using drop_last_drop_ff [of H1 A c f] H1(3) H2(1) True by simp
    moreover have "cells_well A" using well by (simp add: hs cells_well_mid)
    ultimately show thesis using that [of H2 A "c # ff"] H2(2,3) prs True by simp
  next
    case False
    have "cells_well (A @ [(c, f, ys)])" using well False by (simp add: hs cells_well_mid)
    then show thesis using that [of H1 "A @ [(c, f, ys)]" ff] H1(3) prs False by simp
  qed
  obtain H6 where "set_node H2 (int x) (n_next_update (\<lambda>_. h_freef H2)) = Some H6" "same_low H2 (H6\<lparr>h_freef := int x\<rparr>)"
    "high_ok (H6\<lparr>h_freef := int x\<rparr>) hs' [] (x # fn) ff'"
    using free_node [OF H2(3)] by blast
  moreover from this have "same_low H (H6\<lparr>h_freef := int x\<rparr>)" using H1(2) H2(2) by (simp add: same_low_def)
  ultimately show ?thesis using run H2(1,4,5) top prs(1) by (intro exI conjI) (assumption | simp)+
qed

end
