(* ===== verification/Heap_Queue.thy ===== *)
theory Heap_Queue
  imports Heap_Order
begin

text \<open>
  The priority queue of \<open>heap.cc\<close> against its specification, a map from the record identifiers
  in the queue to their frequencies.
\<close>

subsection \<open>The contents of the heap\<close>

text \<open>
  A slot says where an identifier is kept: the identifier, its frequency, and its position in the
  array of the frequency or its node.  \<open>rec_slots\<close> is what the records in the queue \<open>q\<close> say about it.
\<close>

definition low_slots :: "theap \<Rightarrow> (int \<times> int \<times> int) set" where
  "low_slots H = {(arr_elems (h_infreq H ! f) ! p, int f, int p) | f p.
     1 \<le> f \<and> f < length (h_infreq H) \<and> p < length (arr_elems (h_infreq H ! f))}"

definition high_slots :: "theap \<Rightarrow> fcell list \<Rightarrow> (int \<times> int \<times> int) set" where
  "high_slots H hs = {(n_id (h_freq H ! n), f, int n) | n f. (n, f) \<in> pairs_of hs}"

definition rec_slots :: "trecord list \<Rightarrow> (nat \<rightharpoonup> int) \<Rightarrow> (int \<times> int \<times> int) set" where
  "rec_slots recs q = {(int x, f, rec_hpos (recs ! x)) | x f. q x = Some f}"

text \<open>The records apart from their positions in the heap, which only the heap writes.\<close>

definition but_hpos :: "trecord list \<Rightarrow> trecord list" where
  "but_hpos recs = map (rec_hpos_update (\<lambda>_. 0)) recs"

definition shape :: "theap \<Rightarrow> fcell list \<Rightarrow> nat list \<Rightarrow> nat list \<Rightarrow> bool" where
  "shape H hs fn ff \<longleftrightarrow>
     high_ok H hs [] fn ff \<and> cells_well hs \<and> (\<forall>h\<in>set hs. h_sqrtu H \<le> fst (snd h)) \<and>
     length (h_ff H) = length (h_freq H) \<and> int (length (h_freq H)) = h_sqrtu H \<and>
     int (length (h_infreq H)) = h_sqrtu H \<and> 2 \<le> h_sqrtu H \<and>
     (\<forall>f. 1 \<le> f \<and> f < length (h_infreq H) \<longrightarrow> arr_ok (h_infreq H ! f))"

definition stored :: "theap \<Rightarrow> fcell list \<Rightarrow> trecord list \<Rightarrow> (nat \<rightharpoonup> int) \<Rightarrow> bool" where
  "stored H hs recs q \<longleftrightarrow> low_slots H \<union> high_slots H hs = rec_slots recs q \<and> (\<forall>x\<in>dom q. x < length recs)"

lemma shapeD:
  assumes "shape H hs fn ff"
  shows "high_ok H hs [] fn ff" "cells_well hs" "h \<in> set hs \<Longrightarrow> h_sqrtu H \<le> fst (snd h)"
    "length (h_ff H) = length (h_freq H)" "int (length (h_freq H)) = h_sqrtu H"
    "int (length (h_infreq H)) = h_sqrtu H" "2 \<le> h_sqrtu H"
    "1 \<le> f \<Longrightarrow> f < length (h_infreq H) \<Longrightarrow> arr_ok (h_infreq H ! f)"
  using assms by (auto simp: shape_def)

lemma rec_slots_empty [simp]: "rec_slots recs Map.empty = {}"
  by (simp add: rec_slots_def)

lemma rec_slots_None: "rec_slots recs (q(x := None)) = {s \<in> rec_slots recs q. fst s \<noteq> int x}"
  by (auto simp: rec_slots_def)

lemma rec_slots_Some: "rec_slots recs (q(x \<mapsto> f)) = insert (int x, f, rec_hpos (recs ! x)) {s \<in> rec_slots recs q. fst s \<noteq> int x}"
  by (auto simp: rec_slots_def)

lemma rec_slots_other: "q x = None \<Longrightarrow> rec_slots (recs[x := r]) q = rec_slots recs q"
proof -
  assume "q x = None"
  then have "rec_hpos (recs[x := r] ! y) = rec_hpos (recs ! y)" if "q y = Some f" for y f using that by (auto simp: nth_upd)
  then show ?thesis by (force simp: rec_slots_def)
qed

lemma rec_slots_update:
  "q x = Some f \<Longrightarrow> x < length recs \<Longrightarrow>
    rec_slots (recs[x := r]) q = insert (int x, f, rec_hpos r) {s \<in> rec_slots recs q. fst s \<noteq> int x}"
  using rec_slots_Some [of "recs[x := r]" "q(x := None)" x f] rec_slots_other [of "q(x := None)" x recs r]
  by (simp add: rec_slots_None fun_upd_idem)

lemma rec_slots_iff: "(i, f, p) \<in> rec_slots recs q \<longleftrightarrow> (\<exists>x. i = int x \<and> q x = Some f \<and> p = rec_hpos (recs ! x))"
  by (auto simp: rec_slots_def)

lemma high_slots_iff: "(i, f, p) \<in> high_slots H hs \<longleftrightarrow> (\<exists>n. p = int n \<and> (n, f) \<in> pairs_of hs \<and> i = n_id (h_freq H ! n))"
  by (auto simp: high_slots_def)

lemma low_slots_iff: "(i, f, p) \<in> low_slots H \<longleftrightarrow> (\<exists>g k. f = int g \<and> p = int k \<and> 1 \<le> g \<and> g < length (h_infreq H) \<and>
    k < length (arr_elems (h_infreq H ! g)) \<and> i = arr_elems (h_infreq H ! g) ! k)"
  by (auto simp: low_slots_def)

lemma high_freq: "shape H hs fn ff \<Longrightarrow> (n, f) \<in> pairs_of hs \<Longrightarrow> h_sqrtu H \<le> f"
  using shapeD(3) by (fastforce simp: pairs_of_def)

lemma low_freq: "shape H hs fn ff \<Longrightarrow> (i, f, p) \<in> low_slots H \<Longrightarrow> 1 \<le> f \<and> f < h_sqrtu H"
  using shapeD(6) by (fastforce simp: low_slots_iff)

text \<open>Where a pair of the queue is found.\<close>

lemma stored_low:
  assumes "shape H hs fn ff" "stored H hs recs q" "q x = Some f" "f < h_sqrtu H"
  obtains g p where "f = int g" "1 \<le> g" "g < length (h_infreq H)" "rec_hpos (recs ! x) = int p"
    "p < length (arr_elems (h_infreq H ! g))" "arr_elems (h_infreq H ! g) ! p = int x"
proof -
  have "(int x, f, rec_hpos (recs ! x)) \<in> low_slots H \<union> high_slots H hs"
    using assms(2,3) by (auto simp: stored_def rec_slots_def)
  moreover have "(int x, f, rec_hpos (recs ! x)) \<notin> high_slots H hs"
    using high_freq [OF assms(1)] assms(4) by (fastforce simp: high_slots_iff)
  ultimately show thesis using that by (auto simp: low_slots_iff)
qed

lemma stored_high:
  assumes "shape H hs fn ff" "stored H hs recs q" "q x = Some f" "h_sqrtu H \<le> f"
  obtains n where "rec_hpos (recs ! x) = int n" "(n, f) \<in> pairs_of hs" "n_id (h_freq H ! n) = int x"
proof -
  have "(int x, f, rec_hpos (recs ! x)) \<in> low_slots H \<union> high_slots H hs"
    using assms(2,3) by (auto simp: stored_def rec_slots_def)
  moreover have "(int x, f, rec_hpos (recs ! x)) \<notin> low_slots H"
    using low_freq [OF assms(1)] assms(4) by fastforce
  ultimately show thesis using that by (auto simp: high_slots_iff)
qed

lemma stored_freq:
  assumes "shape H hs fn ff" "stored H hs recs q" "q x = Some f"
  shows "1 \<le> f"
proof (cases "f < h_sqrtu H")
  case True
  then show ?thesis using stored_low [OF assms] by fastforce
qed (use shapeD(7) [OF assms(1)] in simp)

subsection \<open>The arrays of the infrequent pairs\<close>

lemma infreq_at_nat: "1 \<le> g \<Longrightarrow> g < length (h_infreq H) \<Longrightarrow> infreq_at H (int g) = Some (h_infreq H ! g)"
  by (simp add: infreq_at_def vec_simps)

lemma infreq_set_nat:
  "1 \<le> g \<Longrightarrow> g < length (h_infreq H) \<Longrightarrow> infreq_set H (int g) A = Some (H\<lparr>h_infreq := (h_infreq H)[g := A]\<rparr>)"
  by (simp add: infreq_set_def vec_simps)

lemma shape_infreq:
  assumes "shape H hs fn ff" "arr_ok A"
  shows "shape (H\<lparr>h_infreq := (h_infreq H)[g := A]\<rparr>) hs fn ff"
  using assms by (auto simp: shape_def high_ok_def cell_ok_def nth_upd)

lemma low_slots_set:
  assumes "1 \<le> g" "g < length (h_infreq H)"
  shows "low_slots (H\<lparr>h_infreq := (h_infreq H)[g := A]\<rparr>) =
    {s \<in> low_slots H. fst (snd s) \<noteq> int g} \<union> {(arr_elems A ! p, int g, int p) | p. p < length (arr_elems A)}"
  using assms by (fastforce simp: low_slots_def nth_upd split: if_splits)

lemma ins_low_ok:
  assumes sh: "shape H hs fn ff" and st: "stored H hs recs q" and x: "q x = None" "x < length recs"
    and g: "1 \<le> g" "g < length (h_infreq H)" and room: "length (arr_elems (h_infreq H ! g)) < 2 ^ 30 - 64"
  shows "\<exists>A. let H' = H\<lparr>h_infreq := (h_infreq H)[g := A]\<rparr>;
      recs' = recs[x := (recs ! x)\<lparr>rec_hpos := int (length (arr_elems (h_infreq H ! g)))\<rparr>]
    in ins_low H recs (int x) (int g) = Some (H', recs') \<and> shape H' hs fn ff \<and> stored H' hs recs' (q(x \<mapsto> int g))"
proof -
  let ?A = "h_infreq H ! g"
  define r where "r = (recs ! x)\<lparr>rec_hpos := int (length (arr_elems ?A))\<rparr>"
  have "arr_ok ?A" using shapeD(8) [OF sh g] .
  then obtain A where A: "insertArray ?A (int x) = Some (A, int (length (arr_elems ?A)))" "arr_ok A" "arr_elems A = arr_elems ?A @ [int x]"
    using arr.push room by blast
  define H' where "H' = H\<lparr>h_infreq := (h_infreq H)[g := A]\<rparr>"
  have run: "ins_low H recs (int x) (int g) = Some (H', recs[x := r])"
    using g x(2) A(1) by (simp add: ins_low_def infreq_at_nat infreq_set_nat upd_at_nat H'_def r_def)
  have sh': "shape H' hs fn ff" unfolding H'_def by (rule shape_infreq [OF sh A(2)])
  have "{(arr_elems A ! p, int g, int p) | p. p < length (arr_elems A)} =
      insert (int x, int g, int (length (arr_elems ?A))) {(arr_elems ?A ! p, int g, int p) | p. p < length (arr_elems ?A)}"
    unfolding A(3) by (force simp: nth_append less_Suc_eq)
  moreover have "low_slots H = {s \<in> low_slots H. fst (snd s) \<noteq> int g} \<union> {(arr_elems ?A ! p, int g, int p) | p. p < length (arr_elems ?A)}"
    using low_slots_set [OF g, of ?A] by simp
  ultimately have "low_slots H' = insert (int x, int g, rec_hpos r) (low_slots H)"
    unfolding H'_def low_slots_set [OF g] by (auto simp: r_def)
  moreover have "high_slots H' hs = high_slots H hs" by (simp add: high_slots_def H'_def)
  ultimately have "low_slots H' \<union> high_slots H' hs = insert (int x, int g, rec_hpos r) (rec_slots recs q)"
    using st by (auto simp: stored_def)
  moreover have "{s \<in> rec_slots recs q. fst s \<noteq> int x} = rec_slots recs q" using x(1) by (auto simp: rec_slots_def)
  ultimately have "stored H' hs (recs[x := r]) (q(x \<mapsto> int g))"
    using rec_slots_other [of q x recs r] x(1) x(2) st by (auto simp: stored_def rec_slots_Some)
  then show ?thesis using run sh' unfolding H'_def r_def Let_def by blast
qed

lemma arr_top:
  assumes ok: "arr_ok A" and ne: "arr_elems A \<noteq> []"
  shows "vec_at (a_pairs A) (a_size A - 1) = Some (last (arr_elems A))"
proof -
  have "0 < length (arr_elems A)" using ne by simp
  then have sz: "0 < a_size A" "a_size A \<le> int (length (a_pairs A))" using length_arr_elems [OF ok] ok by (simp_all add: arr_ok_def)
  have "last (arr_elems A) = a_pairs A ! (nat (a_size A) - 1)"
    using last_conv_nth [OF ne] sz by (simp add: arr_elems_def)
  then show ?thesis using sz by (simp add: vec_at_def nat_diff_distrib)
qed

lemma del_low_ok:
  assumes sh: "shape H hs fn ff" and st: "stored H hs recs q" and x: "q x = Some f" "f < h_sqrtu H"
  shows "\<exists>H' recs'. del_low H recs f (rec_hpos (recs ! x)) = Some (H', recs') \<and>
    (\<exists>g A. H' = H\<lparr>h_infreq := (h_infreq H)[g := A]\<rparr>) \<and> but_hpos recs' = but_hpos recs \<and>
    shape H' hs fn ff \<and> stored H' hs recs' (q(x := None))"
proof -
  obtain g p where g: "f = int g" "1 \<le> g" "g < length (h_infreq H)" and p: "rec_hpos (recs ! x) = int p"
    "p < length (arr_elems (h_infreq H ! g))" "arr_elems (h_infreq H ! g) ! p = int x"
    by (rule stored_low [OF sh st x])
  let ?A = "h_infreq H ! g"
  define e where "e = arr_elems ?A"
  have okA: "arr_ok ?A" using shapeD(8) [OF sh g(2,3)] .
  have slots: "low_slots H = {s \<in> low_slots H. fst (snd s) \<noteq> int g} \<union> {(e ! k, int g, int k) | k. k < length e}"
    using low_slots_set [OF g(2,3), of ?A] by (simp add: e_def)
  have ne: "e \<noteq> []" using p(2) by (auto simp: e_def)
  have lastin: "(last e, int g, int (length e - 1)) \<in> rec_slots recs q"
  proof -
    have "(last e, int g, int (length e - 1)) \<in> low_slots H" using slots ne by (auto simp: last_conv_nth)
    then show ?thesis using st by (auto simp: stored_def)
  qed
  then obtain y where y: "last e = int y" "q y = Some f" "rec_hpos (recs ! y) = int (length e - 1)"
    using g(1) by (auto simp: rec_slots_iff)
  have yl: "y < length recs" using st y(2) by (auto simp: stored_def)
  obtain A where A: "arr_put ?A (int p) (last e) = Some A" "arr_ok (deleteArray A)" "arr_elems (deleteArray A) = butlast (e[p := last e])"
    using arr.swap_remove [OF okA p(2)] by (auto simp: e_def)
  define H' where "H' = H\<lparr>h_infreq := (h_infreq H)[g := deleteArray A]\<rparr>"
  define recs' where "recs' = recs[y := (recs ! y)\<lparr>rec_hpos := int p\<rparr>]"
  have "vec_at (a_pairs ?A) (a_size ?A - 1) = Some (last e)"
    unfolding e_def by (rule arr_top [OF okA]) (use ne e_def in simp)
  then have run: "del_low H recs f (rec_hpos (recs ! x)) = Some (H', recs')"
    using g A(1) p(1) y(1) yl
    by (simp add: del_low_def move_def infreq_at_nat infreq_set_nat upd_at_nat H'_def recs'_def)
  have "{(butlast (e[p := last e]) ! k, int g, int k) | k. k < length (butlast (e[p := last e]))} =
      {(if k = p then last e else e ! k, int g, int k) | k. k < length e - 1}"
    by (rule Collect_cong) (fastforce simp: nth_butlast nth_list_update)
  then have low: "low_slots H' = {s \<in> low_slots H. fst (snd s) \<noteq> int g} \<union> {(if k = p then last e else e ! k, int g, int k) | k. k < length e - 1}"
    unfolding H'_def low_slots_set [OF g(2,3)] A(3) by simp
  have hi: "high_slots H' hs = high_slots H hs" by (simp add: high_slots_def H'_def)
  have all: "rec_slots recs q = {s \<in> low_slots H. fst (snd s) \<noteq> int g} \<union> {(e ! k, int g, int k) | k. k < length e} \<union> high_slots H hs"
    using slots st by (simp add: stored_def)
  have sep: "fst (snd s) \<noteq> int g" if "s \<in> high_slots H hs" for s
    using that high_freq [OF sh] x(2) g(1) by (fastforce simp: high_slots_def)
  define R where "R = {s \<in> low_slots H. fst (snd s) \<noteq> int g} \<union> high_slots H hs"
  have all: "rec_slots recs q = R \<union> {(e ! k, int g, int k) | k. k < length e}" and sepR: "\<And>s. s \<in> R \<Longrightarrow> fst (snd s) \<noteq> int g"
    using all sep by (auto simp: R_def)
  have new: "low_slots H' \<union> high_slots H' hs = R \<union> {(if k = p then last e else e ! k, int g, int k) | k. k < length e - 1}"
    unfolding low hi R_def by blast
  have only: "fst s \<noteq> int z" if "q z = Some f" "s \<in> R" for s z
  proof
    assume "fst s = int z"
    moreover have "s \<in> rec_slots recs q" using all that(2) by blast
    ultimately have "fst (snd s) = f" using that(1) by (auto simp: rec_slots_def)
    then show False using sepR [OF that(2)] g(1) by simp
  qed
  have pos: "rec_hpos (recs ! z) = int k" if "k < length e" "e ! k = int z" for z k
  proof -
    have "(int z, int g, int k) \<in> rec_slots recs q" unfolding all using that by force
    then show ?thesis by (auto simp: rec_slots_iff)
  qed
  have ex: "e ! k = int x \<longleftrightarrow> k = p" and ey: "e ! k = int y \<longleftrightarrow> k = length e - 1" if "k < length e" for k
    using pos [OF that] p y(1,3) ne by (auto simp: e_def last_conv_nth)
  have plen: "p < length e" using p(2) by (simp add: e_def)
  have "low_slots H' \<union> high_slots H' hs = rec_slots recs' (q(x := None))"
  proof (cases "y = x")
    case True
    have pl: "p = length e - 1" using y(3) p(1) True by simp
    have "rec_slots recs' (q(x := None)) = {s \<in> rec_slots recs q. fst s \<noteq> int x}"
      using True rec_slots_other [of "q(x := None)" x recs] by (simp add: recs'_def rec_slots_None)
    also have "\<dots> = R \<union> {(e ! k, int g, int k) | k. k < length e \<and> k \<noteq> p}"
      unfolding all using only [OF x(1)] ex by auto
    finally show ?thesis unfolding new using pl by (auto simp: less_diff_conv)
  next
    case False
    have pl: "p < length e - 1" using ex [of "length e - 1"] ey [of "length e - 1"] plen False by (cases "p = length e - 1") auto
    have "rec_slots recs' (q(x := None)) = insert (int y, int g, int p) {s \<in> rec_slots recs q. fst s \<noteq> int x \<and> fst s \<noteq> int y}"
      using rec_slots_update [of "q(x := None)" y f recs] yl y(2) False g(1)
      by (simp add: recs'_def rec_slots_None conj_commute conj_ac)
    also have "\<dots> = insert (int y, int g, int p) (R \<union> {(e ! k, int g, int k) | k. k < length e \<and> k \<noteq> p \<and> k \<noteq> length e - 1})"
      unfolding all using only [OF x(1)] only [OF y(2)] ex ey by auto
    also have "\<dots> = R \<union> {(if k = p then last e else e ! k, int g, int k) | k. k < length e - 1}"
      using pl y(1) by auto
    finally show ?thesis unfolding new by simp
  qed
  then have "stored H' hs recs' (q(x := None))" using st by (auto simp: stored_def recs'_def)
  moreover have "shape H' hs fn ff" unfolding H'_def by (rule shape_infreq [OF sh A(2)])
  moreover have "but_hpos recs' = but_hpos recs"
    unfolding recs'_def but_hpos_def by (rule map_update_same) simp
  ultimately show ?thesis using run H'_def by blast
qed

subsection \<open>The lists of the frequent pairs\<close>

lemma rec_slots_minus:
  "q x = Some f \<Longrightarrow> {s \<in> rec_slots recs q. fst s \<noteq> int x} = rec_slots recs q - {(int x, f, rec_hpos (recs ! x))}"
  by (auto simp: rec_slots_def)

lemma same_low_id: "same_low H H' \<Longrightarrow> n < length (h_freq H) \<Longrightarrow> n_id (h_freq H' ! n) = n_id (h_freq H ! n)"
  unfolding same_low_def by (metis nth_map)

lemma same_low_slots: "same_low H H' \<Longrightarrow> low_slots H' = low_slots H"
  by (simp add: same_low_def low_slots_def)

lemma pair_bound: "shape H hs fn ff \<Longrightarrow> (n, f) \<in> pairs_of hs \<Longrightarrow> n < length (h_freq H)"
  using nodes_bound [OF shapeD(1), of H hs fn ff n] pairs_of_node [of n f hs] by auto

lemma high_slots_same:
  assumes "shape H hs fn ff" "same_low H H'" "fst ` pairs_of hs' \<subseteq> fst ` pairs_of hs"
  shows "high_slots H' hs' = {(n_id (h_freq H ! n), f, int n) | n f. (n, f) \<in> pairs_of hs'}"
proof -
  have "n_id (h_freq H' ! n) = n_id (h_freq H ! n)" if "(n, f) \<in> pairs_of hs'" for n f
  proof -
    have "n \<in> fst ` pairs_of hs" using that assms(3) by force
    then show ?thesis using pair_bound [OF assms(1)] same_low_id [OF assms(2)] by auto
  qed
  then show ?thesis unfolding high_slots_def by (metis (no_types, lifting))
qed

lemma shape_high:
  assumes "shape H hs fn ff" "high_ok H' hs' [] fn' ff'" "cells_well hs'" "\<And>n g. (n, g) \<in> pairs_of hs' \<Longrightarrow> h_sqrtu H \<le> g"
    and "h_infreq H' = h_infreq H" "h_sqrtu H' = h_sqrtu H" "length (h_freq H') = length (h_freq H)" "length (h_ff H') = length (h_ff H)"
  shows "shape H' hs' fn' ff'"
proof -
  have "h_sqrtu H \<le> fst (snd h)" if h: "h \<in> set hs'" for h
  proof -
    obtain c f ns where heq: "h = (c, f, ns)" by (cases h)
    have "ns \<noteq> []" using assms(3) h heq by (auto simp: cells_well_def)
    then have "(hd ns, f) \<in> pairs_of hs'" using h heq unfolding pairs_of_def by (auto intro: hd_in_set)
    then show ?thesis using assms(4) heq by simp
  qed
  then show ?thesis using assms by (simp add: shape_def)
qed

lemma stored_change:
  assumes sh: "shape H hs fn ff" and st: "stored H hs recs q" and x: "q x = Some f" "h_sqrtu H \<le> f"
    and n: "rec_hpos (recs ! x) = int n" "n_id (h_freq H ! n) = int x" "(n, f) \<in> pairs_of hs"
    and low: "same_low H H'" and prs: "pairs_of hs' = insert (n, f') (pairs_of hs - {(n, f)})"
  shows "stored H' hs' recs (q(x \<mapsto> f'))"
proof -
  have sub: "fst ` pairs_of hs' \<subseteq> fst ` pairs_of hs" using prs n(3) by force
  have "high_slots H' hs' = insert (int x, f', int n) (high_slots H hs - {(int x, f, int n)})"
    unfolding high_slots_same [OF sh low sub] unfolding prs high_slots_def using n(2) by auto
  moreover have "(int x, f, int n) \<notin> low_slots H" using low_freq [OF sh] x(2) by fastforce
  ultimately have "low_slots H' \<union> high_slots H' hs' = insert (int x, f', int n) (rec_slots recs q - {(int x, f, int n)})"
    using st unfolding same_low_slots [OF low] stored_def by blast
  moreover have "x < length recs" using st x(1) by (auto simp: stored_def)
  ultimately show ?thesis using st rec_slots_minus [of q x f recs] x(1) n(1) by (auto simp: stored_def rec_slots_Some)
qed

lemma stored_remove:
  assumes sh: "shape H hs fn ff" and st: "stored H hs recs q" and x: "q x = Some f" "h_sqrtu H \<le> f"
    and n: "rec_hpos (recs ! x) = int n" "n_id (h_freq H ! n) = int x" "(n, f) \<in> pairs_of hs"
    and low: "same_low H H'" and prs: "pairs_of hs' = pairs_of hs - {(n, f)}"
  shows "stored H' hs' recs (q(x := None))"
proof -
  have sub: "fst ` pairs_of hs' \<subseteq> fst ` pairs_of hs" using prs by force
  have "high_slots H' hs' = high_slots H hs - {(int x, f, int n)}"
    unfolding high_slots_same [OF sh low sub] unfolding prs high_slots_def using n(2) by auto
  moreover have "(int x, f, int n) \<notin> low_slots H" using low_freq [OF sh] x(2) by fastforce
  ultimately have "low_slots H' \<union> high_slots H' hs' = rec_slots recs q - {(int x, f, int n)}"
    using st unfolding same_low_slots [OF low] stored_def by blast
  then show ?thesis using st rec_slots_minus [of q x f recs] x(1) n(1) by (auto simp: stored_def rec_slots_None)
qed

lemma inc_high_stored:
  assumes sh: "shape H hs fn ff" and st: "stored H hs recs q" and x: "q x = Some f" "h_sqrtu H \<le> f"
  shows "\<exists>H' hs' ff'. inc_high H (rec_hpos (recs ! x)) (f + 1) = Some H' \<and> same_low H H' \<and>
    shape H' hs' fn ff' \<and> stored H' hs' recs (q(x \<mapsto> f + 1))"
proof -
  obtain n where n: "rec_hpos (recs ! x) = int n" "(n, f) \<in> pairs_of hs" "n_id (h_freq H ! n) = int x"
    by (rule stored_high [OF sh st x])
  obtain H' hs' ff' where H': "inc_high H (int n) (f + 1) = Some H'" "same_low H H'" "high_ok H' hs' [] fn ff'"
    "cells_well hs'" "pairs_of hs' = insert (n, f + 1) (pairs_of hs - {(n, f)})"
    using inc_high_ok [OF shapeD(1,2,4) [OF sh] n(2)] by blast
  have "shape H' hs' fn ff'"
    by (rule shape_high [OF sh H'(3,4)]) (use H'(2,5) high_freq [OF sh] x(2) in \<open>fastforce simp: same_low_def\<close>)+
  moreover have "stored H' hs' recs (q(x \<mapsto> f + 1))" by (rule stored_change [OF sh st x n(1,3,2) H'(2,5)])
  ultimately show ?thesis using H'(1,2) n(1) by auto
qed

lemma dec_high_stored:
  assumes sh: "shape H hs fn ff" and st: "stored H hs recs q" and x: "q x = Some f" "h_sqrtu H < f"
  shows "\<exists>H' hs' ff'. dec_high H (rec_hpos (recs ! x)) (f - 1) = Some H' \<and> same_low H H' \<and>
    shape H' hs' fn ff' \<and> stored H' hs' recs (q(x \<mapsto> f - 1))"
proof -
  have f: "h_sqrtu H \<le> f" using x(2) by simp
  obtain n where n: "rec_hpos (recs ! x) = int n" "(n, f) \<in> pairs_of hs" "n_id (h_freq H ! n) = int x"
    by (rule stored_high [OF sh st x(1) f])
  obtain H' hs' ff' where H': "dec_high H (int n) (f - 1) = Some H'" "same_low H H'" "high_ok H' hs' [] fn ff'"
    "cells_well hs'" "pairs_of hs' = insert (n, f - 1) (pairs_of hs - {(n, f)})"
    using dec_high_ok [OF shapeD(1,2,4) [OF sh] n(2)] by blast
  have "shape H' hs' fn ff'"
    by (rule shape_high [OF sh H'(3,4)]) (use H'(2,5) high_freq [OF sh] x(2) in \<open>fastforce simp: same_low_def\<close>)+
  moreover have "stored H' hs' recs (q(x \<mapsto> f - 1))" by (rule stored_change [OF sh st x(1) f n(1,3,2) H'(2,5)])
  ultimately show ?thesis using H'(1,2) n(1) by auto
qed

lemma del_high_stored:
  assumes sh: "shape H hs fn ff" and st: "stored H hs recs q" and x: "q x = Some (h_sqrtu H)"
  shows "\<exists>H' hs' fn' ff'. del_high H (rec_hpos (recs ! x)) = Some H' \<and> same_low H H' \<and>
    shape H' hs' fn' ff' \<and> stored H' hs' recs (q(x := None))"
proof -
  let ?f = "h_sqrtu H"
  obtain n where n: "rec_hpos (recs ! x) = int n" "(n, ?f) \<in> pairs_of hs" "n_id (h_freq H ! n) = int x"
    by (rule stored_high [OF sh st x]) simp
  have "\<forall>h\<in>set hs. ?f \<le> fst (snd h)" using shapeD(3) [OF sh] by blast
  then obtain H' hs' ff' where H': "del_high H (int n) = Some H'" "same_low H H'" "high_ok H' hs' [] (n # fn) ff'"
    "cells_well hs'" "pairs_of hs' = pairs_of hs - {(n, ?f)}"
    using del_high_ok [OF shapeD(1,2) [OF sh] n(2)] by blast
  have "shape H' hs' (n # fn) ff'"
    by (rule shape_high [OF sh H'(3,4)]) (use H'(2,5) high_freq [OF sh] in \<open>fastforce simp: same_low_def\<close>)+
  moreover have "stored H' hs' recs (q(x := None))" by (rule stored_remove [OF sh st x _ n(1,3,2) H'(2,5)]) simp
  ultimately show ?thesis using H'(1,2) n(1) by auto
qed

lemma ins_high_stored:
  assumes sh: "shape H hs (n # fn) ff" and st: "stored H hs recs q" and x: "q x = None" "x < length recs"
  shows "\<exists>H' hs' ff'. let recs' = recs[x := (recs ! x)\<lparr>rec_hpos := int n\<rparr>] in
    ins_high H recs (int x) (h_sqrtu H) = Some (H', recs') \<and> h_max H' = h_max H \<and> h_sqrtu H' = h_sqrtu H \<and>
    shape H' hs' fn ff' \<and> stored H' hs' recs' (q(x \<mapsto> h_sqrtu H))"
proof -
  let ?f = "h_sqrtu H"
  define r where "r = (recs ! x)\<lparr>rec_hpos := int n\<rparr>"
  have "\<forall>h\<in>set hs. ?f \<le> fst (snd h)" using shapeD(3) [OF sh] by blast
  then obtain H' hs' ff' where H': "ins_high H recs (int x) ?f = Some (H', recs[x := r])"
    "h_infreq H' = h_infreq H" "h_sqrtu H' = h_sqrtu H" "h_max H' = h_max H"
    "length (h_freq H') = length (h_freq H)" "length (h_ff H') = length (h_ff H)"
    "map n_id (h_freq H') = (map n_id (h_freq H))[n := int x]"
    "high_ok H' hs' [] fn ff'" "cells_well hs'" "pairs_of hs' = insert (n, ?f) (pairs_of hs)" "n \<notin> fst ` pairs_of hs"
    using ins_high_ok [OF shapeD(1,2,4) [OF sh] _ x(2)] unfolding r_def by blast
  have sh': "shape H' hs' fn ff'"
    by (rule shape_high [OF sh H'(8,9)]) (use H'(2-6,10) high_freq [OF sh] in fastforce)+
  have nl: "n < length (h_freq H)" using nodes_bound [OF shapeD(1) [OF sh], of n] by simp
  have id: "n_id (h_freq H' ! m) = (if m = n then int x else n_id (h_freq H ! m))" if "m < length (h_freq H)" for m
    using arg_cong [OF H'(7), of "\<lambda>xs. xs ! m"] that H'(5) nl by (auto simp: nth_list_update)
  have "high_slots H' hs' = insert (int x, ?f, int n) (high_slots H hs)"
  proof -
    have "n_id (h_freq H' ! m) = n_id (h_freq H ! m)" if m: "(m, g) \<in> pairs_of hs" for m g
      using id [of m] pair_bound [OF sh m] H'(11) m by force
    then have "{(n_id (h_freq H' ! m), g, int m) | m g. (m, g) \<in> pairs_of hs} = high_slots H hs"
      unfolding high_slots_def by (metis (no_types, lifting))
    moreover have "n_id (h_freq H' ! n) = int x" using id [OF nl] by simp
    moreover have "high_slots H' hs' =
        insert (n_id (h_freq H' ! n), ?f, int n) {(n_id (h_freq H' ! m), g, int m) | m g. (m, g) \<in> pairs_of hs}"
      unfolding high_slots_def H'(10) by auto
    ultimately show ?thesis by simp
  qed
  moreover have "low_slots H' = low_slots H" using H'(2) by (simp add: low_slots_def)
  ultimately have "low_slots H' \<union> high_slots H' hs' = insert (int x, ?f, rec_hpos r) (rec_slots recs q)"
    using st by (auto simp: stored_def r_def)
  moreover have "{s \<in> rec_slots recs q. fst s \<noteq> int x} = rec_slots recs q" using x(1) by (auto simp: rec_slots_def)
  ultimately have "stored H' hs' (recs[x := r]) (q(x \<mapsto> ?f))"
    using rec_slots_other [of q x recs r] x st by (auto simp: stored_def rec_slots_Some)
  then show ?thesis using H'(1,3,4) sh' unfolding r_def Let_def by blast
qed

subsection \<open>Capacities\<close>

definition weight :: "(nat \<rightharpoonup> int) \<Rightarrow> int" where
  "weight q = (\<Sum>x\<in>dom q. the (q x))"

lemma weight_update:
  assumes "finite (dom q)"
  shows "weight (q(x \<mapsto> f)) = weight (q(x := None)) + f"
proof -
  let ?g = "\<lambda>y. the ((q(x \<mapsto> f)) y)"
  have "weight (q(x \<mapsto> f)) = sum ?g (insert x (dom q - {x}))" unfolding weight_def by (rule sum.cong) auto
  also have "\<dots> = f + sum ?g (dom q - {x})" using assms by (subst sum.insert) auto
  also have "sum ?g (dom q - {x}) = weight (q(x := None))" unfolding weight_def by (rule sum.cong) auto
  finally show ?thesis by (simp only: ac_simps)
qed

lemma weight_remove: "finite (dom q) \<Longrightarrow> q x = Some f \<Longrightarrow> weight q = weight (q(x := None)) + f"
  using weight_update [of q x f] by (simp add: fun_upd_idem)

lemma stored_finite: "stored H hs recs q \<Longrightarrow> finite (dom q)"
  unfolding stored_def by (meson finite_lessThan finite_subset lessThan_iff subsetI)

lemma weight_card:
  assumes "\<And>x f. q x = Some f \<Longrightarrow> k \<le> f"
  shows "k * int (card (dom q)) \<le> weight q"
proof -
  have "(\<Sum>x\<in>dom q. k) \<le> (\<Sum>x\<in>dom q. the (q x))" using assms by (intro sum_mono) auto
  then show ?thesis by (simp add: weight_def mult.commute)
qed

lemma array_room:
  assumes sh: "shape H hs fn ff" and st: "stored H hs recs q" and g: "1 \<le> g" "g < length (h_infreq H)"
  shows "int (length (arr_elems (h_infreq H ! g))) \<le> weight q"
proof -
  let ?e = "arr_elems (h_infreq H ! g)"
  have "{..<length ?e} \<subseteq> (\<lambda>x. nat (rec_hpos (recs ! x))) ` dom q"
  proof
    fix p assume "p \<in> {..<length ?e}"
    then have "(?e ! p, int g, int p) \<in> low_slots H" using g by (auto simp: low_slots_iff)
    then have "(?e ! p, int g, int p) \<in> rec_slots recs q" using st by (auto simp: stored_def)
    then obtain x where "q x = Some (int g)" "rec_hpos (recs ! x) = int p" by (auto simp: rec_slots_iff)
    then show "p \<in> (\<lambda>x. nat (rec_hpos (recs ! x))) ` dom q" by (metis domI image_eqI nat_int)
  qed
  then have "length ?e \<le> card (dom q)" using surj_card_le [OF stored_finite [OF st], of "{..<length ?e}"] by simp
  then show ?thesis using weight_card [of q 1] stored_freq [OF sh st] by fastforce
qed

lemma node_room:
  assumes sh: "shape H hs fn ff" and st: "stored H hs recs q" and room: "weight q < h_sqrtu H * h_sqrtu H"
  shows "fn \<noteq> []"
proof
  assume "fn = []"
  define Q where "Q = {x. \<exists>f. q x = Some f \<and> h_sqrtu H \<le> f}"
  have fin: "finite (dom q)" "Q \<subseteq> dom q" using stored_finite [OF st] by (auto simp: Q_def)
  have "set (nodes_of hs) \<subseteq> (\<lambda>x. nat (rec_hpos (recs ! x))) ` Q"
  proof
    fix n assume "n \<in> set (nodes_of hs)"
    then obtain f where f: "(n, f) \<in> pairs_of hs" unfolding pairs_of_fst [symmetric] by auto
    then have "(n_id (h_freq H ! n), f, int n) \<in> rec_slots recs q" using st by (auto simp: stored_def high_slots_iff)
    then obtain x where "q x = Some f" "rec_hpos (recs ! x) = int n" by (auto simp: rec_slots_iff)
    moreover have "h_sqrtu H \<le> f" by (rule high_freq [OF sh f])
    ultimately show "n \<in> (\<lambda>x. nat (rec_hpos (recs ! x))) ` Q" unfolding Q_def by (intro image_eqI [of _ _ x]) auto
  qed
  then have "card (set (nodes_of hs)) \<le> card Q" by (rule surj_card_le [OF finite_subset [OF fin(2,1)]])
  moreover have "card (set (nodes_of hs)) = length (nodes_of hs)"
    by (rule distinct_card) (use high_okD(1) [OF shapeD(1) [OF sh]] in auto)
  ultimately have "h_sqrtu H \<le> int (card Q)"
    using count_cells(1) [OF shapeD(1) [OF sh]] shapeD(5) [OF sh] \<open>fn = []\<close> by simp
  then have "h_sqrtu H * h_sqrtu H \<le> h_sqrtu H * int (card Q)" using shapeD(7) [OF sh] by (intro mult_left_mono) auto
  also have "\<dots> = (\<Sum>x\<in>Q. h_sqrtu H)" by simp
  also have "\<dots> \<le> (\<Sum>x\<in>Q. the (q x))" by (rule sum_mono) (auto simp: Q_def)
  also have "\<dots> \<le> weight q" unfolding weight_def
    by (rule sum_mono2 [OF fin]) (use stored_freq [OF sh st] in fastforce)
  finally show False using room by simp
qed

subsection \<open>The invariant\<close>

definition heap_ok :: "theap \<Rightarrow> trecord list \<Rightarrow> (nat \<rightharpoonup> int) \<Rightarrow> bool" where
  "heap_ok H recs q \<longleftrightarrow> (\<exists>hs fn ff. shape H hs fn ff \<and> stored H hs recs q) \<and>
     (\<forall>x f. q x = Some f \<longrightarrow> rec_freq (recs ! x) = f \<and> (f \<le> h_max H \<or> h_max H = h_sqrtu H)) \<and>
     0 \<le> h_max H \<and> h_max H \<le> h_sqrtu H"

text \<open>
  The room the operations need: the frequencies add up to at most the square of \<open>sqrtu\<close>, which the
  length of the text bounds, and to a number for which the sizes of the arrays stay of type \<open>int\<close>.
\<close>

definition room :: "theap \<Rightarrow> int" where
  "room H = min (h_sqrtu H * h_sqrtu H) (2 ^ 30 - 64)"

lemma rec_slots_same_hpos: "rec_hpos r = rec_hpos (recs ! x) \<Longrightarrow> rec_slots (recs[x := r]) q = rec_slots recs q"
proof -
  assume "rec_hpos r = rec_hpos (recs ! x)"
  then have "rec_hpos (recs[x := r] ! y) = rec_hpos (recs ! y)" for y by (simp add: nth_upd)
  then show ?thesis by (simp add: rec_slots_def)
qed

lemma stored_same_hpos: "stored H hs recs q \<Longrightarrow> rec_hpos r = rec_hpos (recs ! x) \<Longrightarrow> stored H hs (recs[x := r]) q"
  by (simp add: stored_def rec_slots_same_hpos)

lemma but_hpos_length: "but_hpos recs' = but_hpos recs \<Longrightarrow> length recs' = length recs"
  unfolding but_hpos_def by (drule arg_cong [of _ _ length]) simp

lemma but_hpos_nth: "but_hpos recs' = but_hpos recs \<Longrightarrow> x < length recs \<Longrightarrow>
    rec_freq (recs' ! x) = rec_freq (recs ! x) \<and> rec_pair (recs' ! x) = rec_pair (recs ! x) \<and>
    rec_cpos (recs' ! x) = rec_cpos (recs ! x) \<and> rec_kpos (recs' ! x) = rec_kpos (recs ! x)"
proof -
  assume eq: "but_hpos recs' = but_hpos recs" and x: "x < length recs"
  have "rec_hpos_update (\<lambda>_. 0) (recs' ! x) = rec_hpos_update (\<lambda>_. 0) (recs ! x)"
    using arg_cong [OF eq, of "\<lambda>xs. xs ! x"] x but_hpos_length [OF eq] by (simp add: but_hpos_def)
  then show ?thesis by (cases "recs' ! x"; cases "recs ! x") simp
qed

lemma but_hpos_update: "but_hpos (recs[x := (recs ! x)\<lparr>rec_hpos := p\<rparr>]) = but_hpos recs"
  unfolding but_hpos_def by (rule map_update_same) simp


subsection \<open>The operations\<close>

lemma heap_okE:
  assumes "heap_ok H recs q"
  obtains hs fn ff where "shape H hs fn ff" "stored H hs recs q"
  using assms unfolding heap_ok_def by blast

lemma heap_okD:
  assumes "heap_ok H recs q"
  shows "q x = Some f \<Longrightarrow> rec_freq (recs ! x) = f" "q x = Some f \<Longrightarrow> f \<le> h_max H \<or> h_max H = h_sqrtu H"
    "0 \<le> h_max H" "h_max H \<le> h_sqrtu H" "q x = Some f \<Longrightarrow> x < length recs" "q x = Some f \<Longrightarrow> 1 \<le> f"
    "finite (dom q)" "2 \<le> h_sqrtu H"
proof -
  obtain hs fn ff where st: "shape H hs fn ff" "stored H hs recs q" by (rule heap_okE [OF assms])
  show "q x = Some f \<Longrightarrow> x < length recs" using st(2) by (auto simp: stored_def)
  show "q x = Some f \<Longrightarrow> 1 \<le> f" by (rule stored_freq [OF st])
  show "finite (dom q)" by (rule stored_finite [OF st(2)])
  show "2 \<le> h_sqrtu H" by (rule shapeD(7) [OF st(1)])
qed (use assms in \<open>auto simp: heap_ok_def\<close>)

lemma insertHeap_ok:
  assumes ok: "heap_ok H recs q" and x: "q x = None" "x < length recs" and room: "weight q < room H" and mx: "1 \<le> h_max H"
  shows "\<exists>H' recs'. insertHeap H recs (int x) = Some (H', recs') \<and> heap_ok H' recs' (q(x \<mapsto> 1)) \<and>
    h_max H' = h_max H \<and> h_sqrtu H' = h_sqrtu H \<and> but_hpos recs' = but_hpos (recs[x := (recs ! x)\<lparr>rec_freq := 1\<rparr>])"
proof -
  obtain hs fn ff where st: "shape H hs fn ff" "stored H hs recs q" by (rule heap_okE [OF ok])
  have g: "1 \<le> (1::nat)" "1 < length (h_infreq H)" using shapeD(6,7) [OF st(1)] by simp_all
  have rm: "length (arr_elems (h_infreq H ! 1)) < 2 ^ 30 - 64"
    using array_room [OF st g] room by (simp add: room_def)
  define recs1 where "recs1 = recs[x := (recs ! x)\<lparr>rec_hpos := int (length (arr_elems (h_infreq H ! 1)))\<rparr>]"
  obtain A where A: "ins_low H recs (int x) 1 = Some (H\<lparr>h_infreq := (h_infreq H)[1 := A]\<rparr>, recs1)"
    "shape (H\<lparr>h_infreq := (h_infreq H)[1 := A]\<rparr>) hs fn ff" "stored (H\<lparr>h_infreq := (h_infreq H)[1 := A]\<rparr>) hs recs1 (q(x \<mapsto> 1))"
    using ins_low_ok [OF st x g rm] by (auto simp: Let_def recs1_def)
  define H' where "H' = H\<lparr>h_infreq := (h_infreq H)[1 := A]\<rparr>"
  define recs2 where "recs2 = recs1[x := (recs1 ! x)\<lparr>rec_freq := 1\<rparr>]"
  have "insertHeap H recs (int x) = Some (H', recs2)"
    using A(1) x(2) by (simp add: insertHeap_def H'_def recs2_def recs1_def upd_at_nat)
  moreover have "stored H' hs recs2 (q(x \<mapsto> 1))"
    unfolding recs2_def H'_def by (rule stored_same_hpos [OF A(3)]) simp
  moreover have "rec_freq (recs2 ! y) = (if y = x then 1 else rec_freq (recs ! y))" for y
    using x(2) by (auto simp: recs2_def recs1_def nth_upd)
  moreover have "but_hpos recs2 = but_hpos (recs[x := (recs ! x)\<lparr>rec_freq := 1\<rparr>])"
    using x(2) by (simp add: recs2_def recs1_def but_hpos_def map_update)
  ultimately show ?thesis using A(2) heap_okD [OF ok] mx
    by (intro exI [of _ H'] exI [of _ recs2]) (auto simp: heap_ok_def H'_def)
qed

text \<open>What an operation keeps, apart from the queue.\<close>

definition keeps :: "theap \<Rightarrow> trecord list \<Rightarrow> theap \<Rightarrow> trecord list \<Rightarrow> bool" where
  "keeps H recs H' recs' \<longleftrightarrow> h_max H' = h_max H \<and> h_sqrtu H' = h_sqrtu H \<and> but_hpos recs' = but_hpos recs"

lemma insert_stored:
  assumes sh: "shape H hs fn ff" and st: "stored H hs recs q" and x: "q x = None" "x < length recs"
    and f: "1 \<le> f" "f \<le> h_sqrtu H" and room: "weight q < room H"
  shows "\<exists>H' recs' hs' fn' ff'. (if f < h_sqrtu H then ins_low H recs (int x) f else ins_high H recs (int x) f) = Some (H', recs') \<and>
    keeps H recs H' recs' \<and> shape H' hs' fn' ff' \<and> stored H' hs' recs' (q(x \<mapsto> f))"
proof (cases "f < h_sqrtu H")
  case True
  define g where "g = nat f"
  have g: "f = int g" "1 \<le> g" "g < length (h_infreq H)" using True f shapeD(6) [OF sh] by (simp_all add: g_def)
  have "length (arr_elems (h_infreq H ! g)) < 2 ^ 30 - 64" using array_room [OF sh st g(2,3)] room by (simp add: room_def)
  then obtain A recs' where "ins_low H recs (int x) f = Some (H\<lparr>h_infreq := (h_infreq H)[g := A]\<rparr>, recs')"
    "shape (H\<lparr>h_infreq := (h_infreq H)[g := A]\<rparr>) hs fn ff"
    "stored (H\<lparr>h_infreq := (h_infreq H)[g := A]\<rparr>) hs recs' (q(x \<mapsto> f))" "but_hpos recs' = but_hpos recs"
    using ins_low_ok [OF sh st x g(2,3)] by (auto simp: Let_def g(1) but_hpos_update)
  moreover from this have "keeps H recs (H\<lparr>h_infreq := (h_infreq H)[g := A]\<rparr>) recs'" by (simp add: keeps_def)
  ultimately show ?thesis using True by (intro exI conjI) (assumption | simp)+
next
  case False
  then have fs: "f = h_sqrtu H" using f by simp
  have "weight q < h_sqrtu H * h_sqrtu H" using room by (simp add: room_def)
  then obtain n fn' where fn: "fn = n # fn'" using node_room [OF sh st] by (cases fn) auto
  obtain H' hs' ff' recs' where "ins_high H recs (int x) f = Some (H', recs')" "h_max H' = h_max H" "h_sqrtu H' = h_sqrtu H"
    "shape H' hs' fn' ff'" "stored H' hs' recs' (q(x \<mapsto> f))" "but_hpos recs' = but_hpos recs"
    using ins_high_stored [OF sh [unfolded fn] st x] by (auto simp: Let_def fs but_hpos_update)
  then show ?thesis using False by (intro exI conjI) (assumption | simp add: keeps_def)+
qed

lemma incFreq_ok:
  assumes ok: "heap_ok H recs q" and x: "q x = Some f" and room: "weight q < room H"
    and mx: "f < h_max H \<or> h_max H = h_sqrtu H"
  shows "\<exists>H' recs'. incFreq H recs (int x) = Some (H', recs') \<and> heap_ok H' recs' (q(x \<mapsto> f + 1)) \<and>
    keeps H (recs[x := (recs ! x)\<lparr>rec_freq := f + 1\<rparr>]) H' recs'"
proof -
  obtain hs fn ff where st: "shape H hs fn ff" "stored H hs recs q" by (rule heap_okE [OF ok])
  note D = heap_okD [OF ok]
  have xl: "x < length recs" and fr: "rec_freq (recs ! x) = f" and f1: "1 \<le> f" using D(1,5,6) x by blast+
  define recs1 where "recs1 = recs[x := (recs ! x)\<lparr>rec_freq := f + 1\<rparr>]"
  have st1: "stored H hs recs1 q" unfolding recs1_def by (rule stored_same_hpos [OF st(2)]) simp
  have hp: "rec_hpos (recs1 ! x) = rec_hpos (recs ! x)" using xl by (simp add: recs1_def)
  obtain H' recs' hs' fn' ff' where H': "incFreq H recs (int x) = Some (H', recs')" "keeps H recs1 H' recs'"
    "shape H' hs' fn' ff'" "stored H' hs' recs' (q(x \<mapsto> f + 1))"
  proof (cases "h_sqrtu H \<le> f")
    case True
    obtain H' hs' ff' where "inc_high H (rec_hpos (recs1 ! x)) (f + 1) = Some H'" "same_low H H'"
      "shape H' hs' fn ff'" "stored H' hs' recs1 (q(x \<mapsto> f + 1))"
      using inc_high_stored [OF st(1) st1 x True] by blast
    then show thesis using that [of H' recs1 hs' fn ff'] True xl fr hp
      by (simp add: incFreq_def vec_simps upd_at_nat recs1_def keeps_def same_low_def)
  next
    case False
    then have lt: "f < h_sqrtu H" by simp
    obtain H1 recs2 where H1: "del_low H recs1 f (rec_hpos (recs1 ! x)) = Some (H1, recs2)"
      "keeps H recs1 H1 recs2" "shape H1 hs fn ff" "stored H1 hs recs2 (q(x := None))"
      using del_low_ok [OF st(1) st1 x lt] by (auto simp: keeps_def)
    have "h_sqrtu H1 = h_sqrtu H" "length recs2 = length recs" using H1(2) but_hpos_length [of recs2 recs1]
      by (auto simp: keeps_def recs1_def)
    moreover have "weight (q(x := None)) < room H1" using room weight_remove [OF D(7) x] f1 H1(2) by (simp add: room_def keeps_def)
    ultimately obtain H' recs' hs' fn' ff' where
      "(if f + 1 < h_sqrtu H1 then ins_low H1 recs2 (int x) (f + 1) else ins_high H1 recs2 (int x) (f + 1)) = Some (H', recs')"
      "keeps H1 recs2 H' recs'" "shape H' hs' fn' ff'" "stored H' hs' recs' (q(x \<mapsto> f + 1))"
      using insert_stored [OF H1(3,4), of x "f + 1"] xl f1 lt by auto
    then show thesis using that [of H' recs' hs' fn' ff'] H1(1,2) lt xl fr hp
      by (simp add: incFreq_def vec_simps upd_at_nat recs1_def [symmetric] keeps_def)
  qed
  have "rec_freq (recs' ! y) = (if y = x then f + 1 else rec_freq (recs ! y))" if "y < length recs" for y
    using but_hpos_nth [of recs' recs1 y] H'(2) that by (auto simp: keeps_def recs1_def nth_upd)
  then have "heap_ok H' recs' (q(x \<mapsto> f + 1))"
    using H'(2-4) D mx xl unfolding heap_ok_def keeps_def by (auto split: if_splits)
  then show ?thesis using H'(1,2) by (auto simp: recs1_def)
qed

text \<open>The queue after one occurrence of a pair of frequency \<open>f\<close> has gone.\<close>

definition lower :: "(nat \<rightharpoonup> int) \<Rightarrow> nat \<Rightarrow> int \<Rightarrow> (nat \<rightharpoonup> int)" where
  "lower q x f = (if 1 < f then q(x \<mapsto> f - 1) else q(x := None))"

lemma dec_heap_ok:
  assumes ok: "heap_ok H recs q" and x: "q x = Some f" and room: "weight q \<le> room H"
  shows "\<exists>H' recs'. dec_heap H recs (int x) = Some (H', recs', 1 < f) \<and> heap_ok H' recs' (lower q x f) \<and>
    keeps H (recs[x := (recs ! x)\<lparr>rec_freq := f - 1\<rparr>]) H' recs'"
proof -
  obtain hs fn ff where st: "shape H hs fn ff" "stored H hs recs q" by (rule heap_okE [OF ok])
  note D = heap_okD [OF ok]
  have xl: "x < length recs" and fr: "rec_freq (recs ! x) = f" and f1: "1 \<le> f" using D(1,5,6) x by blast+
  define recs1 where "recs1 = recs[x := (recs ! x)\<lparr>rec_freq := f - 1\<rparr>]"
  have st1: "stored H hs recs1 q" unfolding recs1_def by (rule stored_same_hpos [OF st(2)]) simp
  have hp: "rec_hpos (recs1 ! x) = rec_hpos (recs ! x)" using xl by (simp add: recs1_def)
  obtain H' recs' hs' fn' ff' where H': "dec_heap H recs (int x) = Some (H', recs', 1 < f)" "keeps H recs1 H' recs'"
    "shape H' hs' fn' ff'" "stored H' hs' recs' (lower q x f)"
  proof (cases "h_sqrtu H < f")
    case True
    obtain H' hs' ff' where "dec_high H (rec_hpos (recs1 ! x)) (f - 1) = Some H'" "same_low H H'"
      "shape H' hs' fn ff'" "stored H' hs' recs1 (q(x \<mapsto> f - 1))"
      using dec_high_stored [OF st(1) st1 x True] by blast
    then show thesis using that [of H' recs1 hs' fn ff'] True xl fr hp D(8)
      by (simp add: dec_heap_def vec_simps upd_at_nat recs1_def keeps_def same_low_def lower_def)
  next
    case False
    define del where "del = (if f < h_sqrtu H then del_low H recs1 f (rec_hpos (recs1 ! x))
      else do { H1 \<leftarrow> del_high H (rec_hpos (recs1 ! x)); Some (H1, recs1) })"
    obtain H1 recs2 hs1 fn1 ff1 where H1: "del = Some (H1, recs2)"
      "keeps H recs1 H1 recs2" "shape H1 hs1 fn1 ff1" "stored H1 hs1 recs2 (q(x := None))"
    proof (cases "f < h_sqrtu H")
      case True
      then show thesis using that del_low_ok [OF st(1) st1 x True] by (auto simp: keeps_def del_def)
    next
      case nlt: False
      then have "q x = Some (h_sqrtu H)" using False x by simp
      then obtain H1 hs1 fn1 ff1 where "del_high H (rec_hpos (recs1 ! x)) = Some H1" "same_low H H1"
        "shape H1 hs1 fn1 ff1" "stored H1 hs1 recs1 (q(x := None))"
        using del_high_stored [OF st(1) st1] by blast
      then show thesis using that [of H1 recs1 hs1 fn1 ff1] nlt by (simp add: keeps_def same_low_def del_def)
    qed
    have run: "dec_heap H recs (int x) = do {
       (H1, recs2) \<leftarrow> del;
       if 0 < f - 1 then do { (H2, recs3) \<leftarrow> ins_low H1 recs2 (int x) (f - 1); Some (H2, recs3, True) }
       else Some (H1, recs2, False) }"
      using False xl fr hp by (simp add: dec_heap_def vec_simps upd_at_nat recs1_def del_def cong: if_cong)
    show thesis
    proof (cases "1 < f")
      case True
      have "h_sqrtu H1 = h_sqrtu H" "length recs2 = length recs" using H1(2) but_hpos_length [of recs2 recs1]
        by (auto simp: keeps_def recs1_def)
      moreover have "weight (q(x := None)) < room H1" using room weight_remove [OF D(7) x] f1 H1(2) by (simp add: room_def keeps_def)
      ultimately obtain H' recs' hs' fn' ff' where "ins_low H1 recs2 (int x) (f - 1) = Some (H', recs')"
        "keeps H1 recs2 H' recs'" "shape H' hs' fn' ff'" "stored H' hs' recs' (q(x \<mapsto> f - 1))"
        using insert_stored [OF H1(3,4), of x "f - 1"] xl True False by auto
      then show thesis using that [of H' recs' hs' fn' ff'] H1(1,2) run True by (simp add: keeps_def lower_def)
    next
      case nf: False
      then show thesis using that [of H1 recs2 hs1 fn1 ff1] H1 run by (simp add: lower_def)
    qed
  qed
  have fq: "rec_freq (recs' ! y) = (if y = x then f - 1 else rec_freq (recs ! y))" if "y < length recs" for y
    using but_hpos_nth [of recs' recs1 y] H'(2) that by (auto simp: keeps_def recs1_def nth_upd)
  have "rec_freq (recs' ! y) = g \<and> (g \<le> h_max H' \<or> h_max H' = h_sqrtu H')" if y: "lower q x f y = Some g" for y g
  proof (cases "y = x")
    case True
    then show ?thesis using y fq [OF xl] D(2) [OF x] H'(2) by (auto simp: lower_def keeps_def split: if_splits)
  next
    case False
    then have "q y = Some g" using y by (simp add: lower_def split: if_splits)
    then show ?thesis using fq [of y] D(1,2,5) False H'(2) by (auto simp: keeps_def)
  qed
  then have "heap_ok H' recs' (lower q x f)" using H'(2-4) D(3,4) unfolding heap_ok_def keeps_def by auto
  then show ?thesis using H'(1,2) by (auto simp: recs1_def)
qed

end
