(* ===== verification/Heap_Max.thy ===== *)
theory Heap_Max
  imports Heap_Queue
begin

text \<open>
  Taking a most frequent pair out of the heap, moving a record, creating the heap, and the heap as an
  implementation of a priority queue.
\<close>

subsection \<open>Extracting a most frequent pair\<close>

lemma extractMax_eq:
  "extractMax H = do {
     let H0 = (if h_max H = h_sqrtu H \<and> h_largest H = -1 then H\<lparr>h_max := h_max H - 1\<rparr> else H);
     if h_max H0 < h_sqrtu H0 then do {
       m \<leftarrow> max_loop H0 (h_max H0);
       let H1 = H0\<lparr>h_max := m\<rparr>;
       if m = 0 then Some (H1, -1)
       else do {
         A \<leftarrow> infreq_at H1 m;
         ret \<leftarrow> vec_at (a_pairs A) (a_size A - 1);
         H2 \<leftarrow> infreq_set H1 m (deleteArray A);
         Some (H2, ret)
       }
     } else extract_high H0
   }"
  unfolding extractMax_def extract_high_def drop_last_def Let_def ..

text \<open>The loop finds the largest frequency whose array is not empty.\<close>

lemma max_loop_Some:
  assumes "m < length (h_infreq H)" and ok: "\<And>f. 1 \<le> f \<Longrightarrow> f < length (h_infreq H) \<Longrightarrow> arr_ok (h_infreq H ! f)"
  shows "\<exists>k. max_loop H (int m) = Some (int k) \<and> k \<le> m \<and> (k \<noteq> 0 \<longrightarrow> arr_elems (h_infreq H ! k) \<noteq> []) \<and>
    (\<forall>j. k < j \<and> j \<le> m \<longrightarrow> arr_elems (h_infreq H ! j) = [])"
  using assms(1)
proof (induction m)
  case 0
  then show ?case by (simp add: max_loop.simps)
next
  case (Suc m)
  let ?A = "h_infreq H ! Suc m"
  have okA: "arr_ok ?A" using ok [of "Suc m"] Suc.prems by simp
  have at: "infreq_at H (int (Suc m)) = Some ?A" using Suc.prems by (intro infreq_at_nat) simp_all
  have sz: "a_size ?A = 0 \<longleftrightarrow> arr_elems ?A = []" using length_arr_elems [OF okA] okA by (auto simp: arr_ok_def)
  show ?case
  proof (cases "arr_elems ?A = []")
    case True
    then have "max_loop H (int (Suc m)) = max_loop H (int m)" using at sz by (subst max_loop.simps) simp
    moreover obtain k where k: "max_loop H (int m) = Some (int k)" "k \<le> m" "k \<noteq> 0 \<longrightarrow> arr_elems (h_infreq H ! k) \<noteq> []"
      "\<forall>j. k < j \<and> j \<le> m \<longrightarrow> arr_elems (h_infreq H ! j) = []"
      using Suc.IH Suc.prems by auto
    ultimately show ?thesis using True by (intro exI [of _ k]) (auto simp: le_Suc_eq)
  next
    case False
    then have "max_loop H (int (Suc m)) = Some (int (Suc m))" using at sz by (subst max_loop.simps) simp
    then show ?thesis using False by (intro exI [of _ "Suc m"]) auto
  qed
qed

lemma shape_max: "shape H hs fn ff \<Longrightarrow> shape (H\<lparr>h_max := m\<rparr>) hs fn ff"
  by (simp add: shape_def high_ok_def cell_ok_def)

lemma stored_max: "stored H hs recs q \<Longrightarrow> stored (H\<lparr>h_max := m\<rparr>) hs recs q"
  by (simp add: stored_def low_slots_def high_slots_def)

text \<open>The last pair of an array is taken.\<close>

lemma pop_stored:
  assumes sh: "shape H hs fn ff" and st: "stored H hs recs q" and g: "1 \<le> g" "g < length (h_infreq H)"
    and ne: "arr_elems (h_infreq H ! g) \<noteq> []"
  shows "\<exists>x. let H' = H\<lparr>h_infreq := (h_infreq H)[g := deleteArray (h_infreq H ! g)]\<rparr> in
    last (arr_elems (h_infreq H ! g)) = int x \<and> q x = Some (int g) \<and> shape H' hs fn ff \<and> stored H' hs recs (q(x := None))"
proof -
  let ?A = "h_infreq H ! g"
  define e where "e = arr_elems ?A"
  define H' where "H' = H\<lparr>h_infreq := (h_infreq H)[g := deleteArray ?A]\<rparr>"
  have A: "arr_ok (deleteArray ?A)" "arr_elems (deleteArray ?A) = butlast e"
    using arr.pop [OF shapeD(8) [OF sh g] ne] by (simp_all add: e_def)
  have eq: "e = butlast e @ [last e]" using ne by (simp add: e_def)
  have sh': "shape H' hs fn ff" unfolding H'_def by (rule shape_infreq [OF sh A(1)])
  have slots: "low_slots H = {s \<in> low_slots H. fst (snd s) \<noteq> int g} \<union> {(e ! k, int g, int k) | k. k < length e}"
    using low_slots_set [OF g, of ?A] by (simp add: e_def)
  have "{(e ! k, int g, int k) | k. k < length e} = insert (last e, int g, int (length e - 1)) {(butlast e ! k, int g, int k) | k. k < length (butlast e)}"
    by (subst (1 2) eq) (force simp: nth_append less_Suc_eq)
  moreover have "low_slots H' = {s \<in> low_slots H. fst (snd s) \<noteq> int g} \<union> {(butlast e ! k, int g, int k) | k. k < length (butlast e)}"
    unfolding H'_def low_slots_set [OF g] A(2) ..
  ultimately have new: "low_slots H = insert (last e, int g, int (length e - 1)) (low_slots H')"
    "(last e, int g, int (length e - 1)) \<notin> low_slots H'"
    using slots by auto
  then have "(last e, int g, int (length e - 1)) \<in> rec_slots recs q" using st by (auto simp: stored_def)
  then obtain x where x: "last e = int x" "q x = Some (int g)" "rec_hpos (recs ! x) = int (length e - 1)"
    by (auto simp: rec_slots_iff)
  have "(int x, int g, int (length e - 1)) \<notin> high_slots H hs"
    using high_freq [OF sh] g shapeD(6) [OF sh] by (fastforce simp: high_slots_iff)
  moreover have "high_slots H' hs = high_slots H hs" by (simp add: high_slots_def H'_def)
  moreover have "rec_slots recs q = insert (int x, int g, int (length e - 1)) (low_slots H' \<union> high_slots H hs)"
    using st new(1) unfolding stored_def x(1) by simp
  ultimately have "low_slots H' \<union> high_slots H' hs = rec_slots recs q - {(int x, int g, rec_hpos (recs ! x))}"
    using new(2) unfolding x(1,3) by simp
  then have "stored H' hs recs (q(x := None))" using st rec_slots_minus [of q x "int g" recs] x(2) by (auto simp: stored_def rec_slots_None)
  then show ?thesis using x sh' unfolding H'_def e_def Let_def by blast
qed

text \<open>The two ways of extraction.\<close>

lemma extract_low_ok:
  assumes ok: "heap_ok H recs q" and mx: "h_max H < h_sqrtu H"
  shows "\<exists>H' r. extractMax H = Some (H', r) \<and> h_sqrtu H' = h_sqrtu H \<and>
    (if q = Map.empty then r = -1 \<and> heap_ok H' recs q
     else \<exists>x f. r = int x \<and> q x = Some f \<and> (\<forall>y g. q y = Some g \<longrightarrow> g \<le> f) \<and> heap_ok H' recs (q(x := None)) \<and> h_max H' = f)"
proof -
  obtain hs fn ff where st: "shape H hs fn ff" "stored H hs recs q" by (rule heap_okE [OF ok])
  note D = heap_okD [OF ok]
  define m where "m = nat (h_max H)"
  have m: "h_max H = int m" "m < length (h_infreq H)" using D(3) mx shapeD(6) [OF st(1)] by (simp_all add: m_def)
  obtain k where k: "max_loop H (int m) = Some (int k)" "k \<le> m" "k \<noteq> 0 \<longrightarrow> arr_elems (h_infreq H ! k) \<noteq> []"
    "\<forall>j. k < j \<and> j \<le> m \<longrightarrow> arr_elems (h_infreq H ! j) = []"
    using max_loop_Some [OF m(2) shapeD(8) [OF st(1)]] by blast
  have top: "f \<le> int k" if qy: "q y = Some f" for y f
  proof -
    have lt: "f < h_sqrtu H" and fm: "f \<le> int m" using D(2) [OF qy] mx m(1) by auto
    obtain g p where "f = int g" "p < length (arr_elems (h_infreq H ! g))" by (rule stored_low [OF st qy lt])
    then show ?thesis using k(4) fm by (cases "k < g") auto
  qed
  define H1 where "H1 = H\<lparr>h_max := int k\<rparr>"
  have st1: "shape H1 hs fn ff" "stored H1 hs recs q" using st by (simp_all add: H1_def shape_max stored_max)
  have at: "infreq_at H1 (int k) = Some (h_infreq H ! k)" if "k \<noteq> 0"
    using that k(2) m(2) infreq_at_nat [of k H1] by (simp add: H1_def)
  have run: "extractMax H = (if k = 0 then Some (H1, -1) else do {
      ret \<leftarrow> vec_at (a_pairs (h_infreq H ! k)) (a_size (h_infreq H ! k) - 1);
      H2 \<leftarrow> infreq_set H1 (int k) (deleteArray (h_infreq H ! k));
      Some (H2, ret) })"
    using mx k(1) m(1) at by (simp add: extractMax_eq H1_def)
  show ?thesis
  proof (cases "k = 0")
    case True
    have "q y = None" for y
    proof (cases "q y")
      case (Some f)
      then show ?thesis using top [OF Some] D(6) [OF Some] True by simp
    qed
    then have "q = Map.empty" by (rule ext)
    then show ?thesis using run True st1 D by (auto simp: heap_ok_def H1_def intro!: exI)
  next
    case False
    have g: "1 \<le> k" "k < length (h_infreq H1)" using False k(2) m(2) by (simp_all add: H1_def)
    have ne: "arr_elems (h_infreq H1 ! k) \<noteq> []" using k(3) False by (simp add: H1_def)
    define H2 where "H2 = H1\<lparr>h_infreq := (h_infreq H1)[k := deleteArray (h_infreq H1 ! k)]\<rparr>"
    obtain x where x: "last (arr_elems (h_infreq H1 ! k)) = int x" "q x = Some (int k)" "shape H2 hs fn ff" "stored H2 hs recs (q(x := None))"
      using pop_stored [OF st1 g ne] unfolding Let_def H2_def by blast
    have "vec_at (a_pairs (h_infreq H ! k)) (a_size (h_infreq H ! k) - 1) = Some (int x)"
      using arr_top [OF shapeD(8) [OF st1(1) g] ne] x(1) by (simp add: H1_def)
    moreover have "infreq_set H1 (int k) (deleteArray (h_infreq H ! k)) = Some H2"
      using infreq_set_nat [OF g] by (simp add: H2_def H1_def)
    ultimately have "extractMax H = Some (H2, int x)" using run False by simp
    moreover have "heap_ok H2 recs (q(x := None))"
      using x(3,4) D(1) top k(2) m D(4) unfolding heap_ok_def by (auto simp: H2_def H1_def)
    moreover have "q \<noteq> Map.empty" using x(2) by auto
    ultimately show ?thesis using x(2) top by (auto simp: H2_def H1_def)
  qed
qed

lemma extract_high_stored:
  assumes sh: "shape H hs fn ff" and st: "stored H hs recs q" and ne: "hs \<noteq> []"
  shows "\<exists>H' hs' fn' ff' x f. extract_high H = Some (H', int x) \<and> same_low H H' \<and> q x = Some f \<and> h_sqrtu H \<le> f \<and>
    (\<forall>y g. q y = Some g \<longrightarrow> g \<le> f) \<and> shape H' hs' fn' ff' \<and> stored H' hs' recs (q(x := None))"
proof -
  obtain n f H' hs' ff' where H': "extract_high H = Some (H', n_id (h_freq H ! n))" "same_low H H'" "high_ok H' hs' [] (n # fn) ff'"
    "cells_well hs'" "(n, f) \<in> pairs_of hs" "pairs_of hs' = pairs_of hs - {(n, f)}" "\<forall>(y, g)\<in>pairs_of hs. g \<le> f"
    using extract_high_ok [OF shapeD(1,2) [OF sh] ne] by blast
  have f: "h_sqrtu H \<le> f" by (rule high_freq [OF sh H'(5)])
  have "(n_id (h_freq H ! n), f, int n) \<in> rec_slots recs q" using H'(5) st by (auto simp: stored_def high_slots_iff)
  then obtain x where x: "n_id (h_freq H ! n) = int x" "q x = Some f" "rec_hpos (recs ! x) = int n" by (auto simp: rec_slots_iff)
  have "shape H' hs' (n # fn) ff'"
    by (rule shape_high [OF sh H'(3,4)]) (use H'(2,6) high_freq [OF sh] in \<open>fastforce simp: same_low_def\<close>)+
  moreover have "stored H' hs' recs (q(x := None))" by (rule stored_remove [OF sh st x(2) f x(3,1) H'(5,2,6)])
  moreover have "g \<le> f" if qy: "q y = Some g" for y g
  proof (cases "g < h_sqrtu H")
    case False
    then obtain k where "(k, g) \<in> pairs_of hs" using stored_high [OF sh st qy] by fastforce
    then show ?thesis using H'(7) by blast
  qed (use f in simp)
  ultimately show ?thesis using H'(1,2) x f by auto
qed

lemma extractMax_ok:
  assumes ok: "heap_ok H recs q"
  shows "\<exists>H' r. extractMax H = Some (H', r) \<and> h_sqrtu H' = h_sqrtu H \<and>
    (if q = Map.empty then r = -1 \<and> heap_ok H' recs q
     else \<exists>x f. r = int x \<and> q x = Some f \<and> (\<forall>y g. q y = Some g \<longrightarrow> g \<le> f) \<and> heap_ok H' recs (q(x := None)) \<and>
       (f \<le> h_max H' \<or> h_max H' = h_sqrtu H'))"
proof -
  obtain hs fn ff where st: "shape H hs fn ff" "stored H hs recs q" by (rule heap_okE [OF ok])
  note D = heap_okD [OF ok]
  have lg: "h_largest H = -1 \<longleftrightarrow> hs = []" using high_okD(7) [OF shapeD(1) [OF st(1)]] by simp
  consider "h_max H < h_sqrtu H" | "h_max H = h_sqrtu H" "hs = []" | "h_max H = h_sqrtu H" "hs \<noteq> []" using D(4) by linarith
  then show ?thesis
  proof cases
    case 1
    then show ?thesis using extract_low_ok [OF ok] by (auto split: if_splits)
  next
    case 2
    define H0 where "H0 = H\<lparr>h_max := h_max H - 1\<rparr>"
    have "f \<le> h_max H0" if "q y = Some f" for y f
    proof (rule ccontr)
      assume "\<not> f \<le> h_max H0"
      then have "h_sqrtu H \<le> f" using 2 by (simp add: H0_def)
      then show False using stored_high [OF st that] 2(2) by fastforce
    qed
    moreover have "shape H0 hs fn ff" "stored H0 hs recs q" using st by (simp_all add: H0_def shape_max stored_max)
    ultimately have ok0: "heap_ok H0 recs q" using D 2(1) unfolding heap_ok_def by (auto simp: H0_def)
    have "extractMax H = extractMax H0" using 2 lg by (simp add: extractMax_eq H0_def)
    then show ?thesis using extract_low_ok [OF ok0] 2 by (auto simp: H0_def split: if_splits)
  next
    case 3
    obtain H' hs' fn' ff' x f where H': "extract_high H = Some (H', int x)" "same_low H H'" "q x = Some f" "h_sqrtu H \<le> f"
      "\<forall>y g. q y = Some g \<longrightarrow> g \<le> f" "shape H' hs' fn' ff'" "stored H' hs' recs (q(x := None))"
      using extract_high_stored [OF st 3(2)] by blast
    have "extractMax H = Some (H', int x)" using 3 lg H'(1) by (simp add: extractMax_eq)
    moreover have "heap_ok H' recs (q(x := None))" using H'(2,6,7) D 3 unfolding heap_ok_def same_low_def by auto
    moreover have "q \<noteq> Map.empty" using H'(3) by auto
    ultimately show ?thesis using H'(2,3,5) 3 by (auto simp: same_low_def)
  qed
qed

subsection \<open>Moving a record\<close>

text \<open>
  \<open>removeRecord\<close> and \<open>purgeHeap\<close> move records; the heap then learns the new identifier \<open>x\<close> of the pair that had
  identifier \<open>y\<close>.
\<close>

lemma rec_slots_cong:
  "(\<And>x f. q x = Some f \<Longrightarrow> rec_hpos (recs ! x) = rec_hpos (recs' ! x)) \<Longrightarrow> rec_slots recs q = rec_slots recs' q"
  unfolding rec_slots_def by (metis (no_types, lifting))

lemma rec_slots_fresh: "q x = None \<Longrightarrow> rec_slots recs (q(x \<mapsto> f)) = insert (int x, f, rec_hpos (recs ! x)) (rec_slots recs q)"
  by (auto simp: rec_slots_def)

lemma arr_put_stored:
  assumes sh: "shape H hs fn ff" and st: "stored H hs recs q" and y: "q y = Some f" "f < h_sqrtu H"
    and x: "q x = None" "x < length recs'" and len: "\<And>z g. q z = Some g \<Longrightarrow> z \<noteq> y \<Longrightarrow> z < length recs' \<and> rec_hpos (recs' ! z) = rec_hpos (recs ! z)"
    and hp: "rec_hpos (recs' ! x) = rec_hpos (recs ! y)"
  shows "\<exists>A A'. infreq_at H f = Some A \<and> arr_put A (rec_hpos (recs ! y)) (int x) = Some A' \<and>
    (\<exists>H'. infreq_set H f A' = Some H' \<and> h_max H' = h_max H \<and> h_sqrtu H' = h_sqrtu H \<and> shape H' hs fn ff \<and>
      stored H' hs recs' (q(y := None, x \<mapsto> f)))"
proof -
  obtain g p where g: "f = int g" "1 \<le> g" "g < length (h_infreq H)" and p: "rec_hpos (recs ! y) = int p"
    "p < length (arr_elems (h_infreq H ! g))" "arr_elems (h_infreq H ! g) ! p = int y"
    by (rule stored_low [OF sh st y])
  let ?A = "h_infreq H ! g"
  define e where "e = arr_elems ?A"
  obtain A' where A': "arr_put ?A (int p) (int x) = Some A'" "arr_ok A'" "arr_elems A' = e[p := int x]"
    using arr.put [OF shapeD(8) [OF sh g(2,3)] p(2)] by (auto simp: e_def)
  define H' where "H' = H\<lparr>h_infreq := (h_infreq H)[g := A']\<rparr>"
  have pl: "p < length e" "e ! p = int y" using p by (simp_all add: e_def)
  define L where "L = {s \<in> low_slots H. fst (snd s) \<noteq> int g}"
  define cells_in where "cells_in es = {(es ! k, int g, int k) | k. k < length es}" for es :: "int list"
  have slots: "low_slots H = L \<union> cells_in e"
    using low_slots_set [OF g(2,3), of ?A] unfolding L_def e_def cells_in_def by simp
  have sep: "(int y, int g, int p) \<notin> L" by (simp add: L_def)
  have "cells_in (e[p := int x]) =
      insert (int x, int g, int p) (cells_in e - {(int y, int g, int p)})"
    unfolding cells_in_def using pl by (auto simp: nth_list_update)
  moreover have "low_slots H' = L \<union> cells_in (e[p := int x])"
    unfolding H'_def low_slots_set [OF g(2,3)] A'(3) L_def cells_in_def ..
  ultimately have "low_slots H' = insert (int x, int g, int p) (low_slots H - {(int y, int g, int p)})"
    using sep by (simp add: slots Un_Diff insert_Diff_if)
  moreover have "high_slots H' hs = high_slots H hs" by (simp add: high_slots_def H'_def)
  moreover have "(int y, int g, int p) \<notin> high_slots H hs" using high_freq [OF sh] y(2) g(1) by (fastforce simp: high_slots_iff)
  ultimately have "low_slots H' \<union> high_slots H' hs = insert (int x, f, int p) (rec_slots recs q - {(int y, f, int p)})"
    using st g(1) unfolding stored_def by blast
  also have "rec_slots recs q - {(int y, f, int p)} = rec_slots recs (q(y := None))"
    using rec_slots_minus [of q y f recs] y(1) p(1) by (simp add: rec_slots_None)
  also have "\<dots> = rec_slots recs' (q(y := None))" by (rule rec_slots_cong) (use len in \<open>fastforce split: if_splits\<close>)
  also have "insert (int x, f, int p) (rec_slots recs' (q(y := None))) = rec_slots recs' (q(y := None, x \<mapsto> f))"
    using rec_slots_fresh [of "q(y := None)" x recs' f] x(1) hp p(1) by simp
  finally have "stored H' hs recs' (q(y := None, x \<mapsto> f))" using len x unfolding stored_def by (auto split: if_splits)
  moreover have "shape H' hs fn ff" unfolding H'_def by (rule shape_infreq [OF sh A'(2)])
  moreover have "infreq_set H f A' = Some H'" using g by (simp add: infreq_set_nat H'_def)
  ultimately show ?thesis using A'(1) g p(1) by (intro exI [of _ ?A] exI [of _ A']) (auto simp: infreq_at_nat H'_def)
qed

lemma set_id_stored:
  assumes sh: "shape H hs fn ff" and st: "stored H hs recs q" and y: "q y = Some f" "h_sqrtu H \<le> f"
    and x: "q x = None" "x < length recs'" and len: "\<And>z g. q z = Some g \<Longrightarrow> z \<noteq> y \<Longrightarrow> z < length recs' \<and> rec_hpos (recs' ! z) = rec_hpos (recs ! z)"
    and hp: "rec_hpos (recs' ! x) = rec_hpos (recs ! y)"
  shows "\<exists>H'. set_node H (rec_hpos (recs ! y)) (n_id_update (\<lambda>_. int x)) = Some H' \<and>
    h_max H' = h_max H \<and> h_sqrtu H' = h_sqrtu H \<and> shape H' hs fn ff \<and> stored H' hs recs' (q(y := None, x \<mapsto> f))"
proof -
  obtain n where n: "rec_hpos (recs ! y) = int n" "(n, f) \<in> pairs_of hs" "n_id (h_freq H ! n) = int y"
    by (rule stored_high [OF sh st y])
  have nl: "n < length (h_freq H)" by (rule pair_bound [OF sh n(2)])
  define H' where "H' = H\<lparr>h_freq := (h_freq H)[n := (h_freq H ! n)\<lparr>n_id := int x\<rparr>]\<rparr>"
  have same: "n_next (h_freq H' ! m) = n_next (h_freq H ! m)" "n_prev (h_freq H' ! m) = n_prev (h_freq H ! m)"
    "n_fnode (h_freq H' ! m) = n_fnode (h_freq H ! m)" for m
    using nl by (simp_all add: H'_def nth_upd)
  have "high_ok H' hs [] fn ff" using shapeD(1) [OF sh] unfolding high_ok_def cell_ok_def same by (simp add: H'_def)
  then have sh': "shape H' hs fn ff" using sh by (simp add: shape_def H'_def)
  have "fst ` pairs_of hs = set (nodes_of hs)" by (rule pairs_of_fst)
  have uniq: "g = f" if "(n, g) \<in> pairs_of hs" for g
  proof -
    obtain A c xs ys B where hs: "hs = A @ (c, f, xs @ n # ys) # B" using find_pair [OF n(2)] by blast
    show ?thesis using that node_links(6,7) [OF shapeD(1) [OF sh, unfolded hs], of g] by (auto simp: hs)
  qed
  have id: "n_id (h_freq H' ! m) = (if m = n then int x else n_id (h_freq H ! m))" for m
    using nl by (simp add: H'_def nth_upd)
  have at: "(n, g) \<in> pairs_of hs \<longleftrightarrow> g = f" for g using uniq n(2) by blast
  have "(i, g, p) \<in> high_slots H' hs \<longleftrightarrow> (i, g, p) \<in> insert (int x, f, int n) (high_slots H hs - {(int y, f, int n)})" for i g p
  proof (cases "p = int n")
    case True
    then show ?thesis using n(3) by (auto simp: high_slots_iff id at)
  next
    case False
    then have "(i, g, p) \<in> high_slots H' hs \<longleftrightarrow> (i, g, p) \<in> high_slots H hs"
      unfolding high_slots_iff id by metis
    then show ?thesis using False by simp
  qed
  then have "high_slots H' hs = insert (int x, f, int n) (high_slots H hs - {(int y, f, int n)})" by auto
  moreover have "low_slots H' = low_slots H" by (simp add: low_slots_def H'_def)
  moreover have "(int y, f, int n) \<notin> low_slots H" using low_freq [OF sh] y(2) by fastforce
  ultimately have "low_slots H' \<union> high_slots H' hs = insert (int x, f, int n) (rec_slots recs q - {(int y, f, int n)})"
    using st unfolding stored_def by blast
  also have "rec_slots recs q - {(int y, f, int n)} = rec_slots recs (q(y := None))"
    using rec_slots_minus [of q y f recs] y(1) n(1) by (simp add: rec_slots_None)
  also have "\<dots> = rec_slots recs' (q(y := None))" by (rule rec_slots_cong) (use len in \<open>fastforce split: if_splits\<close>)
  also have "insert (int x, f, int n) (rec_slots recs' (q(y := None))) = rec_slots recs' (q(y := None, x \<mapsto> f))"
    using rec_slots_fresh [of "q(y := None)" x recs' f] x(1) hp n(1) by simp
  finally have "stored H' hs recs' (q(y := None, x \<mapsto> f))" using len x unfolding stored_def by (auto split: if_splits)
  then show ?thesis using sh' n(1) nl by (auto simp: set_node_nat H'_def)
qed

lemma heapRepos_ok:
  assumes ok: "heap_ok H recs q" and y: "q y = Some f" and x: "q x = None" "x < length recs'" "recs' ! x = recs ! y"
    and same: "\<And>z g. q z = Some g \<Longrightarrow> z \<noteq> y \<Longrightarrow> z < length recs' \<and> rec_hpos (recs' ! z) = rec_hpos (recs ! z) \<and> rec_freq (recs' ! z) = rec_freq (recs ! z)"
  shows "\<exists>H'. heapRepos H recs' (int x) = Some H' \<and> heap_ok H' recs' (q(y := None, x \<mapsto> f)) \<and>
    h_max H' = h_max H \<and> h_sqrtu H' = h_sqrtu H"
proof -
  obtain hs fn ff where st: "shape H hs fn ff" "stored H hs recs q" by (rule heap_okE [OF ok])
  note D = heap_okD [OF ok]
  have fr: "rec_freq (recs ! y) = f" by (rule D(1) [OF y])
  have hp: "rec_hpos (recs' ! x) = rec_hpos (recs ! y)" using x(3) by simp
  have len: "z < length recs' \<and> rec_hpos (recs' ! z) = rec_hpos (recs ! z)" if "q z = Some g" "z \<noteq> y" for z g
    using same [OF that] by simp
  obtain H' where H': "heapRepos H recs' (int x) = Some H'" "h_max H' = h_max H" "h_sqrtu H' = h_sqrtu H"
    "shape H' hs fn ff" "stored H' hs recs' (q(y := None, x \<mapsto> f))"
  proof (cases "f < h_sqrtu H")
    case True
    obtain A A' H' where "infreq_at H f = Some A" "arr_put A (rec_hpos (recs ! y)) (int x) = Some A'" "infreq_set H f A' = Some H'"
      "h_max H' = h_max H" "h_sqrtu H' = h_sqrtu H" "shape H' hs fn ff" "stored H' hs recs' (q(y := None, x \<mapsto> f))"
      using arr_put_stored [of H hs fn ff recs q y f x recs'] st y True x(1,2) len hp by blast
    then show thesis using that [of H'] x(2,3) fr True by (simp add: heapRepos_def vec_simps)
  next
    case False
    then have ge: "h_sqrtu H \<le> f" by simp
    obtain H' where "set_node H (rec_hpos (recs ! y)) (n_id_update (\<lambda>_. int x)) = Some H'"
      "h_max H' = h_max H" "h_sqrtu H' = h_sqrtu H" "shape H' hs fn ff" "stored H' hs recs' (q(y := None, x \<mapsto> f))"
      using set_id_stored [of H hs fn ff recs q y f x recs'] st y ge x(1,2) len hp by blast
    then show thesis using that [of H'] x(2,3) fr False by (simp add: heapRepos_def vec_simps)
  qed
  have "rec_freq (recs' ! z) = g \<and> (g \<le> h_max H' \<or> h_max H' = h_sqrtu H')" if z: "(q(y := None, x \<mapsto> f)) z = Some g" for z g
  proof (cases "z = x")
    case True
    then show ?thesis using z x(3) fr D(2) [OF y] H'(2,3) by auto
  next
    case False
    then have "q z = Some g" "z \<noteq> y" using z by (auto split: if_splits)
    then show ?thesis using same D(1,2) H'(2,3) by fastforce
  qed
  then have "heap_ok H' recs' (q(y := None, x \<mapsto> f))" using H'(2-5) D(3,4) unfolding heap_ok_def by auto
  then show ?thesis using H'(1-3) by blast
qed

subsection \<open>Creating the heap\<close>

lemma square_i32: "0 \<le> k \<Longrightarrow> k \<le> 46340 \<Longrightarrow> i32_arith (k * k) = Some (k * k)"
proof -
  assume k: "0 \<le> k" "k \<le> 46340"
  then have "k * k \<le> 46340 * 46340" by (intro mult_mono) auto
  moreover have "- 2147483648 \<le> k * k" using mult_nonneg_nonneg [OF k(1) k(1)] by linarith
  ultimately show ?thesis by (simp add: i32_arith_def)
qed

lemma sqrt_loop_Some:
  assumes "0 \<le> s" "s \<le> k" "u \<le> k * k" "k \<le> 46340"
  shows "\<exists>r. sqrt_loop s u = Some r \<and> s \<le> r \<and> r \<le> k \<and> u \<le> r * r"
  using assms
proof (induction "nat (k - s)" arbitrary: s)
  case 0
  then have "s = k" by simp
  then show ?case using 0 square_i32 [of s] by (subst sqrt_loop.simps) simp
next
  case (Suc d)
  have i: "i32_arith (s * s) = Some (s * s)" using Suc.prems by (intro square_i32) auto
  show ?case
  proof (cases "s * s < u")
    case True
    have "\<exists>r. sqrt_loop (s + 1) u = Some r \<and> s + 1 \<le> r \<and> r \<le> k \<and> u \<le> r * r"
      using Suc.hyps(2) Suc.prems by (intro Suc.hyps(1)) auto
    then obtain r where "sqrt_loop (s + 1) u = Some r" "s + 1 \<le> r" "r \<le> k" "u \<le> r * r" by blast
    moreover from this have "sqrt_loop s u = Some r" using True i by (subst sqrt_loop.simps) simp
    ultimately show ?thesis by auto
  next
    case False
    then have "sqrt_loop s u = Some s" using i by (subst sqrt_loop.simps) simp
    then show ?thesis using False Suc.prems by auto
  qed
qed

lemma next_link_upt: "i < n \<Longrightarrow> next_link [0..<n] i = (if Suc i < n then int (Suc i) else -1)"
proof -
  assume i: "i < n"
  have "[0..<n] = [0..<i] @ i # [Suc i..<n]" using i upt_add_eq_append [of 0 i "n - i"] by (simp add: upt_conv_Cons)
  then have "next_link [0..<n] i = first_link [Suc i..<n]" by (simp add: next_link_mid)
  then show ?thesis by (cases "Suc i < n") (simp_all add: upt_conv_Cons)
qed

lemma createHeap_ok:
  assumes u: "u \<le> 46340 * 46340" and ms: "0 < minsize"
  shows "\<exists>H. createHeap mem u minsize = Some H \<and> heap_ok H recs Map.empty \<and> h_max H = h_sqrtu H \<and> u \<le> h_sqrtu H * h_sqrtu H"
proof -
  obtain s where s: "sqrt_loop 2 u = Some s" "2 \<le> s" "s \<le> 46340" "u \<le> s * s" using sqrt_loop_Some [of 2 46340 u] u by auto
  define n where "n = nat s"
  have n: "s = int n" "2 \<le> n" using s(2) by (simp_all add: n_def)
  obtain H where H: "createHeap mem u minsize = Some H" using s by (simp add: createHeap_def)
  have up: "[0..int n - 1] = map int [0..<n]" using n by (intro nth_equalityI) (simp_all add: nth_upto)
  have lt: "int i < int n - 1 \<longleftrightarrow> Suc i < n" for i by linarith
  have Hd: "h_freq H = map (\<lambda>i. \<lparr>n_id = mem, n_prev = mem, n_next = (if Suc i < n then int i + 1 else -1), n_fnode = mem\<rparr>) [0..<n]"
    "h_ff H = map (\<lambda>i. \<lparr>f_freq = mem, f_elems = mem, f_larger = (if Suc i < n then int i + 1 else -1), f_smaller = mem\<rparr>) [0..<n]"
    "h_freef H = 0" "h_freeff H = 0" "h_smallest H = -1" "h_largest H = -1" "h_sqrtu H = s" "h_max H = s"
    "h_infreq H = replicate n (createArray minsize)"
    using H s(1) n lt by (auto simp: createHeap_def up)
  have fl: "first_link [0..<n] = 0" using n(2) by (simp add: upt_conv_Cons)
  have "high_ok H [] [] [0..<n] [0..<n]"
    unfolding high_ok_def by (auto simp: Hd fl next_link_upt)
  then have "shape H [] [0..<n] [0..<n]" using n ms by (simp add: shape_def cells_well_def Hd)
  moreover have "stored H [] recs Map.empty"
    by (auto simp: stored_def low_slots_def high_slots_def Hd)
  ultimately have "heap_ok H recs Map.empty" using s(2) unfolding heap_ok_def by (auto simp: Hd)
  then show ?thesis using H s(4) by (auto simp: Hd)
qed

subsection \<open>The heap as a priority queue\<close>

text \<open>
  The specification: a queue is a map from identifiers to frequencies.  A pair enters with
  frequency 1, its frequency is raised and lowered by 1, and a pair of maximal frequency is taken.
  The third argument is what the operation reports: whether the pair is still in the queue after
  lowering its frequency, and the pair that is taken, -1 if there is none.
\<close>

datatype queue_op = Enter nat | Raise nat | Lower nat | Take

inductive queue_step :: "(nat \<rightharpoonup> int) \<Rightarrow> queue_op \<Rightarrow> int \<Rightarrow> (nat \<rightharpoonup> int) \<Rightarrow> bool" where
  enter: "q x = None \<Longrightarrow> queue_step q (Enter x) 0 (q(x \<mapsto> 1))"
| raise: "q x = Some f \<Longrightarrow> queue_step q (Raise x) 0 (q(x \<mapsto> f + 1))"
| lower: "q x = Some f \<Longrightarrow> 1 < f \<Longrightarrow> queue_step q (Lower x) 1 (q(x \<mapsto> f - 1))"
| drop: "q x = Some 1 \<Longrightarrow> queue_step q (Lower x) 0 (q(x := None))"
| take: "q x = Some f \<Longrightarrow> (\<And>y g. q y = Some g \<Longrightarrow> g \<le> f) \<Longrightarrow> queue_step q Take (int x) (q(x := None))"
| none: "queue_step Map.empty Take (-1) Map.empty"

inductive_cases queue_takeE: "queue_step q Take r q'"

text \<open>The call of the heap for an operation, with what it reports.\<close>

fun heap_do :: "queue_op \<Rightarrow> theap \<times> trecord list \<Rightarrow> (int \<times> theap \<times> trecord list) option" where
  "heap_do (Enter x) (H, recs) = do { s \<leftarrow> insertHeap H recs (int x); Some (0, s) }"
| "heap_do (Raise x) (H, recs) = do { s \<leftarrow> incFreq H recs (int x); Some (0, s) }"
| "heap_do (Lower x) (H, recs) = do { (H', recs', b) \<leftarrow> dec_heap H recs (int x); Some (if b then 1 else 0, H', recs') }"
| "heap_do Take (H, recs) = do { (H', r) \<leftarrow> extractMax H; Some (r, H', recs) }"

text \<open>
  When an operation is allowed: the pair is new or present, there is room, and a frequency does not
  rise above \<open>max\<close> once \<open>max\<close> has come below \<open>sqrtu\<close>.
\<close>

fun allowed :: "theap \<Rightarrow> trecord list \<Rightarrow> (nat \<rightharpoonup> int) \<Rightarrow> queue_op \<Rightarrow> bool" where
  "allowed H recs q (Enter x) \<longleftrightarrow> q x = None \<and> x < length recs \<and> weight q < room H \<and> 1 \<le> h_max H"
| "allowed H recs q (Raise x) \<longleftrightarrow> (\<exists>f. q x = Some f \<and> weight q < room H \<and> (f < h_max H \<or> h_max H = h_sqrtu H))"
| "allowed H recs q (Lower x) \<longleftrightarrow> q x \<noteq> None \<and> weight q \<le> room H"
| "allowed H recs q Take \<longleftrightarrow> True"

text \<open>
  Property C39. The heap of \<open>heap.cc\<close> implements a priority queue.  \<open>heap_ok\<close> relates the arrays, the linked lists and
  the records to a map from identifiers to frequencies.  Every operation that the map allows is
  defined on the heap, so no access leaves an array and no link is wrong; it reports what the specification
  reports, and leads to a heap related to the new map.  In particular \<open>extractMax\<close> returns a pair of
  maximal frequency, and -1 exactly for the empty queue.
\<close>

theorem heap_refines_queue:
  assumes "heap_ok H recs q" "allowed H recs q op"
  shows "\<exists>r H' recs' q'. heap_do op (H, recs) = Some (r, H', recs') \<and> queue_step q op r q' \<and> heap_ok H' recs' q'"
proof (cases op)
  case (Enter x)
  then show ?thesis using insertHeap_ok [OF assms(1), of x] assms(2) queue_step.enter [of q x] by fastforce
next
  case (Raise x)
  then obtain f where f: "q x = Some f" "weight q < room H" "f < h_max H \<or> h_max H = h_sqrtu H" using assms(2) by auto
  then show ?thesis using incFreq_ok [OF assms(1) f] queue_step.raise [of q x f] Raise by fastforce
next
  case (Lower x)
  then obtain f where f: "q x = Some f" "weight q \<le> room H" using assms(2) by auto
  have "queue_step q (Lower x) (if 1 < f then 1 else 0) (Heap_Queue.lower q x f)"
    using queue_step.lower [of q x f] queue_step.drop [of q x] f(1) heap_okD(6) [OF assms(1) f(1)]
    by (cases "f = 1") (auto simp: lower_def)
  then show ?thesis using dec_heap_ok [OF assms(1) f] Lower by fastforce
next
  case Take
  obtain H' r where H': "extractMax H = Some (H', r)"
    "if q = Map.empty then r = -1 \<and> heap_ok H' recs q
     else \<exists>x f. r = int x \<and> q x = Some f \<and> (\<forall>y g. q y = Some g \<longrightarrow> g \<le> f) \<and> heap_ok H' recs (q(x := None)) \<and>
       (f \<le> h_max H' \<or> h_max H' = h_sqrtu H')"
    using extractMax_ok [OF assms(1)] by blast
  show ?thesis
  proof (cases "q = Map.empty")
    case True
    then show ?thesis using H' Take queue_step.none by auto
  next
    case False
    then obtain x f where x: "r = int x" "q x = Some f" "\<And>y g. q y = Some g \<Longrightarrow> g \<le> f" "heap_ok H' recs (q(x := None))"
      using H'(2) by auto
    then show ?thesis using H'(1) Take queue_step.take [of q x f] by auto
  qed
qed

text \<open>A heap with two pairs, of frequencies 1 and 2.\<close>

lemma two_pairs: "\<exists>H recs. heap_ok H recs [0 \<mapsto> 1, 1 \<mapsto> 2]"
proof -
  define recs where "recs = replicate 2 \<lparr>rec_pair = \<lparr>left = 0, right = 0\<rparr>, rec_freq = 0, rec_cpos = 0, rec_hpos = 0, rec_kpos = 0\<rparr>"
  obtain H where H: "heap_ok H recs Map.empty" "h_max H = h_sqrtu H" "9 \<le> h_sqrtu H * h_sqrtu H"
    using createHeap_ok [of 9 4 0 recs] by auto
  have w: "weight Map.empty = 0" "weight [0 \<mapsto> 1] = 1" "weight [0 \<mapsto> 1, 1 \<mapsto> 1] = 2" by (simp_all add: weight_def)
  have room: "9 \<le> room H" using H(3) by (simp add: room_def)
  obtain H1 recs1 where H1: "heap_ok H1 recs1 [0 \<mapsto> 1]" "h_max H1 = h_sqrtu H1" "h_sqrtu H1 = h_sqrtu H" "length recs1 = 2"
  proof -
    have "1 \<le> h_max H" using heap_okD(8) [OF H(1)] H(2) by simp
    then obtain H1 recs1 where "heap_ok H1 recs1 [0 \<mapsto> 1]" "h_max H1 = h_max H" "h_sqrtu H1 = h_sqrtu H"
      "but_hpos recs1 = but_hpos (recs[0 := (recs ! 0)\<lparr>rec_freq := 1\<rparr>])"
      using insertHeap_ok [OF H(1), of 0] room w by (auto simp: recs_def)
    then show thesis using that H(2) but_hpos_length [of recs1] by (fastforce simp: recs_def)
  qed
  obtain H2 recs2 where H2: "heap_ok H2 recs2 [0 \<mapsto> 1, 1 \<mapsto> 1]" "h_max H2 = h_sqrtu H2" "h_sqrtu H2 = h_sqrtu H"
    using insertHeap_ok [OF H1(1), of 1] room w H1(2-4) heap_okD(8) [OF H1(1)] by (auto simp: room_def)
  then have "\<exists>H3 recs3. heap_ok H3 recs3 ([0 \<mapsto> 1, 1 \<mapsto> 1](1 \<mapsto> 1 + 1))"
    using incFreq_ok [OF H2(1), of 1 1] room w by (fastforce simp: room_def)
  then show ?thesis by simp
qed

theorem heap_refines_queue_witness:
  "\<exists>H recs r H' recs' q'. heap_ok H recs [0 \<mapsto> 1, 1 \<mapsto> 2] \<and> allowed H recs [0 \<mapsto> 1, 1 \<mapsto> 2] Take \<and>
    heap_do Take (H, recs) = Some (r, H', recs') \<and> queue_step [0 \<mapsto> 1, 1 \<mapsto> 2] Take r q' \<and> heap_ok H' recs' q'"
proof -
  obtain H recs where H: "heap_ok H recs [0 \<mapsto> 1, 1 \<mapsto> 2]" using two_pairs by blast
  have "allowed H recs [0 \<mapsto> 1, 1 \<mapsto> 2] Take" by simp
  then show ?thesis using heap_refines_queue [OF H, of Take] H by blast
qed

text \<open>
  What a client gets from the operation \<open>take_max\<close> of a queue: the pairs come out by decreasing frequency.
\<close>

primrec drain :: "('s \<Rightarrow> ('s \<times> int) option) \<Rightarrow> nat \<Rightarrow> 's \<Rightarrow> (int list \<times> 's) option" where
  "drain take_max 0 s = Some ([], s)"
| "drain take_max (Suc n) s = do { (s', r) \<leftarrow> take_max s; (rs, s'') \<leftarrow> drain take_max n s'; Some (r # rs, s'') }"

locale max_queue =
  fixes ok :: "'s \<Rightarrow> (nat \<rightharpoonup> int) \<Rightarrow> bool"
    and take_max :: "'s \<Rightarrow> ('s \<times> int) option"
  assumes finite_queue: "ok s q \<Longrightarrow> finite (dom q)"
    and take_max: "ok s q \<Longrightarrow> \<exists>s' r. take_max s = Some (s', r) \<and> (if q = Map.empty then r = -1 \<and> ok s' q
      else \<exists>x f. r = int x \<and> q x = Some f \<and> (\<forall>y g. q y = Some g \<longrightarrow> g \<le> f) \<and> ok s' (q(x := None)))"
begin

lemma drain_sorted:
  assumes "ok s q" "card (dom q) = n"
  shows "\<exists>xs s'. drain take_max n s = Some (map int xs, s') \<and> ok s' Map.empty \<and> distinct xs \<and> set xs = dom q \<and>
    sorted_wrt (\<lambda>x y. the (q y) \<le> the (q x)) xs"
  using assms
proof (induction n arbitrary: s q)
  case 0
  then have "dom q = {}" using finite_queue by auto
  then show ?case using 0 by auto
next
  case (Suc n)
  then have "q \<noteq> Map.empty" by auto
  then obtain s1 x f where x: "take_max s = Some (s1, int x)" "q x = Some f" "\<And>y g. q y = Some g \<Longrightarrow> g \<le> f" "ok s1 (q(x := None))"
    using take_max [OF Suc.prems(1)] by auto
  have cd: "card (dom (q(x := None))) = n" using Suc.prems finite_queue x(2) by (simp add: card_Diff_singleton domI)
  have "dom (q(x := None)) = dom q - {x}" by auto
  then obtain xs s' where xs: "drain take_max n s1 = Some (map int xs, s')" "ok s' Map.empty" "distinct xs" "set xs = dom q - {x}"
    "sorted_wrt (\<lambda>u v. the ((q(x := None)) v) \<le> the ((q(x := None)) u)) xs"
    using Suc.IH [OF x(4) cd] by metis
  have "sorted_wrt (\<lambda>u v. the (q v) \<le> the (q u)) xs"
    by (rule sorted_wrt_mono_rel [OF _ xs(5)]) (use xs(4) in auto)
  then have "sorted_wrt (\<lambda>u v. the (q v) \<le> the (q u)) (x # xs)" using xs(4) x(2,3) by auto
  moreover have "distinct (x # xs)" "set (x # xs) = dom q" using xs(3,4) x(2) by auto
  ultimately show ?case using x(1) xs(1,2) by (intro exI [of _ "x # xs"] exI [of _ s']) simp
qed

end

interpretation heap: max_queue "\<lambda>H q. heap_ok H recs q" extractMax for recs
proof unfold_locales
  fix H q assume ok: "heap_ok H recs q"
  show "finite (dom q)" by (rule heap_okD(7) [OF ok])
  show "\<exists>H' r. extractMax H = Some (H', r) \<and> (if q = Map.empty then r = -1 \<and> heap_ok H' recs q
      else \<exists>x f. r = int x \<and> q x = Some f \<and> (\<forall>y g. q y = Some g \<longrightarrow> g \<le> f) \<and> heap_ok H' recs (q(x := None)))"
    using extractMax_ok [OF ok] by (auto split: if_splits)
qed

text \<open>
  Property C40. Repeated calls of \<open>extractMax\<close> empty the heap in the order of the frequencies: as many
  calls as there are pairs in the queue return every pair exactly once, none before a more frequent one, and
  leave a heap for the empty queue.
\<close>

theorem extractMax_order:
  assumes "heap_ok H recs q"
  shows "\<exists>xs H'. drain extractMax (card (dom q)) H = Some (map int xs, H') \<and> heap_ok H' recs Map.empty \<and>
    distinct xs \<and> set xs = dom q \<and> sorted_wrt (\<lambda>x y. the (q y) \<le> the (q x)) xs"
  by (rule heap.drain_sorted [OF assms refl])

theorem extractMax_order_witness:
  "\<exists>H recs H'. heap_ok H recs [0 \<mapsto> 1, 1 \<mapsto> 2] \<and> drain extractMax 2 H = Some ([1, 0], H')"
proof -
  obtain H recs where H: "heap_ok H recs [0 \<mapsto> 1, 1 \<mapsto> 2]" using two_pairs by blast
  have d: "dom [(0 :: nat) \<mapsto> (1 :: int), 1 \<mapsto> 2] = {0, 1}" by auto
  have "card {0 :: nat, 1} = 2" by simp
  then obtain xs H' where xs: "drain extractMax 2 H = Some (map int xs, H')" "distinct xs" "set xs = {0, 1}"
    "sorted_wrt (\<lambda>x y. the ([0 \<mapsto> 1, 1 \<mapsto> 2] y) \<le> the ([0 \<mapsto> (1 :: int), 1 \<mapsto> 2] x)) xs"
    using extractMax_order [OF H] unfolding d by metis
  have "length xs = 2" using distinct_card [OF xs(2)] xs(3) by simp
  then obtain a b where ab: "xs = [a, b]" by (auto simp: numeral_2_eq_2 length_Suc_conv)
  have "xs = [1, 0]" using xs(2-4) by (auto simp: ab doubleton_eq_iff)
  then show ?thesis using xs(1) H by auto
qed

end
