(* ===== verification/Repair.thy ===== *)
theory Repair
  imports Pair_Heap Csr
begin

text \<open>
  The Re-Pair compressor: the records of the pairs (\<open>compress/records.h\<close>, \<open>compress/records.cc\<close>), the
  functions of the heap that remove records (\<open>decFreq\<close>, \<open>purgeHeap\<close>), and \<open>prepare\<close>, \<open>repair\<close> and
  \<open>compress_csr\<close> of \<open>compress.h\<close>.

  The structures that point to each other in the source (\<open>Rec\<close>, \<open>Hash\<close>, \<open>Heap\<close> and \<open>L\<close>) are the fields
  of one state \<open>rp\<close>; its field \<open>g_mem\<close> is the arbitrary content of fresh memory.  The other global
  variables and the arguments of \<open>repair\<close> make up \<open>rstate\<close>.
\<close>

subsection \<open>Records\<close>

record tlist =
  l_prev :: int
  l_next :: int

record trarray =
  r_records :: "trecord list"
  r_maxsize :: int
  r_size :: int
  r_minsize :: int

record rp =
  g_Rec :: trarray
  g_Hash :: thash
  g_Heap :: theap
  g_L :: "tlist list"
  g_mem :: int

abbreviation g_recs :: "rp \<Rightarrow> trecord list" where
  "g_recs S \<equiv> r_records (g_Rec S)"

definition NullFreq :: int where
  "NullFreq = - (2 ^ 31)"

definition set_recs :: "rp \<Rightarrow> trecord list \<Rightarrow> rp" where
  "set_recs S recs = S\<lparr>g_Rec := (g_Rec S)\<lparr>r_records := recs\<rparr>\<rparr>"

definition set_L :: "rp \<Rightarrow> int \<Rightarrow> (tlist \<Rightarrow> tlist) \<Rightarrow> rp option" where
  "set_L S i g = do { L \<leftarrow> upd_at (g_L S) i g; Some (S\<lparr>g_L := L\<rparr>) }"

definition set_cpos :: "rp \<Rightarrow> int \<Rightarrow> int \<Rightarrow> rp option" where
  "set_cpos S ix pos = do { recs \<leftarrow> upd_at (g_recs S) ix (rec_cpos_update (\<lambda>_. pos)); Some (set_recs S recs) }"

definition createRecords :: "int \<Rightarrow> trarray" where
  "createRecords minsize = \<lparr>r_records = [], r_maxsize = 0, r_size = 0, r_minsize = minsize\<rparr>"

definition destroyRecords :: "trarray \<Rightarrow> trarray" where
  "destroyRecords R = (if r_maxsize R = 0 then R else R\<lparr>r_records := [], r_maxsize := 0, r_size := 0\<rparr>)"

definition grow_records :: "trarray \<Rightarrow> trarray option" where
  "grow_records R =
    (if r_size R = r_maxsize R then
       if r_maxsize R = 0 then Some (R\<lparr>r_maxsize := r_minsize R, r_records := []\<rparr>)
       else do { m \<leftarrow> grow (r_maxsize R); Some (R\<lparr>r_maxsize := m\<rparr>) }
     else Some R)"

text \<open>\<open>records[ix].pair = pair\<close>; in a cell not written before the other fields hold \<open>mem\<close>.\<close>

definition put_pair :: "int \<Rightarrow> trarray \<Rightarrow> int \<Rightarrow> tpair \<Rightarrow> trecord list option" where
  "put_pair mem R ix pair =
    (if 0 \<le> ix \<and> ix < int (length (r_records R)) then upd_at (r_records R) ix (rec_pair_update (\<lambda>_. pair))
     else write_cell (r_maxsize R) (r_records R) ix
       \<lparr>rec_pair = pair, rec_freq = mem, rec_cpos = mem, rec_hpos = mem, rec_kpos = mem\<rparr>)"

definition insertRecord :: "rp \<Rightarrow> tpair \<Rightarrow> (rp \<times> int) option" where
  "insertRecord S pair = do {
     R \<leftarrow> grow_records (g_Rec S);
     let ix = r_size R;
     recs1 \<leftarrow> put_pair (g_mem S) R ix pair;
     (Ha, recs2) \<leftarrow> insertHash (g_Hash S) recs1 ix;
     (He, recs3) \<leftarrow> insertHeap (g_Heap S) recs2 ix;
     Some (S\<lparr>g_Rec := R\<lparr>r_records := recs3, r_size := ix + 1\<rparr>, g_Hash := Ha, g_Heap := He\<rparr>, ix)
   }"

definition deleteRecord :: "trarray \<Rightarrow> trarray" where
  "deleteRecord R =
    (let R1 = R\<lparr>r_size := r_size R - 1\<rparr>; m = f32 (r_maxsize R1) in
     if r_size R1 = 0 then R1\<lparr>r_maxsize := 0, r_records := []\<rparr>
     else if 4 * f32 (r_size R1) < m \<and> 2 * f32 (r_minsize R1) \<le> f32 (r_size R1)
     then R1\<lparr>r_maxsize := m div 2, r_records := take (nat (m div 2)) (r_records R1)\<rparr>
     else R1)"

definition removeRecord :: "rp \<Rightarrow> int \<Rightarrow> rp option" where
  "removeRecord S ix = do {
     Ha \<leftarrow> deleteHash (g_Hash S) (g_recs S) ix;
     r \<leftarrow> vec_at (g_recs S) ix;
     S1 \<leftarrow> (if rec_cpos r \<noteq> -1 then do {
              l \<leftarrow> vec_at (g_L S) (rec_cpos r);
              if l_prev l = - ix - 1 then set_L S (rec_cpos r) (l_prev_update (\<lambda>_. NullFreq)) else Some S
            } else Some S);
     let S2 = S1\<lparr>g_Hash := Ha\<rparr>;
     let size = r_size (g_Rec S2);
     S3 \<leftarrow> (if ix \<noteq> size - 1 then do {
              last \<leftarrow> vec_at (g_recs S2) (size - 1);
              recs \<leftarrow> vec_set (g_recs S2) ix last;
              Ha' \<leftarrow> hashRepos (g_Hash S2) recs ix;
              He \<leftarrow> heapRepos (g_Heap S2) recs ix;
              let S4 = (set_recs S2 recs)\<lparr>g_Hash := Ha', g_Heap := He\<rparr>;
              if rec_cpos last \<noteq> -1 then set_L S4 (rec_cpos last) (l_prev_update (\<lambda>_. - ix - 1)) else Some S4
            } else Some S2);
     Some (S3\<lparr>g_Rec := deleteRecord (g_Rec S3)\<rparr>)
   }"

subsection \<open>Heap operations on the whole state\<close>

definition inc_freq :: "rp \<Rightarrow> int \<Rightarrow> rp option" where
  "inc_freq S ix = do {
     (He, recs) \<leftarrow> incFreq (g_Heap S) (g_recs S) ix;
     Some ((set_recs S recs)\<lparr>g_Heap := He\<rparr>)
   }"

definition decFreq :: "rp \<Rightarrow> int \<Rightarrow> rp option" where
  "decFreq S ix = do {
     (He, recs, more) \<leftarrow> dec_heap (g_Heap S) (g_recs S) ix;
     let S1 = (set_recs S recs)\<lparr>g_Heap := He\<rparr>;
     if more then Some S1 else removeRecord S1 ix
   }"

definition purgeHeap :: "rp \<Rightarrow> rp option" where
  "purgeHeap S = do {
     A \<leftarrow> infreq_at (g_Heap S) 1;
     S1 \<leftarrow> for_range 0 (a_size A) (\<lambda>i S. do {
       A \<leftarrow> infreq_at (g_Heap S) 1;
       ix \<leftarrow> vec_at (a_pairs A) i;
       removeRecord S ix
     }) S;
     A1 \<leftarrow> infreq_at (g_Heap S1) 1;
     He \<leftarrow> infreq_set (g_Heap S1) 1 (destroyArray A1);
     Some (S1\<lparr>g_Heap := He\<rparr>)
   }"

subsection \<open>Building the structures for a text\<close>

record rstate =
  s_rp :: rp
  s_u :: int
  s_c :: int
  s_n :: int
  s_inter :: "int list"
  s_rule :: "tpair list"

text \<open>
  The occurrence at \<open>pos\<close> of the pair with record \<open>ix\<close> becomes the first of its list: \<open>fresh\<close> says that
  the record is new.
\<close>

definition link_occ :: "rp \<Rightarrow> int \<Rightarrow> int \<Rightarrow> bool \<Rightarrow> rp option" where
  "link_occ S pos ix fresh = do {
     S1 \<leftarrow> (if fresh then set_L S pos (l_next_update (\<lambda>_. -1))
            else do {
              r \<leftarrow> vec_at (g_recs S) ix;
              S1 \<leftarrow> set_L S pos (l_next_update (\<lambda>_. rec_cpos r));
              set_L S1 (rec_cpos r) (l_prev_update (\<lambda>_. pos))
            });
     S2 \<leftarrow> set_L S1 pos (l_prev_update (\<lambda>_. - ix - 1));
     set_cpos S2 ix pos
   }"

definition prepare_step :: "int list \<Rightarrow> int \<Rightarrow> rp \<Rightarrow> rp option" where
  "prepare_step ctext i S = do {
     a \<leftarrow> vec_at ctext i;
     b \<leftarrow> vec_at ctext (i + 1);
     let pair = \<lparr>left = a, right = b\<rparr>;
     ix \<leftarrow> searchHash (g_Hash S) (g_recs S) pair;
     if ix = -1 then do {
       (S1, ix) \<leftarrow> insertRecord S pair;
       link_occ S1 i ix True
     } else do {
       r \<leftarrow> vec_at (g_recs S) ix;
       S1 \<leftarrow> set_L S i (l_next_update (\<lambda>_. rec_cpos r));
       S2 \<leftarrow> set_L S1 (rec_cpos r) (l_prev_update (\<lambda>_. i));
       S3 \<leftarrow> inc_freq S2 ix;
       S4 \<leftarrow> set_L S3 i (l_prev_update (\<lambda>_. - ix - 1));
       set_cpos S4 ix i
     }
   }"

text \<open>\<open>hsize\<close> and \<open>minsize\<close> are the constants 65536 and 256 of the source.\<close>

definition prepare_with :: "int \<Rightarrow> int \<Rightarrow> int \<Rightarrow> int \<Rightarrow> int list \<Rightarrow> rstate option" where
  "prepare_with hsize minsize mem alph ctext = do {
     let u = int (length ctext);
     He \<leftarrow> createHeap mem u minsize;
     Ha \<leftarrow> createHash hsize;
     let S = \<lparr>g_Rec = createRecords minsize, g_Hash = Ha, g_Heap = He,
              g_L = replicate (nat u) \<lparr>l_prev = mem, l_next = mem\<rparr>, g_mem = mem\<rparr>;
     S1 \<leftarrow> for_range 0 (u - 1) (prepare_step ctext) S;
     S2 \<leftarrow> purgeHeap S1;
     Some \<lparr>s_rp = S2, s_u = u, s_c = u, s_n = alph, s_inter = ctext, s_rule = []\<rparr>
   }"

definition prepare :: "int \<Rightarrow> int \<Rightarrow> int list \<Rightarrow> rstate option" where
  "prepare = prepare_with (256 * 256) 256"

subsection \<open>Replacing pairs\<close>

text \<open>
  The position that the negative symbol of a hole points to, or \<open>pos\<close> itself.
\<close>

definition skip_hole :: "int list \<Rightarrow> int \<Rightarrow> int option" where
  "skip_hole ctext pos = do { x \<leftarrow> vec_at ctext pos; Some (if x < 0 then - x - 1 else pos) }"

text \<open>Remove the occurrence at \<open>pos\<close> of \<open>pair\<close>, unless its record is gone.\<close>

definition remove_occ :: "rp \<Rightarrow> int \<Rightarrow> int \<Rightarrow> tpair \<Rightarrow> rp option" where
  "remove_occ S oid pos pair = do {
     ix \<leftarrow> searchHash (g_Hash S) (g_recs S) pair;
     if ix \<noteq> -1 then do {
       S1 \<leftarrow> (if ix \<noteq> oid then decFreq S ix else Some S);
       l \<leftarrow> vec_at (g_L S1) pos;
       if l_prev l \<noteq> NullFreq then do {
         S2 \<leftarrow> (if l_prev l < 0 then set_cpos S1 ix (l_next l)
                else set_L S1 (l_prev l) (l_next_update (\<lambda>_. l_next l)));
         if l_next l \<noteq> -1 then set_L S2 (l_next l) (l_prev_update (\<lambda>_. l_prev l)) else Some S2
       } else Some S1
     } else Some S
   }"

text \<open>Create an occurrence of \<open>pair\<close> at \<open>pos\<close>.\<close>

definition create_occ :: "rp \<Rightarrow> int \<Rightarrow> tpair \<Rightarrow> rp option" where
  "create_occ S pos pair = do {
     ix \<leftarrow> searchHash (g_Hash S) (g_recs S) pair;
     if ix = -1 then do { (S1, ix) \<leftarrow> insertRecord S pair; link_occ S1 pos ix True }
     else do { S1 \<leftarrow> inc_freq S ix; link_occ S1 pos ix False }
   }"

definition find_ant :: "int list \<Rightarrow> int \<Rightarrow> int option" where
  "find_ant ctext cpos = do {
     x \<leftarrow> vec_at ctext (cpos - 1);
     Some (if x < 0 then let ant = - x - 1 in if ant = cpos then cpos - 2 else ant else cpos - 1)
   }"

text \<open>One iteration of the inner loop of \<open>repair\<close>: the occurrence at \<open>cpos\<close> of the pair of \<open>oid\<close> becomes symbol \<open>n\<close>.\<close>

definition replace_at :: "int \<Rightarrow> rstate \<Rightarrow> int \<Rightarrow> rstate option" where
  "replace_at oid T cpos = do {
     let ctext = s_inter T;
     let u = s_u T;
     let n = s_n T;
     sgte \<leftarrow> skip_hole ctext (cpos + 1);
     ssgte \<leftarrow> (if sgte + 1 < u then skip_hole ctext (sgte + 1) else Some (sgte + 1));
     l \<leftarrow> vec_at (g_L (s_rp T)) cpos;
     S1 \<leftarrow> (if l_next l \<noteq> -1 then set_L (s_rp T) (l_next l) (l_prev_update (\<lambda>_. - oid - 1)) else Some (s_rp T));
     l \<leftarrow> vec_at (g_L S1) cpos;
     S2 \<leftarrow> set_cpos S1 oid (l_next l);
     S3 \<leftarrow> (if ssgte \<noteq> u then do {
              a \<leftarrow> vec_at ctext sgte;
              b \<leftarrow> vec_at ctext ssgte;
              S \<leftarrow> remove_occ S2 oid sgte \<lparr>left = a, right = b\<rparr>;
              create_occ S cpos \<lparr>left = n, right = b\<rparr>
            } else Some S2);
     S4 \<leftarrow> (if cpos \<noteq> 0 then do {
              ant \<leftarrow> find_ant ctext cpos;
              a \<leftarrow> vec_at ctext ant;
              b \<leftarrow> vec_at ctext cpos;
              S \<leftarrow> remove_occ S3 oid ant \<lparr>left = a, right = b\<rparr>;
              create_occ S ant \<lparr>left = a, right = n\<rparr>
            } else Some S3);
     ctext1 \<leftarrow> vec_set ctext cpos n;
     ctext2 \<leftarrow> (if ssgte \<noteq> u then vec_set ctext1 (ssgte - 1) (- cpos - 1) else Some ctext1);
     ctext3 \<leftarrow> vec_set ctext2 (cpos + 1) (- ssgte - 1);
     Some (T\<lparr>s_rp := S4, s_inter := ctext3, s_c := s_c T - 1\<rparr>)
   }"

partial_function (option) replace_all :: "int \<Rightarrow> rstate \<Rightarrow> int \<Rightarrow> rstate option" where
  "replace_all oid T cpos =
    (if cpos \<noteq> -1 then do {
       T1 \<leftarrow> replace_at oid T cpos;
       orec \<leftarrow> vec_at (g_recs (s_rp T1)) oid;
       replace_all oid T1 (rec_cpos orec)
     } else Some T)"

declare replace_all.simps [code]

subsection \<open>Compacting the text\<close>

definition compact_step :: "int \<Rightarrow> rstate \<times> int \<Rightarrow> (rstate \<times> int) option" where
  "compact_step ni = (\<lambda>(T, i). do {
     x \<leftarrow> vec_at (s_inter T) i;
     ctext \<leftarrow> vec_set (s_inter T) ni x;
     l \<leftarrow> vec_at (g_L (s_rp T)) i;
     S1 \<leftarrow> set_L (s_rp T) ni (\<lambda>_. l);
     S2 \<leftarrow> (if l_prev l < 0 then
              if l_prev l \<noteq> NullFreq then set_cpos S1 (- l_prev l - 1) ni else Some S1
            else set_L S1 (l_prev l) (l_next_update (\<lambda>_. ni)));
     l2 \<leftarrow> vec_at (g_L S2) ni;
     S3 \<leftarrow> (if l_next l2 \<noteq> -1 then set_L S2 (l_next l2) (l_prev_update (\<lambda>_. ni)) else Some S2);
     i' \<leftarrow> skip_hole ctext (i + 1);
     Some (T\<lparr>s_inter := ctext, s_rp := S3\<rparr>, i')
   })"

definition compact :: "rstate \<Rightarrow> rstate option" where
  "compact T = do {
     let c = s_c T;
     (T1, i) \<leftarrow> for_range 0 (c - 1) compact_step (T, 0);
     x \<leftarrow> vec_at (s_inter T1) i;
     ctext \<leftarrow> vec_set (s_inter T1) (max 0 (c - 1)) x;
     Some (T1\<lparr>s_inter := take (nat c) ctext, s_u := c, s_rp := (s_rp T1)\<lparr>g_L := take (nat c) (g_L (s_rp T1))\<rparr>\<rparr>)
   }"

text \<open>One iteration of the outer loop; the flag says that the loop goes on, that is, that the heap was not empty.\<close>

definition repair_step :: "rstate \<Rightarrow> (rstate \<times> bool) option" where
  "repair_step T = do {
     (He, oid) \<leftarrow> extractMax (g_Heap (s_rp T));
     let T0 = T\<lparr>s_rp := (s_rp T)\<lparr>g_Heap := He\<rparr>\<rparr>;
     if oid = -1 then Some (T0, False)
     else do {
       orec \<leftarrow> vec_at (g_recs (s_rp T0)) oid;
       T1 \<leftarrow> replace_all oid (T0\<lparr>s_rule := s_rule T0 @ [rec_pair orec]\<rparr>) (rec_cpos orec);
       S \<leftarrow> removeRecord (s_rp T1) oid;
       n \<leftarrow> i32_arith (s_n T1 + 1);
       S' \<leftarrow> purgeHeap S;
       let T2 = T1\<lparr>s_rp := S', s_n := n\<rparr>;
       if 2 * f32 (s_c T2) < f32 (s_u T2) then do { T3 \<leftarrow> compact T2; Some (T3, True) } else Some (T2, True)
     }
   }"

partial_function (option) repair :: "rstate \<Rightarrow> rstate option" where
  "repair T = do {
     n1 \<leftarrow> i32_arith (s_n T + 1);
     if 0 < n1 then do {
       (T', more) \<leftarrow> repair_step T;
       if more then repair T' else Some T'
     } else Some T
   }"

declare repair.simps [code]

subsection \<open>Compressing a graph\<close>

definition convert :: "int \<Rightarrow> int \<Rightarrow> int" where
  "convert ID vertex_cnt = (if vertex_cnt < ID then ID - vertex_cnt else ID)"

record csr_out =
  o_vlist :: "int list"
  o_elist :: "int list"
  o_size :: int

definition emit_symbol :: "int \<Rightarrow> int \<Rightarrow> int \<Rightarrow> csr_out \<Rightarrow> csr_out" where
  "emit_symbol max_symbol alph x W =
    (if x < max_symbol then W\<lparr>o_elist := o_elist W @ [x], o_size := o_size W + 1\<rparr>
     else if x < alph then W\<lparr>o_vlist := o_vlist W @ [o_size W]\<rparr>
     else W\<lparr>o_elist := o_elist W @ [x - max_symbol], o_size := o_size W + 1\<rparr>)"

partial_function (option) read_text :: "int \<Rightarrow> int \<Rightarrow> int list \<Rightarrow> int \<Rightarrow> int \<Rightarrow> csr_out \<Rightarrow> csr_out option" where
  "read_text max_symbol alph ctext u i W =
    (if i < u then do {
       x \<leftarrow> vec_at ctext i;
       let W' = emit_symbol max_symbol alph x W;
       i' \<leftarrow> (if i + 1 < u then skip_hole ctext (i + 1) else Some (i + 1));
       read_text max_symbol alph ctext u i' W'
     } else Some W)"

declare read_text.simps [code]

definition emit_rule :: "int \<Rightarrow> tpair \<Rightarrow> csr_out \<Rightarrow> csr_out" where
  "emit_rule max_symbol p W =
    W\<lparr>o_elist := o_elist W @ [convert (left p) max_symbol, convert (right p) max_symbol],
      o_size := o_size W + 2, o_vlist := o_vlist W @ [o_size W + 2]\<rparr>"

definition compress_csr :: "int \<Rightarrow> int list \<Rightarrow> int list \<Rightarrow> int \<Rightarrow> (int list \<times> int list \<times> int \<times> int) option" where
  "compress_csr mem vlist elist max_symbol = do {
     ctext \<leftarrow> insert_spliter vlist elist [] max_symbol;
     alph \<leftarrow> i32_arith (max_symbol * 2);
     T \<leftarrow> prepare mem alph ctext;
     T' \<leftarrow> repair T;
     W \<leftarrow> read_text max_symbol alph (s_inter T') (s_u T') 0 \<lparr>o_vlist = [0], o_elist = [], o_size = 0\<rparr>;
     let W' = fold (emit_rule max_symbol) (s_rule T') W;
     Some (o_vlist W', o_elist W', int (length vlist) - 1, int (length (o_vlist W')) - int (length vlist))
   }"

end
