(* ===== verification/Parallel_Repair.thy ===== *)
theory Parallel_Repair
  imports Csr "HOL-Library.AList"
begin

text \<open>
  The parallel compressor (\<open>Laconic_parallel/core/hash.h\<close>, \<open>core/compress.h\<close>, \<open>src/compress.cc\<close>).  In
  each turn the pairs of adjacent symbols of all rows are distributed over \<open>thread_num\<close> tables by
  their first symbol and counted; every pair that occurs often enough becomes a rule, and a scan
  from left to right replaces the pairs of the rows.

  A \<open>flat_hash_map\<close> is an association list with distinct keys.  Its order of iteration is not
  specified: where the code iterates, it is the argument \<open>order\<close>, of which the theorems only
  assume that it permutes the entries.  The threads of a phase work on tables and sequences of
  their own, so that the phases are the sequence of the calls.  Symbols are \<open>uint32_t\<close> in the graph
  and \<open>int\<close> in the sequences of the threads; the conversions are written out.
\<close>

unbundle bit_operations_syntax

subsection \<open>Pairs as keys\<close>

definition pair_hash :: "int \<Rightarrow> int \<Rightarrow> int" where
  "pair_hash a b = to_u64 (to_u64 a * 2 ^ 32) OR to_u64 b"

type_synonym HashMap = "(int \<times> int) list"

subsection \<open>The processor\<close>

definition count_pair :: "int \<Rightarrow> HashMap \<Rightarrow> HashMap" where
  "count_pair pair table =
    (case map_of table pair of
       Some c \<Rightarrow> AList.update pair (to_u64 (c + 1)) table
     | None \<Rightarrow> table @ [(pair, 1)])"

definition processpairs :: "int \<Rightarrow> int list \<Rightarrow> HashMap \<Rightarrow> HashMap" where
  "processpairs threshold pairs table =
     filter (\<lambda>(k, c). \<not> c < threshold) (fold count_pair pairs table)"

record id_state =
  i_next :: int
  i_convert :: HashMap
  i_edge :: "int list"
  i_vertex :: "int list"
  i_offset :: int

definition new_id_step :: "int \<times> int \<Rightarrow> id_state \<Rightarrow> id_state" where
  "new_id_step e I =
    (let key = fst e in
     I\<lparr>i_convert := (if map_of (i_convert I) key = None then i_convert I @ [(key, i_next I)] else i_convert I),
       i_next := to_u64 (i_next I + 1),
       i_vertex := i_vertex I @ [to_u32 (i_offset I)],
       i_offset := to_u64 (i_offset I + 2),
       i_edge := i_edge I @ [to_u32 (to_i32 (key div 2 ^ 32)), to_u32 (to_i32 key)]\<rparr>)"

definition prepare_new_id ::
  "(HashMap \<Rightarrow> HashMap) \<Rightarrow> HashMap \<Rightarrow> int \<Rightarrow> HashMap \<Rightarrow> int list \<Rightarrow> int list \<Rightarrow> id_state" where
  "prepare_new_id order table start_id cvt temp_role_edge temp_role_vertex =
     fold new_id_step (order table)
       \<lparr>i_next = start_id, i_convert = cvt, i_edge = temp_role_edge, i_vertex = temp_role_vertex, i_offset = 0\<rparr>"

text \<open>
  The loop over \<open>idx\<close> of \<open>replace\<close>: two symbols that form a pair of the table become its new
  symbol.  The result holds the final \<open>idx\<close>, the new sequence and \<open>vsize\<close>.
\<close>

function replace_loop ::
  "HashMap list \<Rightarrow> HashMap list \<Rightarrow> int list \<Rightarrow> int \<Rightarrow> int \<Rightarrow> int list \<times> int \<Rightarrow> (int \<times> int list \<times> int) option" where
  "replace_loop tables convert_id es bound idx s =
    (if idx < bound then
       (case (vec_at es idx, vec_at es (idx + 1)) of
          (Some x, Some y) \<Rightarrow> do {
            let table_id = to_u64 x mod int (length tables);
            let h = pair_hash x y;
            table \<leftarrow> vec_at tables table_id;
            cvt \<leftarrow> vec_at convert_id table_id;
            (case map_of table h of
               Some c \<Rightarrow>
                 replace_loop tables convert_id es bound (idx + 2)
                   (fst s @ [to_i32 (case map_of cvt h of Some v \<Rightarrow> v | None \<Rightarrow> 0)], snd s + 1)
             | None \<Rightarrow> replace_loop tables convert_id es bound (idx + 1) (fst s @ [x], snd s + 1))
          }
        | _ \<Rightarrow> None)
     else Some (idx, s))"
  by pat_completeness auto
termination
  by (relation "measure (\<lambda>(tables, convert_id, es, bound, idx, s). nat (bound - idx))") auto

declare replace_loop.simps [simp del]

text \<open>The loop for one row and the symbol that is left over at its end.\<close>

definition replace_row ::
  "HashMap list \<Rightarrow> HashMap list \<Rightarrow> int list \<Rightarrow> int \<Rightarrow> int \<Rightarrow> int \<Rightarrow> int list \<times> int \<Rightarrow> (int list \<times> int) option" where
  "replace_row tables convert_id es bound start fin s = do {
     (idx, s') \<leftarrow> replace_loop tables convert_id es bound start s;
     if idx < fin then do { x \<leftarrow> vec_at es (fin - 1); Some (fst s' @ [x], snd s' + 1) } else Some s'
   }"

text \<open>
  The last row extends to the end of the sequence; its bound \<open>size() - 1\<close> is a \<open>size_t\<close>, which wraps
  around on an empty sequence.
\<close>

definition replace ::
  "HashMap list \<Rightarrow> HashMap list \<Rightarrow> int list \<Rightarrow> int list \<Rightarrow> (int list \<times> int list) option" where
  "replace tables convert_id es vs = do {
     offset \<leftarrow> vec_at vs 0;
     let vs' = map (\<lambda>v. v - offset) vs;
     (s, nv) \<leftarrow> for_range 0 (int (length vs') - 1) (\<lambda>vidx (s, nv). do {
       start \<leftarrow> vec_at vs' vidx;
       fin \<leftarrow> vec_at vs' (vidx + 1);
       s' \<leftarrow> replace_row tables convert_id es (fin - 1) start fin s;
       Some (s', nv @ [snd s])
     }) (([], 0), []);
     start \<leftarrow> vec_at vs' (int (length vs') - 1);
     s' \<leftarrow> replace_row tables convert_id es (to_u64 (int (length es) - 1)) start (int (length es)) s;
     Some (fst s', nv @ [snd s])
   }"

subsection \<open>A turn of the compressor\<close>

text \<open>
  The pairs of the rows, put into the bucket of their first symbol.  The bound of the inner loop
  is a \<open>uint32_t\<close>, which wraps around when the row ends at offset 0.
\<close>

definition collect_pairs :: "int list \<Rightarrow> int list \<Rightarrow> int list list \<Rightarrow> int list list option" where
  "collect_pairs input_edge input_vertex buckets =
     for_range 0 (int (length input_vertex) - 1) (\<lambda>idy buckets. do {
       start \<leftarrow> vec_at input_vertex idy;
       fin \<leftarrow> vec_at input_vertex (idy + 1);
       for_range start (to_u32 (fin - 1)) (\<lambda>idx buckets. do {
         x \<leftarrow> vec_at input_edge idx;
         y \<leftarrow> vec_at input_edge (idx + 1);
         push_at buckets (x mod int (length buckets)) (pair_hash x y)
       }) buckets
     }) buckets"

text \<open>The part \<open>[a, b)\<close> of a vector, given by two iterators.\<close>

definition subvec :: "int list \<Rightarrow> int \<Rightarrow> int \<Rightarrow> int list option" where
  "subvec xs a b = (if 0 \<le> a \<and> a \<le> b \<and> b \<le> int (length xs) then Some (slice (nat a) (nat b) xs) else None)"

text \<open>New identifiers for the pairs of all tables, table by table.\<close>

fun assign_ids :: "(HashMap \<Rightarrow> HashMap) \<Rightarrow> int \<Rightarrow> HashMap list \<Rightarrow> id_state list" where
  "assign_ids order start [] = []"
| "assign_ids order start (table # tables) =
     prepare_new_id order table start [] [] [] # assign_ids order (to_u64 (start + int (length table))) tables"

text \<open>The rows of thread \<open>k\<close>: their offsets and their symbols.\<close>

definition batch :: "nat \<Rightarrow> int \<Rightarrow> int list \<Rightarrow> int list \<Rightarrow> nat \<Rightarrow> (int list \<times> int list) option" where
  "batch thread_num thread_size input_edge input_vertex k =
    (if k + 1 < thread_num then do {
       vs \<leftarrow> subvec input_vertex (int k * thread_size) ((int k + 1) * thread_size);
       a \<leftarrow> vec_at input_vertex (int k * thread_size);
       b \<leftarrow> vec_at input_vertex ((int k + 1) * thread_size);
       es \<leftarrow> subvec input_edge a b;
       Some (map to_i32 es, map to_i32 vs)
     } else do {
       a \<leftarrow> vec_at input_vertex (int k * thread_size);
       es \<leftarrow> subvec input_edge a (int (length input_edge));
       vs \<leftarrow> subvec input_vertex (int k * thread_size) (int (length input_vertex) - 1);
       Some (map to_i32 es, map to_i32 vs)
     })"

text \<open>Appending the new sequences of the threads, and then the rules of the tables.\<close>

definition append_batch :: "int list \<times> int list \<Rightarrow> int list \<times> int list \<Rightarrow> int list \<times> int list" where
  "append_batch b g =
    (fst g @ map to_u32 (fst b), snd g @ map (\<lambda>v. to_u32 (to_i32 (v + int (length (fst g))))) (snd b))"

definition append_rules :: "id_state \<Rightarrow> int list \<times> int list \<Rightarrow> int list \<times> int list" where
  "append_rules I g =
    (fst g @ i_edge I, snd g @ map (\<lambda>v. to_u32 (v + int (length (fst g)))) (i_vertex I))"

record par_state =
  p_edge :: "int list"
  p_vertex :: "int list"
  p_max_id :: int
  p_buckets :: "int list list"

definition par_turn :: "int \<Rightarrow> (HashMap \<Rightarrow> HashMap) \<Rightarrow> int \<Rightarrow> par_state \<Rightarrow> par_state option" where
  "par_turn threshold order len_vertex P = do {
     let thread_num = length (p_buckets P);
     buckets \<leftarrow> collect_pairs (p_edge P) (p_vertex P) (p_buckets P);
     let tables = map (\<lambda>pairs. processpairs threshold pairs []) buckets;
     let ids = assign_ids order (to_u32 (p_max_id P + 1)) tables;
     let thread_size = len_vertex div int thread_num;
     batches \<leftarrow> those (map (batch thread_num thread_size (p_edge P) (p_vertex P)) [0..<thread_num]);
     new \<leftarrow> those (map (\<lambda>(es, vs). replace tables (map i_convert ids) es vs) batches);
     let g = fold append_rules ids (fold append_batch new ([], []));
     let vertices = snd g @ [to_u32 (int (length (fst g)))];
     Some \<lparr>p_edge = fst g, p_vertex = vertices, p_max_id = to_u32 (int (length vertices) - 2), p_buckets = buckets\<rparr>
   }"

text \<open>
  The constructor of \<open>Repair\<close>: \<open>compress_rate\<close> turns.  The buckets are not emptied between the turns
  and \<open>len_vertex\<close> is not updated.  A wrong \<open>max_symbol\<close> only leads to a message.
\<close>

primrec par_turns :: "nat \<Rightarrow> int \<Rightarrow> (HashMap \<Rightarrow> HashMap) \<Rightarrow> int \<Rightarrow> par_state \<Rightarrow> par_state option" where
  "par_turns 0 threshold order len_vertex P = Some P"
| "par_turns (Suc k) threshold order len_vertex P =
     do { P' \<leftarrow> par_turn threshold order len_vertex P; par_turns k threshold order len_vertex P' }"

definition par_repair ::
  "nat \<Rightarrow> int \<Rightarrow> (HashMap \<Rightarrow> HashMap) \<Rightarrow> int list \<Rightarrow> int list \<Rightarrow> int \<Rightarrow> (int list \<times> int list) option" where
  "par_repair thread_num threshold order input_edge input_vertex max_symbol = do {
     P \<leftarrow> par_turns 3 threshold order (int (length input_vertex))
       \<lparr>p_edge = input_edge, p_vertex = input_vertex, p_max_id = max_symbol, p_buckets = replicate thread_num []\<rparr>;
     Some (p_edge P, p_vertex P)
   }"

text \<open>\<open>main\<close>, from the loaded files on: the compression with 40 threads and pairs that occur 4 times.\<close>

definition par_main :: "(HashMap \<Rightarrow> HashMap) \<Rightarrow> int list \<Rightarrow> int list \<Rightarrow> int \<Rightarrow> (int list \<times> int list) option" where
  "par_main order sequence_edge sequence_vertex max_symbol =
     par_repair 40 4 order sequence_edge sequence_vertex max_symbol"

subsection \<open>Keys\<close>

lemma push_or_eq:
  fixes a b :: int
  assumes "0 \<le> b" "b < 2 ^ k"
  shows "a * 2 ^ k OR b = a * 2 ^ k + b"
proof -
  have "push_bit k a AND b = 0"
  proof (rule bit_eqI)
    fix j
    have "\<not> bit b j" if "k \<le> j"
    proof -
      have "b = take_bit k b" using assms by (simp add: take_bit_int_eq_self)
      then show ?thesis using that by (metis bit_take_bit_iff not_le)
    qed
    then show "bit (push_bit k a AND b) j = bit 0 j" by (auto simp: bit_and_iff bit_push_bit_iff)
  qed
  then show ?thesis using disjunctive_add_eq_or [of "push_bit k a" b] by (simp add: push_bit_eq_mult)
qed

lemma pair_hash_eq:
  assumes "0 \<le> a" "a < 2 ^ 32" "0 \<le> b" "b < 2 ^ 32"
  shows "pair_hash a b = a * 2 ^ 32 + b"
proof -
  have "a * 2 ^ 32 < 2 ^ 64" using assms(2) by simp
  then show ?thesis using assms push_or_eq [of b 32 a] by (simp add: pair_hash_def to_u64_def)
qed

lemma to_u32_to_i32 [simp]: "to_u32 (to_i32 x) = to_u32 x"
  by (simp add: to_u32_def to_i32_def mod_diff_left_eq)

text \<open>The two symbols of a key, as \<open>prepare_new_id\<close> reads them.\<close>

definition key_pair :: "int \<Rightarrow> int list" where
  "key_pair key = [to_u32 (to_i32 (key div 2 ^ 32)), to_u32 (to_i32 key)]"

lemma key_pair_hash:
  assumes "0 \<le> a" "a < 2 ^ 32" "0 \<le> b" "b < 2 ^ 32"
  shows "key_pair (pair_hash a b) = [a, b]"
proof -
  have "to_u32 (a * 2 ^ 32 + b) = b" using assms by (simp add: to_u32_def)
  then show ?thesis using assms by (simp add: pair_hash_eq key_pair_def)
qed

subsection \<open>Counting\<close>

lemma count_pair_keys: "set (map fst (count_pair p t)) = insert p (set (map fst t))"
  by (auto simp: count_pair_def dom_update update_keys split: option.split dest: map_of_SomeD)

lemma count_pair_distinct: "distinct (map fst t) \<Longrightarrow> distinct (map fst (count_pair p t))"
  by (auto simp: count_pair_def distinct_update map_of_eq_None_iff split: option.split)

lemma count_pair_length: "length (count_pair p t) \<le> Suc (length t)"
proof (cases "map_of t p")
  case (Some c)
  then have "map fst (AList.update p (to_u64 (c + 1)) t) = map fst t"
    by (simp add: update_keys) (force dest: map_of_SomeD)
  then have "length (AList.update p (to_u64 (c + 1)) t) = length t" by (metis length_map)
  then show ?thesis using Some by (simp add: count_pair_def)
qed (simp add: count_pair_def)

lemma count_pair_map_of:
  assumes "\<And>q c. map_of t q = Some c \<Longrightarrow> 0 \<le> c \<and> c + 1 < 2 ^ 64"
  shows "map_of (count_pair p t) = (map_of t)(p \<mapsto> (case map_of t p of None \<Rightarrow> 1 | Some c \<Rightarrow> c + 1))"
proof (cases "map_of t p")
  case (Some c)
  then have "to_u64 (c + 1) = c + 1" using assms [OF Some] by simp
  then show ?thesis using Some by (simp add: count_pair_def update_conv')
next
  case None
  then show ?thesis by (auto simp: count_pair_def map_add_def fun_eq_iff split: option.split)
qed

lemma fold_count_pair:
  assumes "length pairs < 2 ^ 63"
  shows "map_of (fold count_pair pairs []) p = (if p \<in> set pairs then Some (int (count_list pairs p)) else None)"
  using assms
proof (induction pairs arbitrary: p rule: rev_induct)
  case (snoc q pairs)
  let ?t = "fold count_pair pairs []"
  have IH: "map_of ?t p = (if p \<in> set pairs then Some (int (count_list pairs p)) else None)" for p
    using snoc by simp
  have "0 \<le> c \<and> c + 1 < 2 ^ 64" if "map_of ?t p = Some c" for p c
    using that snoc.prems count_le_length [of pairs p] by (auto simp: IH split: if_splits)
  then show ?case
    using count_pair_map_of [of ?t q] IH by (auto simp: count_list_0_iff split: option.splits)
qed simp

lemma fold_count_pair_keys:
  "distinct (map fst (fold count_pair pairs [])) \<and> set (map fst (fold count_pair pairs [])) = set pairs \<and>
   length (fold count_pair pairs []) \<le> length pairs"
proof (induction pairs rule: rev_induct)
  case (snoc q pairs)
  then show ?case
    using count_pair_keys [of q "fold count_pair pairs []"] count_pair_distinct [of "fold count_pair pairs []" q]
      count_pair_length [of q "fold count_pair pairs []"] by auto
qed simp

lemma processpairs_keys:
  shows "distinct (map fst (processpairs thr pairs []))" "set (map fst (processpairs thr pairs [])) \<subseteq> set pairs"
    "length (processpairs thr pairs []) \<le> length pairs"
  using fold_count_pair_keys [of pairs]
  by (auto simp: processpairs_def distinct_map_filter intro: order_trans [OF length_filter_le])

lemma processpairs_counts:
  assumes "length pairs < 2 ^ 63"
  shows "map_of (processpairs thr pairs []) p =
    (if p \<in> set pairs \<and> thr \<le> int (count_list pairs p) then Some (int (count_list pairs p)) else None)"
proof -
  let ?t = "fold count_pair pairs []"
  have d: "distinct (map fst ?t)" using fold_count_pair_keys by blast
  then have eq: "map_of (processpairs thr pairs []) p = Some c \<longleftrightarrow> p \<in> set pairs \<and> c = int (count_list pairs p) \<and> thr \<le> c" for c
    using fold_count_pair [OF assms, of p] map_of_eq_Some_iff [OF d, of p c]
    by (auto simp: processpairs_def map_of_eq_Some_iff distinct_map_filter split: if_splits)
  show ?thesis
  proof (cases "p \<in> set pairs \<and> thr \<le> int (count_list pairs p)")
    case True
    then show ?thesis by (simp add: eq)
  next
    case False
    then show ?thesis using eq by (cases "map_of (processpairs thr pairs []) p") auto
  qed
qed

subsection \<open>Rows and their offsets\<close>

text \<open>The offsets at which the rows of a graph start.\<close>

definition starts :: "graph \<Rightarrow> int list" where
  "starts g = map (\<lambda>i. int (length (concat (take i g)))) [0..<length g]"

lemma length_starts [simp]: "length (starts g) = length g"
  by (simp add: starts_def)

lemma starts_nth: "i < length g \<Longrightarrow> starts g ! i = int (length (concat (take i g)))"
  by (simp add: starts_def)

lemma starts_Nil [simp]: "starts [] = []"
  by (simp add: starts_def)

lemma starts_append: "starts (g @ h) = starts g @ map (\<lambda>v. v + int (length (concat g))) (starts h)"
  by (rule nth_equalityI) (auto simp: starts_nth nth_append)

lemma starts_snoc: "starts (g @ [row]) = starts g @ [int (length (concat g))]"
  by (simp add: starts_append) (simp add: starts_def)

lemma offsets_starts: "offsets g = starts g @ [int (length (concat g))]"
  by (simp add: offsets_def starts_def)

lemma starts_bounds: "v \<in> set (starts g) \<Longrightarrow> 0 \<le> v \<and> v \<le> int (length (concat g))"
  using length_concat_take by (auto simp: starts_def)

text \<open>Replacing pairs from left to right.\<close>

fun rep :: "(int \<Rightarrow> int \<Rightarrow> int option) \<Rightarrow> int list \<Rightarrow> int list" where
  "rep R (x # y # zs) = (case R x y of Some z \<Rightarrow> z # rep R zs | None \<Rightarrow> x # rep R (y # zs))"
| "rep R xs = xs"

lemma rep_Nil_iff [simp]: "rep R xs = [] \<longleftrightarrow> xs = []"
  by (induction R xs rule: rep.induct) (auto split: option.split)

lemma length_rep: "length (rep R xs) \<le> length xs"
  by (induction R xs rule: rep.induct) (auto split: option.split)

definition look :: "HashMap list \<Rightarrow> HashMap list \<Rightarrow> int \<Rightarrow> int \<Rightarrow> int option" where
  "look tables cvts x y =
    (let k = nat (x mod int (length tables)); h = pair_hash x y in
     if map_of (tables ! k) h = None then None
     else Some (to_i32 (case map_of (cvts ! k) h of Some v \<Rightarrow> v | None \<Rightarrow> 0)))"

text \<open>The loop and the symbol left over, on the part of the sequence that is still to come.\<close>

lemma replace_row_rep:
  assumes T: "tables \<noteq> []" "length cvts = length tables"
    and sym: "\<forall>x\<in>set es. 0 \<le> x \<and> x < 2 ^ 31"
    and "lo \<le> hi" "hi \<le> length es" "0 < hi"
  shows "replace_row tables cvts es (int hi - 1) (int lo) (int hi) s =
    Some (fst s @ rep (look tables cvts) (slice lo hi es), snd s + int (length (rep (look tables cvts) (slice lo hi es))))"
  using assms(4-)
proof (induction "hi - lo" arbitrary: lo s rule: less_induct)
  case less
  let ?R = "look tables cvts"
  show ?case
  proof (cases "Suc lo < hi")
    case False
    then have "slice lo hi es = (if lo < hi then [es ! lo] else [])"
      using less.prems by (auto simp: slice_Cons)
    then show ?thesis
      using False less.prems by (auto simp: replace_row_def replace_loop.simps vec_simps intro!: arg_cong [where f = "(!) es"])
  next
    case True
    define x where "x = es ! lo"
    define y where "y = es ! Suc lo"
    have at: "vec_at es (int lo) = Some x" "vec_at es (int lo + 1) = Some y"
      using True less.prems vec_at_nat [of "Suc lo" es] by (simp_all add: x_def y_def vec_at_nat add.commute)
    have sl: "slice lo hi es = x # y # slice (Suc (Suc lo)) hi es" "slice (Suc lo) hi es = y # slice (Suc (Suc lo)) hi es"
      using True less.prems by (simp_all add: slice_Cons x_def y_def)
    have "x \<in> set es" using True less.prems by (simp add: x_def)
    then have "0 \<le> x \<and> x < 2 ^ 31" using sym by blast
    then have x: "0 \<le> x" "x < 2 ^ 64" by auto
    define k where "k = nat (x mod int (length tables))"
    have k: "x mod int (length tables) = int k" "k < length tables"
      using T(1) by (simp_all add: k_def nat_less_iff)
    have tabs: "vec_at tables (int k) = Some (tables ! k)" "vec_at cvts (int k) = Some (cvts ! k)"
      using k(2) T(2) by (simp_all add: vec_at_nat)
    have lt: "int lo < int hi - 1" using True by linarith
    show ?thesis
    proof (cases "map_of (tables ! k) (pair_hash x y)")
      case None
      then have R: "?R x y = None" by (simp add: look_def k_def [symmetric])
      have "replace_row tables cvts es (int hi - 1) (int lo) (int hi) s =
          replace_row tables cvts es (int hi - 1) (int (Suc lo)) (int hi) (fst s @ [x], snd s + 1)"
        unfolding replace_row_def using lt at x k tabs None
        by (subst replace_loop.simps) (simp add: add.commute)
      then show ?thesis
        using less.hyps [of "Suc lo" "(fst s @ [x], snd s + 1)"] True less.prems R by (simp add: sl)
    next
      case (Some c)
      define z where "z = to_i32 (case map_of (cvts ! k) (pair_hash x y) of Some v \<Rightarrow> v | None \<Rightarrow> 0)"
      have R: "?R x y = Some z" using Some by (simp add: look_def k_def [symmetric] z_def)
      have "replace_row tables cvts es (int hi - 1) (int lo) (int hi) s =
          replace_row tables cvts es (int hi - 1) (int (Suc (Suc lo))) (int hi) (fst s @ [z], snd s + 1)"
        unfolding replace_row_def using lt at x k tabs Some
        by (subst replace_loop.simps) (simp add: add.commute z_def)
      then show ?thesis
        using less.hyps [of "Suc (Suc lo)" "(fst s @ [z], snd s + 1)"] True less.prems R by (simp add: sl)
    qed
  qed
qed

text \<open>A batch of rows, with offsets that count from an earlier row.\<close>

lemma replace_rows:
  assumes T: "tables \<noteq> []" "length cvts = length tables"
    and sym: "\<forall>x\<in>set (concat g). 0 \<le> x \<and> x < 2 ^ 31" and ne: "concat g \<noteq> []" and fits: "length (concat g) < 2 ^ 64"
  shows "replace tables cvts (concat g) (map (\<lambda>v. v + off) (starts g)) =
    Some (concat (map (rep (look tables cvts)) g), starts (map (rep (look tables cvts)) g))"
proof -
  let ?f = "rep (look tables cvts)" and ?es = "concat g"
  obtain h row where g: "g = h @ [row]" using ne by (cases g rule: rev_cases) auto
  have vs: "map (\<lambda>v. v - off) (map (\<lambda>v. v + off) (starts g)) = starts g" by (simp add: comp_def)
  have first: "vec_at (map (\<lambda>v. v + off) (starts g)) 0 = Some off"
    by (simp add: g vec_at_def starts_def) (simp add: nth_append)
  have rowk: "slice (length (concat (take k g))) (length (concat (take (Suc k) g))) ?es = g ! k" if "k < length g" for k
    using csr_row_offsets [OF that] that by (simp add: csr_row_def offsets_nth)
  let ?S = "\<lambda>k. ((concat (map ?f (take k g)), int (length (concat (map ?f (take k g))))), starts (map ?f (take k g)))"
  have "for_range 0 (int (length h)) (\<lambda>vidx (s, nv). do {
       start \<leftarrow> vec_at (starts g) vidx;
       fin \<leftarrow> vec_at (starts g) (vidx + 1);
       s' \<leftarrow> replace_row tables cvts ?es (fin - 1) start fin s;
       Some (s', nv @ [snd s])
     }) (?S 0) = Some (?S (length h))"
  proof (rule for_range_nat_eq)
    fix j assume j: "j < length h"
    let ?a = "length (concat (take j g))" and ?b = "length (concat (take (Suc j) g))"
    have at: "vec_at (starts g) (int j) = Some (int ?a)" "vec_at (starts g) (int j + 1) = Some (int ?b)"
      using j vec_at_nat [of "Suc j" "starts g"] by (simp_all add: g vec_at_nat starts_nth add.commute)
    have ab: "?a \<le> ?b" "?b \<le> length ?es" using j length_concat_take [of "Suc j" g] by (auto simp: g take_Suc_conv_app_nth)
    have jl: "j < length g" using j by (simp add: g)
    then have tk: "take (Suc j) g = take j g @ [g ! j]" by (rule take_Suc_conv_app_nth)
    have "replace_row tables cvts ?es (int ?b - 1) (int ?a) (int ?b) s =
        Some (fst s @ ?f (g ! j), snd s + int (length (?f (g ! j))))" for s
    proof (cases "0 < ?b")
      case True
      then show ?thesis using replace_row_rep [OF T sym ab True] rowk [OF jl] by simp
    next
      case False
      then have b0: "?b = 0" by simp
      have a0: "?a = 0" using ab(1) unfolding b0 by (rule le_0_eq [THEN iffD1])
      have "g ! j = []" using b0 unfolding tk by simp
      then show ?thesis unfolding b0 a0 by (simp add: replace_row_def replace_loop.simps)
    qed
    then show "(case ?S j of (s, nv) \<Rightarrow> do {
       start \<leftarrow> vec_at (starts g) (int j);
       fin \<leftarrow> vec_at (starts g) (int j + 1);
       s' \<leftarrow> replace_row tables cvts ?es (fin - 1) start fin s;
       Some (s', nv @ [snd s])
     }) = Some (?S (Suc j))"
      by (simp add: at tk starts_snoc)
  qed
  then have loop: "for_range 0 (int (length g) - 1) (\<lambda>vidx (s, nv). do {
       start \<leftarrow> vec_at (starts g) vidx;
       fin \<leftarrow> vec_at (starts g) (vidx + 1);
       s' \<leftarrow> replace_row tables cvts ?es (fin - 1) start fin s;
       Some (s', nv @ [snd s])
     }) (([], 0), []) = Some ((concat (map ?f h), int (length (concat (map ?f h)))), starts (map ?f h))"
    by (simp add: g)
  have last: "vec_at (starts g) (int (length g) - 1) = Some (int (length (concat h)))"
    using vec_at_nat [of "length h" "starts g"] by (simp add: g starts_nth)
  have bound: "to_u64 (int (length ?es) - 1) = int (length ?es) - 1" using ne fits by (cases "length ?es") auto
  have "slice (length (concat h)) (length ?es) ?es = row" using rowk [of "length h"] by (simp add: g nth_append)
  moreover have "length (concat h) \<le> length ?es" by (simp add: g)
  moreover have "0 < length ?es" using ne by blast
  ultimately have fin: "replace_row tables cvts ?es (int (length ?es) - 1) (int (length (concat h))) (int (length ?es)) s =
      Some (fst s @ ?f row, snd s + int (length (?f row)))" for s
    using replace_row_rep [OF T sym, of "length (concat h)" "length ?es"] by simp
  show ?thesis
    unfolding replace_def first bind.simps(2) Let_def vs length_starts loop last bound fin split_conv
    by (simp add: g starts_snoc)
qed

subsection \<open>Identifiers of the new rules\<close>

lemma length_pairs: "\<forall>r\<in>set rs. length r = 2 \<Longrightarrow> length (concat rs) = 2 * length rs"
  by (induction rs) auto

lemma new_id_step_eq:
  "new_id_step e I = I\<lparr>
     i_convert := (if map_of (i_convert I) (fst e) = None then i_convert I @ [(fst e, i_next I)] else i_convert I),
     i_next := to_u64 (i_next I + 1), i_vertex := i_vertex I @ [to_u32 (i_offset I)],
     i_offset := to_u64 (i_offset I + 2), i_edge := i_edge I @ key_pair (fst e)\<rparr>"
  by (simp add: new_id_step_def key_pair_def Let_def)

lemma new_ids_run:
  assumes "distinct (map fst L)" "0 \<le> s" "s + int (length L) < 2 ^ 63" "length L < 2 ^ 31"
  shows "fold new_id_step L \<lparr>i_next = s, i_convert = [], i_edge = [], i_vertex = [], i_offset = 0\<rparr> =
    \<lparr>i_next = s + int (length L), i_convert = map (\<lambda>j. (fst (L ! j), s + int j)) [0..<length L],
     i_edge = concat (map (\<lambda>e. key_pair (fst e)) L), i_vertex = starts (map (\<lambda>e. key_pair (fst e)) L), i_offset = 2 * int (length L)\<rparr>"
  using assms
proof (induction L rule: rev_induct)
  case (snoc e L)
  have len: "length (concat (map (\<lambda>e. key_pair (fst e)) L)) = 2 * length L"
    by (subst length_pairs) (auto simp: key_pair_def)
  have "map (\<lambda>j. (fst ((L @ [e]) ! j), s + int j)) [0..<length L] = map (\<lambda>j. (fst (L ! j), s + int j)) [0..<length L]"
    by (auto simp: nth_append)
  then have cv: "map (\<lambda>j. (fst ((L @ [e]) ! j), s + int j)) [0..<Suc (length L)] =
      map (\<lambda>j. (fst (L ! j), s + int j)) [0..<length L] @ [(fst e, s + int (length L))]" by simp
  have "fst e \<notin> set (map fst L)" using snoc.prems(1) by simp
  then have "map_of (map (\<lambda>j. (fst (L ! j), s + int j)) [0..<length L]) (fst e) = None"
    by (auto simp: map_of_eq_None_iff)
  then show ?case
    using snoc len cv by (simp add: new_id_step_eq starts_snoc)
qed simp

text \<open>The rules that a list of tables gives rise to.\<close>

abbreviation table_rules :: "(HashMap \<Rightarrow> HashMap) \<Rightarrow> HashMap \<Rightarrow> graph" where
  "table_rules order t \<equiv> map (\<lambda>e. key_pair (fst e)) (order t)"

lemma length_assign_ids [simp]: "length (assign_ids order s tables) = length tables"
  by (induction tables arbitrary: s) auto

lemma assign_ids_rules:
  assumes "\<forall>t\<in>set tables. mset (order t) = mset t \<and> distinct (map fst t)"
    and "0 \<le> s" "s + int (sum_list (map length tables)) < 2 ^ 31"
    and "length (concat g) + 2 * sum_list (map length tables) < 2 ^ 32"
  shows "length (assign_ids order s tables) = length tables \<and>
    fold append_rules (assign_ids order s tables) (concat g, starts g) =
      (concat (g @ concat (map (table_rules order) tables)), starts (g @ concat (map (table_rules order) tables))) \<and>
    (\<forall>k<length tables. \<forall>h\<in>fst ` set (tables ! k). \<exists>j<sum_list (map length tables).
       concat (map (table_rules order) tables) ! j = key_pair h \<and>
       map_of (i_convert (assign_ids order s tables ! k)) h = Some (s + int j))"
  using assms
proof (induction tables arbitrary: s g)
  case (Cons t tables)
  let ?L = "order t" and ?rs = "table_rules order t" and ?rest = "concat (map (table_rules order) tables)"
  have perm: "mset ?L = mset t" and dt: "distinct (map fst t)" using Cons.prems(1) by auto
  have len: "length ?L = length t" using perm by (metis size_mset)
  have "mset (map fst ?L) = mset (map fst t)" using perm by simp
  then have d: "distinct (map fst ?L)" using dt mset_eq_imp_distinct_iff by blast
  have run: "prepare_new_id order t s [] [] [] = \<lparr>i_next = s + int (length t), i_convert = map (\<lambda>j. (fst (?L ! j), s + int j)) [0..<length t],
     i_edge = concat ?rs, i_vertex = starts ?rs, i_offset = 2 * int (length t)\<rparr>"
  proof -
    have "length t < 2 ^ 31" using Cons.prems(2,3) by simp
    then show ?thesis using new_ids_run [OF d Cons.prems(2)] Cons.prems(3) len by (simp add: prepare_new_id_def)
  qed
  have s': "to_u64 (s + int (length t)) = s + int (length t)" using Cons.prems(2,3) by simp
  have lrs: "length (concat ?rs) = 2 * length t" by (subst length_pairs) (auto simp: key_pair_def len)
  have "v + int (length (concat g)) < 2 ^ 32 \<and> 0 \<le> v" if "v \<in> set (starts ?rs)" for v
    using starts_bounds [OF that] lrs Cons.prems(4) by auto
  then have ap: "append_rules (prepare_new_id order t s [] [] []) (concat g, starts g) = (concat (g @ ?rs), starts (g @ ?rs))"
    by (auto simp: append_rules_def run starts_append)
  have IH: "length (assign_ids order (s + int (length t)) tables) = length tables"
    "fold append_rules (assign_ids order (s + int (length t)) tables) (concat (g @ ?rs), starts (g @ ?rs)) =
      (concat ((g @ ?rs) @ ?rest), starts ((g @ ?rs) @ ?rest))"
    "\<And>k h. k < length tables \<Longrightarrow> h \<in> fst ` set (tables ! k) \<Longrightarrow> \<exists>j<sum_list (map length tables).
       ?rest ! j = key_pair h \<and> map_of (i_convert (assign_ids order (s + int (length t)) tables ! k)) h = Some (s + int (length t) + int j)"
    using Cons.IH [of "s + int (length t)" "g @ ?rs"] Cons.prems lrs by auto
  have "\<exists>j<length t + sum_list (map length tables). (?rs @ ?rest) ! j = key_pair h \<and>
      map_of (i_convert ((prepare_new_id order t s [] [] [] # assign_ids order (s + int (length t)) tables) ! k)) h = Some (s + int j)"
    if k: "k < Suc (length tables)" and h: "h \<in> fst ` set ((t # tables) ! k)" for k h
  proof (cases k)
    case 0
    then have "h \<in> fst ` set ?L" using h perm by (metis nth_Cons_0 set_mset_mset)
    then obtain j where j: "j < length t" "fst (?L ! j) = h" using len by (auto simp: in_set_conv_nth)
    have "map fst (map (\<lambda>j. (fst (?L ! j), s + int j)) [0..<length t]) = map fst ?L"
      using len by (intro nth_equalityI) auto
    then have "distinct (map fst (map (\<lambda>j. (fst (?L ! j), s + int j)) [0..<length t]))" using d by simp
    then have "map_of (map (\<lambda>j. (fst (?L ! j), s + int j)) [0..<length t]) h = Some (s + int j)"
      using j by (intro map_of_is_SomeI) auto
    then show ?thesis using 0 j len run by (intro exI [of _ j]) (auto simp: nth_append)
  next
    case (Suc k')
    then obtain j where "j < sum_list (map length tables)" "?rest ! j = key_pair h"
      "map_of (i_convert (assign_ids order (s + int (length t)) tables ! k')) h = Some (s + int (length t) + int j)"
      using IH(3) [of k' h] k h by auto
    then show ?thesis using Suc len by (intro exI [of _ "length t + j"]) (auto simp: nth_append)
  qed
  then show ?case using IH(1,2) ap s' by simp
qed simp

subsection \<open>Collecting the pairs\<close>

definition symbols_below :: "nat \<Rightarrow> graph \<Rightarrow> bool" where
  "symbols_below m g \<longleftrightarrow> (\<forall>x\<in>set (concat g). 0 \<le> x \<and> x < int m)"

definition keys_below :: "nat \<Rightarrow> int list list \<Rightarrow> bool" where
  "keys_below m buckets \<longleftrightarrow> (\<forall>p\<in>set (concat buckets). \<exists>x y. 0 \<le> x \<and> x < int m \<and> 0 \<le> y \<and> y < int m \<and> p = pair_hash x y)"

lemma keys_below_mono: "keys_below m buckets \<Longrightarrow> m \<le> m' \<Longrightarrow> keys_below m' buckets"
  unfolding keys_below_def by fastforce

lemma push_bucket:
  assumes "keys_below m bs" "bs \<noteq> []" "0 \<le> x" "x < int m" "0 \<le> y" "y < int m"
  shows "\<exists>bs'. push_at bs (x mod int (length bs)) (pair_hash x y) = Some bs' \<and> keys_below m bs' \<and>
    length bs' = length bs \<and> length (concat bs') = Suc (length (concat bs))"
proof -
  define k where "k = nat (x mod int (length bs))"
  have k: "x mod int (length bs) = int k" "k < length bs" using assms(2) by (simp_all add: k_def nat_less_iff)
  let ?bs = "bs[k := bs ! k @ [pair_hash x y]]"
  let ?pre = "concat (take k bs)" and ?post = "concat (drop (Suc k) bs)"
  have "concat (take k bs @ bs ! k # drop (Suc k) bs) = ?pre @ bs ! k @ ?post" by simp
  then have e1: "concat bs = ?pre @ bs ! k @ ?post" using id_take_nth_drop [OF k(2)] by simp
  have e2: "concat ?bs = ?pre @ (bs ! k @ [pair_hash x y]) @ ?post" using k(2) by (simp add: upd_conv_take_nth_drop)
  have "set (concat ?bs) = insert (pair_hash x y) (set (concat bs))" unfolding e1 e2 by auto
  then have "keys_below m ?bs" using assms unfolding keys_below_def by (metis insert_iff)
  moreover have "length (concat ?bs) = Suc (length (concat bs))" unfolding e1 e2 by simp
  ultimately show ?thesis using k by (simp add: push_at_Some)
qed

lemma collect_pairs_rows:
  assumes sym: "symbols_below m g" and first: "g \<noteq> [] \<Longrightarrow> g ! 0 \<noteq> []" and fits: "length (concat g) < 2 ^ 32"
    and bs: "keys_below m bs" "bs \<noteq> []"
  shows "\<exists>bs'. collect_pairs (concat g) (offsets g) bs = Some bs' \<and> keys_below m bs' \<and> length bs' = length bs \<and>
    length (concat bs') \<le> length (concat bs) + length (concat g)"
proof -
  let ?es = "concat g"
  let ?I = "\<lambda>k bs'. keys_below m bs' \<and> length bs' = length bs \<and> length (concat bs') \<le> length (concat bs) + k"
  have inner: "\<exists>bs''. for_range (int a) (int b - 1) (\<lambda>idx buckets. do {
         x \<leftarrow> vec_at ?es idx;
         y \<leftarrow> vec_at ?es (idx + 1);
         push_at buckets (x mod int (length buckets)) (pair_hash x y)
       }) bs' = Some bs'' \<and> ?I b bs''" if ab: "a \<le> b" "b \<le> length ?es" and I: "?I a bs'" for a b bs'
  proof (cases "Suc a \<le> b")
    case False
    then show ?thesis using ab I by auto
  next
    case True
    have "\<exists>bs''. for_range (int a) (int (b - 1)) (\<lambda>idx buckets. do {
         x \<leftarrow> vec_at ?es idx;
         y \<leftarrow> vec_at ?es (idx + 1);
         push_at buckets (x mod int (length buckets)) (pair_hash x y)
       }) bs' = Some bs'' \<and> ?I (b - 1) bs''"
    proof (rule for_range_from_rule [where I = ?I])
      fix j s assume j: "a \<le> j" "j < b - 1" and I: "?I j s"
      have "vec_at ?es (int j) = Some (?es ! j)" "vec_at ?es (int j + 1) = Some (?es ! Suc j)"
        using j ab vec_at_nat [of "Suc j" ?es] by (simp_all add: vec_at_nat add.commute)
      moreover have "0 \<le> ?es ! j \<and> ?es ! j < int m" "0 \<le> ?es ! Suc j \<and> ?es ! Suc j < int m"
        using sym j ab nth_mem [of j ?es] nth_mem [of "Suc j" ?es] unfolding symbols_below_def by (simp_all del: nth_mem set_concat)
      moreover have "s \<noteq> []" using I bs(2) by auto
      ultimately show "\<exists>s'. do { x \<leftarrow> vec_at ?es (int j); y \<leftarrow> vec_at ?es (int j + 1);
         push_at s (x mod int (length s)) (pair_hash x y) } = Some s' \<and> ?I (Suc j) s'"
        using push_bucket [of m s "?es ! j" "?es ! Suc j"] I by fastforce
    qed (use True I in auto)
    then show ?thesis using True by (auto simp: of_nat_diff)
  qed
  have "\<exists>bs'. for_range 0 (int (length g)) (\<lambda>idy buckets. do {
       start \<leftarrow> vec_at (offsets g) idy;
       fin \<leftarrow> vec_at (offsets g) (idy + 1);
       for_range start (to_u32 (fin - 1)) (\<lambda>idx buckets. do {
         x \<leftarrow> vec_at ?es idx;
         y \<leftarrow> vec_at ?es (idx + 1);
         push_at buckets (x mod int (length buckets)) (pair_hash x y)
       }) buckets
     }) bs = Some bs' \<and> ?I (length (concat (take (length g) g))) bs'"
  proof (rule for_range_nat_rule [where I = "\<lambda>k. ?I (length (concat (take k g)))"])
    fix j s assume j: "j < length g" and I: "?I (length (concat (take j g))) s"
    let ?a = "length (concat (take j g))" and ?b = "length (concat (take (Suc j) g))"
    have at: "vec_at (offsets g) (int j) = Some (int ?a)" "vec_at (offsets g) (int j + 1) = Some (int ?b)"
      using j vec_at_nat [of "Suc j" "offsets g"] by (simp_all add: vec_at_nat offsets_nth add.commute)
    have ab: "?a \<le> ?b" "?b \<le> length ?es"
      using j length_concat_take [of "Suc j" g] by (simp_all add: take_Suc_conv_app_nth)
    have "take 1 g \<noteq> []" "concat (take 1 g) \<noteq> []" using first j by (cases g; auto)+
    then have "0 < ?b" using j length_concat_take [of 1 "take (Suc j) g"] by (cases g) auto
    then have "to_u32 (int ?b - 1) = int ?b - 1" using ab fits by (intro to_u32_id) auto
    then show "\<exists>s'. do {
       start \<leftarrow> vec_at (offsets g) (int j);
       fin \<leftarrow> vec_at (offsets g) (int j + 1);
       for_range start (to_u32 (fin - 1)) (\<lambda>idx buckets. do {
         x \<leftarrow> vec_at ?es idx;
         y \<leftarrow> vec_at ?es (idx + 1);
         push_at buckets (x mod int (length buckets)) (pair_hash x y)
       }) s
     } = Some s' \<and> ?I ?b s'"
      using inner [OF ab I] by (simp only: at bind.simps(2))
  qed (use bs in auto)
  then show ?thesis by (simp add: collect_pairs_def)
qed

subsection \<open>Batches\<close>

definition batch_rows :: "nat \<Rightarrow> nat \<Rightarrow> graph \<Rightarrow> nat \<Rightarrow> graph" where
  "batch_rows T ts g k = (if Suc k < T then slice (k * ts) (Suc k * ts) g else drop (k * ts) g)"

lemma concat_batch_rows: "0 < T \<Longrightarrow> concat (map (batch_rows T ts g) [0..<T]) = g"
proof -
  assume "0 < T"
  then have "[0..<T] = [0..<T - 1] @ [T - 1]" by (metis Suc_diff_1 upt_Suc_append le0)
  moreover have "concat (map (batch_rows T ts g) [0..<T - 1]) = concat (map (edge_block ts g) [0..<T - 1])"
    by (intro arg_cong [where f = concat] map_cong refl) (simp add: batch_rows_def edge_block_def)
  moreover have "batch_rows T ts g (T - 1) = drop ((T - 1) * ts) g" using \<open>0 < T\<close> by (simp add: batch_rows_def)
  ultimately show ?thesis by (simp add: concat_edge_blocks)
qed

lemma length_concat_batch: "length (concat (batch_rows T ts g k)) \<le> length (concat g)"
proof -
  have "length (concat (drop j g)) \<le> length (concat g)" for j
    using arg_cong [OF concat_append [of "take j g" "drop j g"], of length] by simp
  then show ?thesis
    unfolding batch_rows_def slice_def by (auto intro: order_trans [OF length_concat_take])
qed

lemma slice_offsets:
  assumes "a \<le> b" "b \<le> length g"
  shows "slice a b (offsets g) = map (\<lambda>v. v + int (length (concat (take a g)))) (starts (slice a b g))"
proof (rule nth_equalityI)
  fix i assume "i < length (slice a b (offsets g))"
  then have i: "i < b - a" using assms by simp
  have "take (a + i) g = take a g @ take i (slice a b g)" using i by (simp add: take_add slice_def min_absorb1)
  then show "slice a b (offsets g) ! i = map (\<lambda>v. v + int (length (concat (take a g)))) (starts (slice a b g)) ! i"
    using i assms by (simp add: slice_nth offsets_nth starts_nth)
qed (use assms in auto)

lemma slice_concat:
  assumes "a \<le> b" "b \<le> length g"
  shows "slice (length (concat (take a g))) (length (concat (take b g))) (concat g) = concat (slice a b g)"
proof -
  have "take b g = take a g @ slice a b g" using assms by (metis slice_def le_add_diff_inverse take_add)
  moreover have "concat g = concat (take b g) @ concat (drop b g)" by (metis append_take_drop_id concat_append)
  ultimately show ?thesis by (simp add: slice_def)
qed

lemma map_i32_id: "\<forall>x\<in>set xs. 0 \<le> x \<and> x < 2 ^ 31 \<Longrightarrow> map to_i32 xs = xs"
  by (induction xs) auto

lemma batch_ok:
  assumes k: "k < T" "k * ts \<le> length g" "Suc k < T \<Longrightarrow> Suc k * ts \<le> length g"
    and sym: "\<forall>x\<in>set (concat g). 0 \<le> x \<and> x < 2 ^ 31" and fits: "length (concat g) < 2 ^ 31"
  shows "batch T (int ts) (concat g) (offsets g) k =
    Some (concat (batch_rows T ts g k), map (\<lambda>v. v + int (length (concat (take (k * ts) g)))) (starts (batch_rows T ts g k)))"
proof -
  define a where "a = k * ts"
  define b where "b = (if Suc k < T then Suc k * ts else length g)"
  have ab: "a \<le> b" "b \<le> length g" using k by (auto simp: a_def b_def)
  have rows: "batch_rows T ts g k = slice a b g" by (auto simp: batch_rows_def a_def b_def slice_def)
  let ?es = "concat (slice a b g)" and ?vs = "map (\<lambda>v. v + int (length (concat (take a g)))) (starts (slice a b g))"
  have le: "length (concat (take a g)) \<le> length (concat (take b g))" "length (concat (take b g)) \<le> length (concat g)"
    using ab length_concat_take [of a "take b g"] length_concat_take [of b g] by (simp_all add: min_absorb1)
  have es: "map to_i32 ?es = ?es"
    using sym set_slice [of a b g] by (intro map_i32_id) auto
  have "0 \<le> v \<and> v < 2 ^ 31" if "v \<in> set ?vs" for v
  proof -
    have "v \<in> set (offsets g)" using that slice_offsets [OF ab] set_slice [of a b "offsets g"] by auto
    then obtain i where "v = int (length (concat (take i g)))" unfolding offsets_def by (metis (no_types, lifting) imageE set_map)
    then show ?thesis using length_concat_take [of i g] fits by simp
  qed
  then have vs: "map to_i32 ?vs = ?vs" by (intro map_i32_id) blast
  have sub: "subvec (offsets g) (int a) (int b) = Some ?vs" using ab by (simp add: subvec_def slice_offsets)
  have sube: "subvec (concat g) (int (length (concat (take a g)))) (int (length (concat (take b g)))) = Some ?es"
    using le slice_concat [OF ab] by (simp add: subvec_def)
  have at: "vec_at (offsets g) (int a) = Some (int (length (concat (take a g))))" "vec_at (offsets g) (int b) = Some (int (length (concat (take b g))))"
    using ab by (simp_all add: vec_at_nat offsets_nth)
  show ?thesis
  proof (cases "Suc k < T")
    case True
    then have "int k * int ts = int a" "(int k + 1) * int ts = int b" by (simp_all add: a_def b_def algebra_simps)
    then show ?thesis using True sub sube at es vs by (simp add: batch_def rows a_def [symmetric])
  next
    case False
    then have "int k * int ts = int a" "b = length g" by (simp_all add: a_def b_def)
    then show ?thesis using False sub sube at es vs by (simp add: batch_def rows a_def [symmetric])
  qed
qed

lemma those_map: "(\<And>x. x \<in> set xs \<Longrightarrow> f x = Some (h x)) \<Longrightarrow> those (map f xs) = Some (map h xs)"
  by (induction xs) auto

lemma append_batches:
  assumes "\<forall>x\<in>set (concat (concat gs)). 0 \<le> x \<and> x < 2 ^ 31" "length (concat (g @ concat gs)) < 2 ^ 31"
  shows "fold append_batch (map (\<lambda>h. (concat h, starts h)) gs) (concat g, starts g) = (concat (g @ concat gs), starts (g @ concat gs))"
  using assms
proof (induction gs arbitrary: g)
  case (Cons h gs)
  have "map to_u32 (concat h) = concat h"
  proof (intro map_idI)
    fix x assume "x \<in> set (concat h)"
    then have "x \<in> set (concat (concat (h # gs)))" by auto
    then show "to_u32 x = x" using Cons.prems(1) by fastforce
  qed
  moreover have "to_u32 (to_i32 (v + int (length (concat g)))) = v + int (length (concat g))" if "v \<in> set (starts h)" for v
    using starts_bounds [OF that] Cons.prems(2) by simp
  then have "map (\<lambda>v. to_u32 (to_i32 (v + int (length (concat g))))) (starts h) = map (\<lambda>v. v + int (length (concat g))) (starts h)"
    by (intro map_cong) auto
  ultimately have "append_batch (concat h, starts h) (concat g, starts g) = (concat (g @ h), starts (g @ h))"
    unfolding append_batch_def by (simp only: fst_conv snd_conv starts_append concat_append)
  moreover have "\<forall>x\<in>set (concat (concat gs)). 0 \<le> x \<and> x < 2 ^ 31" using Cons.prems(1) by fastforce
  then have "fold append_batch (map (\<lambda>h. (concat h, starts h)) gs) (concat (g @ h), starts (g @ h)) =
      (concat ((g @ h) @ concat gs), starts ((g @ h) @ concat gs))"
    by (rule Cons.IH) (use Cons.prems(2) in simp)
  ultimately show ?case by simp
qed simp

subsection \<open>A whole turn\<close>

text \<open>Every thread has a symbol to work on, and the first row is not empty.\<close>

definition feeds :: "nat \<Rightarrow> nat \<Rightarrow> graph \<Rightarrow> bool" where
  "feeds T ts g \<longleftrightarrow> g \<noteq> [] \<and> g ! 0 \<noteq> [] \<and> (T - 1) * ts \<le> length g \<and> (\<forall>k<T. concat (batch_rows T ts g k) \<noteq> [])"

text \<open>\<open>R\<close> gives pairs of old symbols the numbers of the rows with these pairs, which follow the \<open>m\<close> old rows.\<close>

definition names_rules :: "nat \<Rightarrow> graph \<Rightarrow> (int \<Rightarrow> int \<Rightarrow> int option) \<Rightarrow> bool" where
  "names_rules m rs R \<longleftrightarrow>
     (\<forall>r\<in>set rs. \<exists>x y. r = [x, y] \<and> 0 \<le> x \<and> x < int m \<and> 0 \<le> y \<and> y < int m) \<and>
     (\<forall>x y z. 0 \<le> x \<and> x < int m \<and> 0 \<le> y \<and> y < int m \<and> R x y = Some z \<longrightarrow>
        (\<exists>j<length rs. z = int (m + j) \<and> rs ! j = [x, y]))"

lemma names_rules_look:
  assumes m: "m < 2 ^ 31" and "length tables = length bs" "tables = map (\<lambda>pairs. processpairs thr pairs []) bs" "bs \<noteq> []"
    and bs: "keys_below m bs" and order: "\<And>t. mset (order t) = mset t" and fits: "m + sum_list (map length tables) < 2 ^ 31"
  shows "names_rules m (concat (map (table_rules order) tables)) (look tables (map i_convert (assign_ids order (int m) tables)))"
proof -
  let ?rs = "concat (map (table_rules order) tables)" and ?ids = "assign_ids order (int m) tables"
  have keys: "\<exists>x y. 0 \<le> x \<and> x < int m \<and> 0 \<le> y \<and> y < int m \<and> h = pair_hash x y" if t: "t \<in> set tables" "h \<in> fst ` set t" for t h
  proof -
    obtain ps where ps: "ps \<in> set bs" "t = processpairs thr ps []" using t(1) assms(3) by auto
    then have "h \<in> set ps" using processpairs_keys(2) [of thr ps] t(2) by auto
    then have "h \<in> set (concat bs)" using ps(1) by auto
    then show ?thesis using bs unfolding keys_below_def by blast
  qed
  have d: "\<forall>t\<in>set tables. mset (order t) = mset t \<and> distinct (map fst t)"
    using order processpairs_keys(1) assms(3) by auto
  have ids: "length ?ids = length tables" "\<And>k h. k < length tables \<Longrightarrow> h \<in> fst ` set (tables ! k) \<Longrightarrow>
      \<exists>j<sum_list (map length tables). ?rs ! j = key_pair h \<and> map_of (i_convert (?ids ! k)) h = Some (int m + int j)"
    using assign_ids_rules [OF d, of "int m" "[]"] fits by auto
  have len: "length ?rs = sum_list (map length tables)"
  proof -
    have "length (order t) = length t" for t using order by (metis size_mset)
    then show ?thesis by (simp add: length_concat comp_def)
  qed
  have "\<exists>x y. r = [x, y] \<and> 0 \<le> x \<and> x < int m \<and> 0 \<le> y \<and> y < int m" if r: "r \<in> set ?rs" for r
  proof -
    obtain t e where t: "t \<in> set tables" "e \<in> set (order t)" "r = key_pair (fst e)" using r by auto
    then have "fst e \<in> fst ` set t" using order by (metis image_eqI set_mset_mset)
    then obtain x y where "0 \<le> x" "x < int m" "0 \<le> y" "y < int m" "fst e = pair_hash x y" using keys [OF t(1)] by blast
    then show ?thesis using t(3) key_pair_hash [of x y] m by auto
  qed
  moreover have "\<exists>j<length ?rs. z = int (m + j) \<and> ?rs ! j = [x, y]"
    if xy: "0 \<le> x" "x < int m" "0 \<le> y" "y < int m" and z: "look tables (map i_convert ?ids) x y = Some z" for x y z
  proof -
    define k where "k = nat (x mod int (length tables))"
    have k: "k < length tables" using assms(2,4) by (simp add: k_def nat_less_iff)
    have "map_of (tables ! k) (pair_hash x y) \<noteq> None" and z': "z = to_i32 (case map_of (i_convert (?ids ! k)) (pair_hash x y) of Some v \<Rightarrow> v | None \<Rightarrow> 0)"
      using z k ids(1) by (auto simp: look_def k_def [symmetric] Let_def split: if_splits)
    then have "pair_hash x y \<in> fst ` set (tables ! k)" by (metis map_of_eq_None_iff)
    then obtain j where j: "j < sum_list (map length tables)" "?rs ! j = key_pair (pair_hash x y)"
        "map_of (i_convert (?ids ! k)) (pair_hash x y) = Some (int m + int j)" using ids(2) [OF k] by blast
    then have "z = int (m + j)" using z' fits by simp
    moreover have "key_pair (pair_hash x y) = [x, y]" using key_pair_hash [of x y] xy m by simp
    ultimately show ?thesis using j(1,2) len by auto
  qed
  ultimately show ?thesis unfolding names_rules_def by blast
qed

lemma names_rulesD:
  assumes "names_rules m rs R" "0 \<le> x" "x < int m" "0 \<le> y" "y < int m" "R x y = Some z"
  shows "\<exists>j<length rs. z = int (m + j) \<and> rs ! j = [x, y]"
  using assms unfolding names_rules_def by blast

text \<open>The symbols of a row after the replacement are old symbols or new rules.\<close>

lemma rep_symbols:
  assumes "names_rules m rs R" "\<forall>x\<in>set xs. 0 \<le> x \<and> x < int m"
  shows "\<forall>z\<in>set (rep R xs). 0 \<le> z \<and> z < int (m + length rs)"
  using assms
proof (induction R xs rule: rep.induct)
  case (1 R x y zs)
  then show ?case
  proof (cases "R x y")
    case (Some z)
    then obtain j where "j < length rs" "z = int (m + j)" using names_rulesD [OF 1(3), of x y z] 1(4) by auto
    moreover have "\<forall>z\<in>set (rep R zs). 0 \<le> z \<and> z < int (m + length rs)" using 1(2) [OF Some 1(3)] 1(4) by simp
    ultimately show ?thesis using Some by simp
  next
    case None
    then have "\<forall>z\<in>set (rep R (y # zs)). 0 \<le> z \<and> z < int (m + length rs)" using 1(1) [OF None 1(3)] 1(4) by simp
    then show ?thesis using None 1(4) by simp
  qed
qed auto

text \<open>The three phases of a turn after the counting: distributing the rows, replacing, and joining.\<close>

lemma those_batches:
  assumes feeds: "feeds T ts g" and sym31: "\<forall>x\<in>set (concat g). 0 \<le> x \<and> x < 2 ^ 31" and fits: "length (concat g) < 2 ^ 31"
  shows "those (map (batch T (int ts) (concat g) (offsets g)) [0..<T]) = Some (map (\<lambda>k.
      (concat (batch_rows T ts g k), map (\<lambda>v. v + int (length (concat (take (k * ts) g)))) (starts (batch_rows T ts g k)))) [0..<T])"
proof (rule those_map, rule batch_ok)
  fix k assume k: "k \<in> set [0..<T]"
  then have "k * ts \<le> (T - 1) * ts" by (intro mult_le_mono1) auto
  then show "k * ts \<le> length g" using feeds unfolding feeds_def by (meson order_trans)
  show "Suc k * ts \<le> length g" if "Suc k < T"
  proof -
    have "Suc k * ts \<le> (T - 1) * ts" using that by (intro mult_le_mono1) auto
    then show ?thesis using feeds unfolding feeds_def by (meson order_trans)
  qed
qed (use sym31 fits in auto)

lemma those_replace:
  assumes T: "tables \<noteq> []" "length tables = T" "length cvts = T" and feeds: "feeds T ts g"
    and sym31: "\<forall>x\<in>set (concat g). 0 \<le> x \<and> x < 2 ^ 31" and fits: "length (concat g) < 2 ^ 31" and R: "R = look tables cvts"
  shows "those (map (\<lambda>(es, vs). replace tables cvts es vs) (map (\<lambda>k.
      (concat (batch_rows T ts g k), map (\<lambda>v. v + int (length (concat (take (k * ts) g)))) (starts (batch_rows T ts g k)))) [0..<T])) =
      Some (map (\<lambda>k. (concat (map (rep R) (batch_rows T ts g k)), starts (map (rep R) (batch_rows T ts g k)))) [0..<T])"
  unfolding map_map comp_def split_conv
proof (rule those_map)
  fix k assume k: "k \<in> set [0..<T]"
  have sub: "set (concat (batch_rows T ts g k)) \<subseteq> set (concat g)"
    using set_slice [of "k * ts" "Suc k * ts" g] set_drop_subset [of "k * ts" g] by (auto simp: batch_rows_def split: if_splits)
  have "length (concat (batch_rows T ts g k)) < 2 ^ 64"
    using length_concat_batch [of T ts g k] fits by simp
  then show "replace tables cvts (concat (batch_rows T ts g k))
      (map (\<lambda>v. v + int (length (concat (take (k * ts) g)))) (starts (batch_rows T ts g k))) =
    Some (concat (map (rep R) (batch_rows T ts g k)), starts (map (rep R) (batch_rows T ts g k)))"
    unfolding R using T feeds k sub sym31 by (intro replace_rows) (auto simp: feeds_def)
qed

lemma join_batches:
  assumes T: "0 < T" and sym_new: "\<forall>x\<in>set (concat (map f g)). 0 \<le> x \<and> x < 2 ^ 31" and len_new: "length (concat (map f g)) < 2 ^ 31"
  shows "fold append_batch (map (\<lambda>k. (concat (map f (batch_rows T ts g k)), starts (map f (batch_rows T ts g k)))) [0..<T]) ([], []) =
      (concat (map f g), starts (map f g))"
proof -
  let ?gs = "map (\<lambda>k. map f (batch_rows T ts g k)) [0..<T]"
  have gs: "concat ?gs = map f g"
    using arg_cong [OF concat_batch_rows [of T ts g], of "map f"] T by (simp add: map_concat comp_def)
  have "fold append_batch (map (\<lambda>h. (concat h, starts h)) ?gs) (concat [], starts []) = (concat ([] @ concat ?gs), starts ([] @ concat ?gs))"
    by (rule append_batches) (use gs sym_new len_new in auto)
  then show ?thesis unfolding gs by (simp add: comp_def)
qed

lemma par_turn_rows:
  assumes order: "\<And>t. mset (order t) = mset t"
    and bs: "keys_below (length g) bs" "bs \<noteq> []" and sym: "symbols_below (length g) g"
    and feeds: "feeds (length bs) ts g" and L: "L div int (length bs) = int ts"
    and fits: "length (concat g) + 2 * (length (concat bs) + length (concat g)) < 2 ^ 31"
      "length g + (length (concat bs) + length (concat g)) < 2 ^ 31"
  shows "\<exists>R rs bs'. par_turn thr order L \<lparr>p_edge = concat g, p_vertex = offsets g, p_max_id = int (length g) - 1, p_buckets = bs\<rparr> =
      Some \<lparr>p_edge = concat (map (rep R) g @ rs), p_vertex = offsets (map (rep R) g @ rs),
        p_max_id = int (length (map (rep R) g @ rs)) - 1, p_buckets = bs'\<rparr> \<and>
    names_rules (length g) rs R \<and> keys_below (length g) bs' \<and> length bs' = length bs \<and>
    length (concat bs') \<le> length (concat bs) + length (concat g) \<and> length rs \<le> length (concat bs')"
proof -
  let ?m = "length g" and ?T = "length bs"
  obtain bs' where bs': "collect_pairs (concat g) (offsets g) bs = Some bs'" "keys_below ?m bs'" "length bs' = ?T"
      "length (concat bs') \<le> length (concat bs) + length (concat g)"
    using collect_pairs_rows [OF sym _ _ bs] feeds fits by (auto simp: feeds_def)
  define tables where "tables = map (\<lambda>pairs. processpairs thr pairs []) bs'"
  define ids where "ids = assign_ids order (int ?m) tables"
  define R where "R = look tables (map i_convert ids)"
  define rs where "rs = concat (map (table_rules order) tables)"
  have lt: "length tables = ?T" using bs'(3) by (simp add: tables_def)
  have tot: "sum_list (map length tables) \<le> length (concat bs')"
    unfolding tables_def length_concat using processpairs_keys(3) by (simp add: comp_def sum_list_mono)
  have lenrs: "length rs = sum_list (map length tables)"
  proof -
    have "length (order t) = length t" for t using order by (metis size_mset)
    then show ?thesis by (simp add: rs_def length_concat comp_def)
  qed
  have R: "names_rules ?m rs R"
    unfolding rs_def R_def ids_def using bs' bs(2) tot fits lt
    by (intro names_rules_look [where thr = thr and bs = bs', OF _ _ _ _ _ order]) (auto simp: tables_def)
  have len_rs: "length (concat rs) = 2 * length rs"
    using R by (intro length_pairs) (auto simp: names_rules_def)
  have len_new: "length (concat (map (rep R) g)) \<le> length (concat g)"
    unfolding length_concat using length_rep by (simp add: comp_def sum_list_mono)
  have sym_new: "\<forall>x\<in>set (concat (map (rep R) g)). 0 \<le> x \<and> x < 2 ^ 31"
  proof -
    have "0 \<le> x \<and> x < int (?m + length rs)" if "x \<in> set (concat (map (rep R) g))" for x
      using that rep_symbols [OF R] sym by (fastforce simp: symbols_below_def)
    moreover have "?m + length rs < 2 ^ 31" using lenrs tot bs'(4) fits(2) by linarith
    ultimately show ?thesis by fastforce
  qed
  have sym31: "\<forall>x\<in>set (concat g). 0 \<le> x \<and> x < 2 ^ 31" using sym fits(2) by (fastforce simp: symbols_below_def)
  have "those (map (batch ?T (int ts) (concat g) (offsets g)) [0..<?T]) = Some (map (\<lambda>k.
      (concat (batch_rows ?T ts g k), map (\<lambda>v. v + int (length (concat (take (k * ts) g)))) (starts (batch_rows ?T ts g k)))) [0..<?T])"
    using feeds sym31 fits by (intro those_batches) auto
  moreover have "those (map (\<lambda>(es, vs). replace tables (map i_convert ids) es vs) (map (\<lambda>k.
      (concat (batch_rows ?T ts g k), map (\<lambda>v. v + int (length (concat (take (k * ts) g)))) (starts (batch_rows ?T ts g k)))) [0..<?T])) =
      Some (map (\<lambda>k. (concat (map (rep R) (batch_rows ?T ts g k)), starts (map (rep R) (batch_rows ?T ts g k)))) [0..<?T])"
    using lt bs(2) feeds sym31 fits by (intro those_replace) (auto simp: R_def ids_def)
  moreover have "fold append_batch (map (\<lambda>k. (concat (map (rep R) (batch_rows ?T ts g k)), starts (map (rep R) (batch_rows ?T ts g k)))) [0..<?T]) ([], []) =
      (concat (map (rep R) g), starts (map (rep R) g))"
    using sym_new len_new fits bs(2) by (intro join_batches) auto
  moreover have "fold append_rules ids (concat (map (rep R) g), starts (map (rep R) g)) =
      (concat (map (rep R) g @ rs), starts (map (rep R) g @ rs))"
  proof -
    have "\<forall>t\<in>set tables. mset (order t) = mset t \<and> distinct (map fst t)"
      using order processpairs_keys(1) by (auto simp: tables_def)
    then show ?thesis
      unfolding ids_def rs_def using assign_ids_rules [of tables order "int ?m" "map (rep R) g"] tot bs'(4) fits len_new by simp
  qed
  moreover have "to_u32 (int (length (concat (map (rep R) g @ rs)))) = int (length (concat (map (rep R) g @ rs)))"
    using len_rs len_new lenrs tot bs'(4) fits by simp
  moreover have "to_u32 (int (length (offsets (map (rep R) g @ rs))) - 2) = int (length (map (rep R) g @ rs)) - 1"
  proof -
    have "?m + length rs < 2 ^ 31" "0 < ?m" using lenrs tot bs'(4) fits(2) feeds by (auto simp: feeds_def)
    then have "to_u32 (int (?m + length rs) - 1) = int (?m + length rs) - 1" by (intro to_u32_id) (linarith, simp)
    then show ?thesis by simp
  qed
  ultimately have "par_turn thr order L \<lparr>p_edge = concat g, p_vertex = offsets g, p_max_id = int ?m - 1, p_buckets = bs\<rparr> =
      Some \<lparr>p_edge = concat (map (rep R) g @ rs), p_vertex = offsets (map (rep R) g @ rs),
        p_max_id = int (length (map (rep R) g @ rs)) - 1, p_buckets = bs'\<rparr>"
    unfolding par_turn_def using bs'(1) fits(2)
    by (simp add: Let_def L tables_def [symmetric] ids_def [symmetric] offsets_starts)
  then show ?thesis using R bs' lenrs tot by (intro exI [of _ R] exI [of _ rs] exI [of _ bs']) auto
qed

subsection \<open>Undoing a turn\<close>

text \<open>Replace every symbol from \<open>m\<close> on by its row, and drop these rows.\<close>

definition undo :: "nat \<Rightarrow> graph \<Rightarrow> graph" where
  "undo m g = map (\<lambda>row. concat (map (\<lambda>x. if x < int m then [x] else g ! nat x) row)) (take m g)"

lemma undo_row:
  assumes "names_rules m rs R" "\<forall>x\<in>set xs. 0 \<le> x \<and> x < int m" "length h = m"
  shows "concat (map (\<lambda>x. if x < int m then [x] else (h @ rs) ! nat x) (rep R xs)) = xs"
  using assms
proof (induction R xs rule: rep.induct)
  case (1 R x y zs)
  show ?case
  proof (cases "R x y")
    case (Some z)
    then obtain j where "j < length rs" "z = int (m + j)" "rs ! j = [x, y]" using names_rulesD [OF 1(3), of x y z] 1(4) by auto
    moreover have "concat (map (\<lambda>x. if x < int m then [x] else (h @ rs) ! nat x) (rep R zs)) = zs" using 1(2) [OF Some 1(3)] 1(4,5) by simp
    ultimately show ?thesis using Some 1(5) by (simp add: nth_append)
  next
    case None
    then have "concat (map (\<lambda>x. if x < int m then [x] else (h @ rs) ! nat x) (rep R (y # zs))) = y # zs" using 1(1) [OF None 1(3)] 1(4,5) by simp
    then show ?thesis using None 1(4) by simp
  qed
qed auto

lemma undo_turn:
  assumes "names_rules (length g) rs R" "symbols_below (length g) g"
  shows "undo (length g) (map (rep R) g @ rs) = g"
proof (rule nth_equalityI)
  fix i assume "i < length (undo (length g) (map (rep R) g @ rs))"
  then have i: "i < length g" by (simp add: undo_def)
  have "\<forall>x\<in>set (g ! i). 0 \<le> x \<and> x < int (length g)" using assms(2) i by (auto simp: symbols_below_def)
  then show "undo (length g) (map (rep R) g @ rs) ! i = g ! i"
    using undo_row [OF assms(1), of "g ! i" "map (rep R) g"] i by (simp add: undo_def)
qed (simp add: undo_def)

lemma feeds_turn:
  assumes "feeds T ts g" "0 < T"
  shows "feeds T ts (map (rep R) g @ rs)"
proof -
  have "concat (batch_rows T ts (map (rep R) g @ rs) k) \<noteq> []" if k: "k < T" for k
  proof -
    have g: "concat (batch_rows T ts g k) \<noteq> []" using assms(1) k by (simp add: feeds_def)
    have "\<exists>rest. batch_rows T ts (map (rep R) g @ rs) k = map (rep R) (batch_rows T ts g k) @ rest"
    proof (cases "Suc k < T")
      case True
      then have "Suc k * ts \<le> (T - 1) * ts" by (intro mult_le_mono1) auto
      then have le: "Suc k * ts \<le> length g" using assms(1) unfolding feeds_def by (meson order_trans)
      then show ?thesis using True by (intro exI [of _ "[]"]) (simp add: batch_rows_def slice_def drop_map take_map)
    next
      case False
      then show ?thesis by (auto simp: batch_rows_def drop_map)
    qed
    moreover obtain row where "row \<in> set (batch_rows T ts g k)" "rep R row \<noteq> []" using g by auto
    ultimately show ?thesis by fastforce
  qed
  then show ?thesis using assms by (auto simp: feeds_def nth_append)
qed

text \<open>The state before a turn, with bounds for its sizes.\<close>

definition par_ok :: "nat \<Rightarrow> nat \<Rightarrow> nat \<Rightarrow> nat \<Rightarrow> nat \<Rightarrow> graph \<Rightarrow> par_state \<Rightarrow> bool" where
  "par_ok T ts E B m g P \<longleftrightarrow>
     p_edge P = concat g \<and> p_vertex P = offsets g \<and> p_max_id P = int (length g) - 1 \<and> length (p_buckets P) = T \<and>
     keys_below (length g) (p_buckets P) \<and> symbols_below (length g) g \<and> feeds T ts g \<and>
     length (concat g) \<le> E \<and> length (concat (p_buckets P)) \<le> B \<and> length g \<le> m"

lemma par_turn_ok:
  assumes ok: "par_ok T ts E B m g P" and order: "\<And>t. mset (order t) = mset t" and T: "0 < T" "L div int T = int ts"
    and fits: "E + 2 * (B + E) < 2 ^ 31" "m + (B + E) < 2 ^ 31"
  shows "\<exists>P' g'. par_turn thr order L P = Some P' \<and> par_ok T ts (E + 2 * (B + E)) (B + E) (m + (B + E)) g' P' \<and>
    length g \<le> length g' \<and> undo (length g) g' = g"
proof -
  have P: "P = \<lparr>p_edge = concat g, p_vertex = offsets g, p_max_id = int (length g) - 1, p_buckets = p_buckets P\<rparr>"
    and bs: "keys_below (length g) (p_buckets P)" "p_buckets P \<noteq> []" "length (p_buckets P) = T"
    and sym: "symbols_below (length g) g" and fd: "feeds T ts g"
    and sz: "length (concat g) \<le> E" "length (concat (p_buckets P)) \<le> B" "length g \<le> m"
    using ok T(1) by (auto simp: par_ok_def)
  obtain R rs bs' where run: "par_turn thr order L P = Some \<lparr>p_edge = concat (map (rep R) g @ rs), p_vertex = offsets (map (rep R) g @ rs),
        p_max_id = int (length (map (rep R) g @ rs)) - 1, p_buckets = bs'\<rparr>"
    and nr: "names_rules (length g) rs R" and bs': "keys_below (length g) bs'" "length bs' = T"
      "length (concat bs') \<le> length (concat (p_buckets P)) + length (concat g)" "length rs \<le> length (concat bs')"
    using par_turn_rows [OF order bs(1,2) sym, of ts L thr] fd T(2) bs(3) sz fits P by fastforce
  have "symbols_below (length (map (rep R) g @ rs)) (map (rep R) g @ rs)"
  proof -
    have "0 \<le> x \<and> x < int (length g + length rs)" if "x \<in> set (concat (map (rep R) g))" for x
      using that rep_symbols [OF nr] sym by (fastforce simp: symbols_below_def)
    moreover have "0 \<le> x \<and> x < int (length g + length rs)" if "x \<in> set (concat rs)" for x
      using that nr by (fastforce simp: names_rules_def)
    ultimately show ?thesis by (auto simp: symbols_below_def)
  qed
  moreover have "length (concat (map (rep R) g)) \<le> length (concat g)"
    unfolding length_concat using length_rep by (simp add: comp_def sum_list_mono)
  moreover have "length (concat rs) = 2 * length rs" using nr by (intro length_pairs) (auto simp: names_rules_def)
  ultimately have "par_ok T ts (E + 2 * (B + E)) (B + E) (m + (B + E)) (map (rep R) g @ rs) \<lparr>p_edge = concat (map (rep R) g @ rs),
      p_vertex = offsets (map (rep R) g @ rs), p_max_id = int (length (map (rep R) g @ rs)) - 1, p_buckets = bs'\<rparr>"
    using feeds_turn [OF fd T(1), of R rs] keys_below_mono [OF bs'(1), of "length g + length rs"] bs' sz
    by (simp add: par_ok_def)
  then show ?thesis using run undo_turn [OF nr sym] by (intro exI conjI) (assumption | simp)+
qed


definition sample_graph :: graph where
  "sample_graph = [[1, 2, 1, 2], [1, 2, 0], [1, 2]]"


subsection \<open>Inputs without a defined result\<close>

lemma for_range_Some_at:
  assumes "for_range lo hi f s = Some s'" "lo \<le> i" "i < hi"
  shows "\<exists>t t'. f i t = Some t'"
  using assms
proof (induction lo hi f s rule: for_range.induct)
  case (1 j n f s)
  then obtain t where t: "f j s = Some t" "for_range (j + 1) n f t = Some s'"
    by (auto simp: for_range_step split: option.splits)
  show ?case
  proof (cases "j = i")
    case True
    then show ?thesis using t(1) by blast
  next
    case False
    then show ?thesis using "1.IH" [OF _ t(1) t(2)] "1.prems" by auto
  qed
qed

lemma those_None: "x \<in> set xs \<Longrightarrow> f x = None \<Longrightarrow> those (map f xs) = None"
  by (induction xs) (auto split: option.splits)

text \<open>
  Property C31. The parallel compressor has no defined result on a graph whose first vertex has no
  neighbours, where a bound of type \<open>uint32_t\<close> wraps around, nor on a graph with fewer offsets than
  threads, where a thread gets no row.
\<close>

theorem par_repair_undefined:
  assumes "g \<noteq> []" "g ! 0 = [] \<and> length (concat g) < 2 ^ 32 - 1 \<or> Suc (length g) < T"
  shows "par_repair T thr order (concat g) (offsets g) max_symbol = None"
proof -
  let ?P = "\<lparr>p_edge = concat g, p_vertex = offsets g, p_max_id = max_symbol, p_buckets = replicate T []\<rparr>"
  have "par_turn thr order (int (Suc (length g))) ?P = None"
    using assms(2)
  proof
    assume e: "g ! 0 = [] \<and> length (concat g) < 2 ^ 32 - 1"
    have "collect_pairs (concat g) (offsets g) bs \<noteq> Some bs'" for bs bs'
    proof
      assume "collect_pairs (concat g) (offsets g) bs = Some bs'"
      then obtain t t' where "do {
         start \<leftarrow> vec_at (offsets g) 0;
         fin \<leftarrow> vec_at (offsets g) (0 + 1);
         for_range start (to_u32 (fin - 1)) (\<lambda>idx buckets. do {
           x \<leftarrow> vec_at (concat g) idx;
           y \<leftarrow> vec_at (concat g) (idx + 1);
           push_at buckets (x mod int (length buckets)) (pair_hash x y)
         }) t
       } = Some t'"
        using for_range_Some_at [of 0 "int (length g)" _ bs bs' 0] assms(1) by (fastforce simp: collect_pairs_def)
      moreover have "offsets g ! 0 = 0" "offsets g ! 1 = 0" using assms(1) e by (cases g; simp add: offsets_nth)+
      moreover have "to_u32 (-1) = 2 ^ 32 - 1" by (simp add: to_u32_def)
      moreover have "0 < length g" using assms(1) by simp
      ultimately have "for_range 0 (2 ^ 32 - 1) (\<lambda>idx buckets. do {
           x \<leftarrow> vec_at (concat g) idx;
           y \<leftarrow> vec_at (concat g) (idx + 1);
           push_at buckets (x mod int (length buckets)) (pair_hash x y)
         }) t = Some t'" by (simp add: vec_at_def)
      from for_range_Some_at [OF this, of "2 ^ 32 - 2"]
      obtain x where "vec_at (concat g) (2 ^ 32 - 2) = Some x" by (auto simp: bind_eq_Some_conv)
      then show False using e by (auto simp: vec_at_def split: if_splits)
    qed
    then show ?thesis by (cases "collect_pairs (concat g) (offsets g) (replicate T [])") (auto simp: par_turn_def)
  next
    assume T: "Suc (length g) < T"
    then have ts: "int (Suc (length g)) div int T = 0" by (simp add: zdiv_int)
    have "batch T 0 (concat g) (offsets g) 0 = Some ([], [])"
      using T by (simp add: batch_def subvec_def vec_at_def offsets_nth slice_def)
    then have first: "b = ([], [])" if "those (map (batch T 0 (concat g) (offsets g)) [0..<T]) = Some (b # bs)" for b bs
      using that T by (auto simp: upt_conv_Cons split: option.splits)
    have "those (map (\<lambda>(es, vs). replace tables cvts es vs) batches) = None"
      if those: "those (map (batch T 0 (concat g) (offsets g)) [0..<T]) = Some batches" for tables cvts batches
    proof (cases batches)
      case Nil
      then show ?thesis using those T by (auto simp: upt_conv_Cons split: option.splits)
    next
      case (Cons b bs)
      then have "b = ([], [])" using first those by simp
      then show ?thesis using Cons by (simp add: replace_def vec_at_def)
    qed
    then show ?thesis
      by (auto simp: par_turn_def ts Let_def simp del: of_nat_Suc split: Option.bind_splits)
  qed
  then show ?thesis by (simp add: par_repair_def numeral_3_eq_3 del: of_nat_Suc)
qed

theorem par_repair_undefined_witness: "par_main id [0, 1] [0, 2, 2] 1 = None \<and> par_repair 1 4 id [0] [0, 0, 1] 1 = None"
  using par_repair_undefined [of "[[0, 1], []]" 40 4 id 1] par_repair_undefined [of "[[], [0]]" 1 4 id 1]
  by (simp add: par_main_def offsets_def)

end
