(* ===== verification/Parallel_Check.thy ===== *)
theory Parallel_Check
  imports Check Parallel_Repair
begin

text \<open>
  The two self-checks of the parallel compressor, \<open>Laconic_parallel/core/check.h\<close>: \<open>check\<close>, which
  decompresses recursively, and \<open>check_csr\<close>, the check of the serial compressor over
  \<open>uint32_t\<close>.  Each is told the original and the compressed graph in compressed sparse rows.
  What they print is left out; \<open>check\<close>, which only prints, gets as its result the vertex for which it
  prints a difference.
\<close>

subsection \<open>The recursive check\<close>

text \<open>
  The loop of \<open>decompress\<close> from the position \<open>i\<close> on.  The argument \<open>compress_v\<close> of \<open>decompress\<close> is not
  used: the bounds of the row of a rule are its identifier and the symbol after it.
\<close>

partial_function (option) decompress_from :: "int \<Rightarrow> int list \<Rightarrow> int \<Rightarrow> int list \<Rightarrow> int list \<Rightarrow> int list option" where
  "decompress_from max_id compressed_vec i temp_vec compress_e =
     (if i < int (length compressed_vec) then do {
        x \<leftarrow> vec_at compressed_vec i;
        if x > max_id then do {
          y \<leftarrow> vec_at compressed_vec (i + 1);
          new_vec \<leftarrow> subvec compress_e x y;
          new_role \<leftarrow> decompress_from max_id new_vec 0 [] compress_e;
          decompress_from max_id compressed_vec (i + 1) (temp_vec @ new_role) compress_e
        } else decompress_from max_id compressed_vec (i + 1) (temp_vec @ [x]) compress_e
      } else Some temp_vec)"

declare decompress_from.simps [code]

definition decompress :: "int \<Rightarrow> int list \<Rightarrow> int list \<Rightarrow> int list \<Rightarrow> int list option" where
  "decompress max_id compressed_vec compress_v compress_e = decompress_from max_id compressed_vec 0 [] compress_e"

text \<open>
  The loop of \<open>check\<close>.  Its bound \<open>origin_v.size() - 2\<close> is computed in \<open>size_t\<close>, its counter is a \<open>uint32_t\<close>.
\<close>

partial_function (option) check_from ::
  "int list \<Rightarrow> int list \<Rightarrow> int list \<Rightarrow> int list \<Rightarrow> int \<Rightarrow> int \<Rightarrow> int option option" where
  "check_from origin_v origin_e compress_v compress_e max_id j =
     (if j < to_u64 (int (length origin_v) - 2) then do {
        a \<leftarrow> vec_at origin_v j;
        b \<leftarrow> vec_at origin_v (to_u32 (j + 1));
        temp \<leftarrow> subvec origin_e a b;
        c \<leftarrow> vec_at compress_v j;
        d \<leftarrow> vec_at compress_v (to_u32 (j + 1));
        row \<leftarrow> subvec compress_e c d;
        compress_temp \<leftarrow> decompress max_id row compress_v compress_e;
        if length temp \<noteq> length compress_temp then Some (Some j)
        else if list_ex (\<lambda>(x, y). x \<noteq> y) (zip temp compress_temp) then Some (Some j)
        else check_from origin_v origin_e compress_v compress_e max_id (to_u32 (j + 1))
      } else Some None)"

declare check_from.simps [code]

definition check :: "int list \<Rightarrow> int list \<Rightarrow> int list \<Rightarrow> int list \<Rightarrow> int \<Rightarrow> int option option" where
  "check origin_v origin_e compress_v compress_e max_id =
     check_from origin_v origin_e compress_v compress_e max_id 0"

subsection \<open>The check with a stack\<close>

text \<open>
  The loops are those of the serial check: \<open>par_csr_convert\<close> and \<open>par_successors\<close> read the rows of the two
  graphs, \<open>par_check_from\<close> compares them vertex by vertex.
\<close>

definition par_csr_convert :: "graph \<Rightarrow> int list \<Rightarrow> int list \<Rightarrow> int \<Rightarrow> graph option" where
  "par_csr_convert graph vlist elist vertex_cnt =
     for_range 0 vertex_cnt (\<lambda>v graph. do {
       start \<leftarrow> vec_at vlist v;
       end \<leftarrow> vec_at vlist (v + 1);
       for_range start end (\<lambda>e graph. do { x \<leftarrow> vec_at elist e; push_at graph v x }) graph
     }) graph"

definition par_ori_successors :: "graph \<Rightarrow> int \<Rightarrow> int list option" where
  "par_ori_successors gp vertexID = do {
     row \<leftarrow> vec_at gp vertexID;
     for_range 0 (int (length row)) (\<lambda>i re. do { x \<leftarrow> vec_at row i; Some (re @ [x]) }) []
   }"

partial_function (option) par_push_successors ::
  "int list \<Rightarrow> graph \<Rightarrow> int list \<Rightarrow> int \<Rightarrow> int list option" where
  "par_push_successors result cg PQ vertex_cnt =
     (case PQ of
        [] \<Rightarrow> Some result
      | ruleID # PQ' \<Rightarrow> do {
          row \<leftarrow> vec_at cg ruleID;
          st \<leftarrow> push_row row vertex_cnt (PQ', result);
          par_push_successors (snd st) cg (fst st) vertex_cnt
        })"

declare par_push_successors.simps [code]

definition par_compress_successors :: "graph \<Rightarrow> int \<Rightarrow> int \<Rightarrow> int list option" where
  "par_compress_successors cg vertexID vertex_cnt = do {
     row \<leftarrow> vec_at cg vertexID;
     for_range 0 (int (length row)) (\<lambda>i re. do {
       dst \<leftarrow> vec_at row i;
       if dst \<ge> vertex_cnt then par_push_successors re cg [dst] vertex_cnt
       else Some (re @ [dst])
     }) []
   }"

definition par_compare :: "int list \<Rightarrow> int list \<Rightarrow> bool" where
  "par_compare a b = (sort a = sort b)"

function par_check_from :: "graph \<Rightarrow> graph \<Rightarrow> int \<Rightarrow> int \<Rightarrow> bool option" where
  "par_check_from graph cg vertex_cnt v =
     (if v < vertex_cnt then do {
        ori_successors \<leftarrow> par_ori_successors graph v;
        compress_successors \<leftarrow> par_compress_successors cg v vertex_cnt;
        if par_compare ori_successors compress_successors \<noteq> True then Some False
        else par_check_from graph cg vertex_cnt (v + 1)
      } else Some True)"
  by pat_completeness auto
termination
  by (relation "measure (\<lambda>(graph, cg, n, v). nat (n - v))") auto

declare par_check_from.simps [simp del]

text \<open>The sum of the two numbers is computed in \<open>uint32_t\<close>.\<close>

definition par_check_csr :: "int list \<Rightarrow> int list \<Rightarrow> int list \<Rightarrow> int list \<Rightarrow> int \<Rightarrow> int \<Rightarrow> bool option" where
  "par_check_csr vlist elist compress_vlist compress_elist vertex_cnt rule_cnt = do {
     graph \<leftarrow> par_csr_convert (replicate (nat vertex_cnt) []) vlist elist vertex_cnt;
     compressed_graph \<leftarrow> par_csr_convert (replicate (nat (to_u32 (vertex_cnt + rule_cnt))) [])
       compress_vlist compress_elist (to_u32 (vertex_cnt + rule_cnt));
     par_check_from graph compressed_graph vertex_cnt 0
   }"

subsection \<open>The check with a stack is the serial check\<close>

lemma par_csr_convert_eq: "par_csr_convert = csr_convert"
  by (intro ext) (simp add: par_csr_convert_def csr_convert_def)

lemma par_push_successors_eq: "par_push_successors result cg PQ n = push_successors result cg PQ n"
proof -
  have 1: "push_successors result cg PQ n = Some r" if "par_push_successors result cg PQ n = Some r" for r
  proof (rule par_push_successors.raw_induct [where P = "\<lambda>result cg PQ n r. push_successors result cg PQ n = Some r"])
    fix F result cg PQ n r
    assume "\<And>result cg PQ n r. F result cg PQ n = Some r \<Longrightarrow> push_successors result cg PQ n = Some r"
      and "(case PQ of [] \<Rightarrow> Some result
        | ruleID # PQ' \<Rightarrow> do { row \<leftarrow> vec_at cg ruleID; st \<leftarrow> push_row row n (PQ', result); F (snd st) cg (fst st) n })
          = Some r"
    then show "push_successors result cg PQ n = Some r"
      by (subst push_successors.simps) (auto split: list.splits Option.bind_splits)
  qed (use that in simp)
  have 2: "par_push_successors result cg PQ n = Some r" if "push_successors result cg PQ n = Some r" for r
  proof (rule push_successors.raw_induct [where P = "\<lambda>result cg PQ n r. par_push_successors result cg PQ n = Some r"])
    fix F result cg PQ n r
    assume "\<And>result cg PQ n r. F result cg PQ n = Some r \<Longrightarrow> par_push_successors result cg PQ n = Some r"
      and "(case PQ of [] \<Rightarrow> Some result
        | ruleID # PQ' \<Rightarrow> do { row \<leftarrow> vec_at cg ruleID; st \<leftarrow> push_row row n (PQ', result); F (snd st) cg (fst st) n })
          = Some r"
    then show "par_push_successors result cg PQ n = Some r"
      by (subst par_push_successors.simps) (auto split: list.splits Option.bind_splits)
  qed (use that in simp)
  show ?thesis using 1 2 by (metis option.exhaust)
qed

lemma par_check_from_eq: "par_check_from g cg n v = check_vertices g cg n v"
proof (induction g cg n v rule: par_check_from.induct)
  case (1 g cg n v)
  have ori: "par_ori_successors g v = get_ori_successors g v"
    by (simp add: par_ori_successors_def get_ori_successors_def)
  have comp: "par_compress_successors cg v n = get_compress_successors cg v n"
    unfolding par_compress_successors_def get_compress_successors_def par_push_successors_eq by (rule refl)
  show ?case
    using 1 unfolding ori comp
    by (subst par_check_from.simps, subst check_vertices.simps)
      (auto simp: ori comp par_compare_def compare_def split: Option.bind_splits)
qed

lemma par_check_csr_eq:
  assumes "n + r < 2 ^ 32"
  shows "par_check_csr vlist elist cvlist celist (int n) (int r) = check_csr vlist elist cvlist celist (int n) (int r)"
proof -
  have "to_u32 (int n + int r) = int n + int r" using assms by (simp add: to_u32_def)
  then show ?thesis by (simp add: par_check_csr_def check_csr_def par_csr_convert_eq par_check_from_eq)
qed

subsection \<open>Properties\<close>

text \<open>
  With fewer than \<open>2\<^sup>3\<^sup>2\<close> vertices and rules, \<open>check_csr\<close> of the parallel compressor ends without an
  access out of range on well-formed graphs, and returns \<open>true\<close> exactly when every vertex has the
  same neighbours, with the same multiplicities, in the graph and in what its compressed row
  expands to.
\<close>

lemma par_check_csr_decides:
  assumes "n + r < 2 ^ 32" and "wf_csr n vlist elist" and "wf_csr (n + r) cvlist celist"
    and "wf_grammar (csr_graph (n + r) cvlist celist) (int n)"
  shows "par_check_csr vlist elist cvlist celist (int n) (int r) =
    Some (\<forall>v<n. mset (csr_row vlist elist v)
      = mset (neighbours (csr_graph (n + r) cvlist celist) (int n) v))"
  using csr.check_loaded [of "(vlist, elist)" n "(cvlist, celist)" "n + r"] assms
  by (simp add: par_check_csr_eq check_csr_def)

text \<open>
  Property C34.  \<open>decompress\<close> has no defined result on a row whose last symbol is a rule: it reads the symbol after
  the last one.  Before that it takes the identifier of a rule for a position in the edges.
\<close>

theorem decompress_undefined:
  assumes "max_id < x"
  shows "decompress max_id (xs @ [x]) compress_v compress_e = None"
proof -
  have "decompress_from max_id (xs @ [x]) (int i) temp compress_e = None" if "i \<le> length xs" for i temp
    using that
  proof (induction "length xs - i" arbitrary: i temp)
    case 0
    then have i: "i = length xs" by simp
    have "vec_at (xs @ [x]) (int i) = Some x" "vec_at (xs @ [x]) (int i + 1) = None"
      by (simp_all add: i vec_at_def nth_append)
    then show ?case using assms i by (subst decompress_from.simps) simp
  next
    case (Suc k)
    have "decompress_from max_id (xs @ [x]) (int i + 1) temp' compress_e = None" for temp'
      using Suc.hyps(1) [of "Suc i" temp'] Suc.hyps(2) by (simp add: add.commute)
    then show ?case using Suc.prems by (subst decompress_from.simps) (auto split: Option.bind_splits)
  qed
  from this [of 0] show ?thesis by (simp add: decompress_def)
qed

theorem decompress_undefined_witness:
  "decompress 1 ([0] @ [2]) [0, 1, 3, 5] [2, 0, 2, 0, 1] = None"
  using decompress_undefined [of 1 2 "[0]"] by simp

end
