(* ===== verification/Parallel_Filter.thy ===== *)
theory Parallel_Filter
  imports Rule_Filter
begin

text \<open>
  The rule filter of the parallel compressor, \<open>Laconic_parallel/core/filter.h\<close>: the serial filter over
  \<open>uint32_t\<close>, except that merging a rule adds the number of users of a child to its \<open>freq\<close> where the serial
  code sets \<open>freq\<close> to this number.  The identifiers are sums in \<open>uint32_t\<close>; \<open>len\<close> and \<open>freq\<close> are of
  type \<open>int\<close> as in the serial code.
\<close>

subsection \<open>The code\<close>

definition par_judgeRule :: "int \<Rightarrow> int \<Rightarrow> int \<Rightarrow> bool option" where
  "par_judgeRule threshold l f = do {
     a \<leftarrow> i32_arith (f - 1);
     b \<leftarrow> i32_arith (l - 1);
     c \<leftarrow> i32_arith (a * b);
     d \<leftarrow> i32_arith (c - 1);
     Some (d \<le> threshold)
   }"

definition par_merge_parent :: "int \<Rightarrow> int \<Rightarrow> int \<Rightarrow> int \<Rightarrow> filter_state \<Rightarrow> filter_state option" where
  "par_merge_parent threshold vertex_cnt ID node st = do {
     row \<leftarrow> vec_at (fs_graph st) node;
     sub \<leftarrow> vec_at (fs_graph st) ID;
     row' \<leftarrow> (if node = ID then None else splice_first ID sub row);
     graph' \<leftarrow> vec_set (fs_graph st) node row';
     if vertex_cnt \<le> node then do {
       info \<leftarrow> vec_at (fs_rif st) (node - vertex_cnt);
       let info' = info\<lparr>len := to_i32 (len info + (int (length sub) - 1))\<rparr>;
       rif' \<leftarrow> vec_set (fs_rif st) (node - vertex_cnt) info';
       flag \<leftarrow> par_judgeRule threshold (len info') (freq info');
       merge_flag' \<leftarrow> vec_set (fs_flag st) (node - vertex_cnt) flag;
       Some (st\<lparr>fs_graph := graph', fs_rif := rif', fs_flag := merge_flag'\<rparr>)
     } else Some (st\<lparr>fs_graph := graph'\<rparr>)
   }"

definition par_merge_child :: "int \<Rightarrow> int \<Rightarrow> int \<Rightarrow> int \<Rightarrow> filter_state \<Rightarrow> filter_state option" where
  "par_merge_child threshold vertex_cnt ID child_id st = do {
     users \<leftarrow> vec_at (fs_graphT st) child_id;
     sup \<leftarrow> vec_at (fs_graphT st) ID;
     users' \<leftarrow> (if child_id = ID then None else splice_first ID sup users);
     graphT' \<leftarrow> vec_set (fs_graphT st) child_id users';
     if vertex_cnt \<le> child_id then do {
       info \<leftarrow> vec_at (fs_rif st) (child_id - vertex_cnt);
       let info' = info\<lparr>freq := to_i32 (freq info + int (length users'))\<rparr>;
       rif' \<leftarrow> vec_set (fs_rif st) (child_id - vertex_cnt) info';
       flag \<leftarrow> par_judgeRule threshold (len info') (freq info');
       merge_flag' \<leftarrow> vec_set (fs_flag st) (child_id - vertex_cnt) flag;
       Some (st\<lparr>fs_graphT := graphT', fs_rif := rif', fs_flag := merge_flag'\<rparr>)
     } else Some (st\<lparr>fs_graphT := graphT'\<rparr>)
   }"

definition par_mergeRule :: "int \<Rightarrow> int \<Rightarrow> int \<Rightarrow> filter_state \<Rightarrow> filter_state option" where
  "par_mergeRule threshold vertex_cnt rule_id st = do {
     let ID = to_u32 (rule_id + vertex_cnt);
     parents \<leftarrow> vec_at (fs_graphT st) ID;
     st1 \<leftarrow> for_each (par_merge_parent threshold vertex_cnt ID) parents st;
     children \<leftarrow> vec_at (fs_graph st1) ID;
     for_each (par_merge_child threshold vertex_cnt ID) children st1
   }"

definition par_initInfoForRule :: "int \<Rightarrow> int \<Rightarrow> int \<Rightarrow> filter_state \<Rightarrow> filter_state option" where
  "par_initInfoForRule threshold vertex_cnt rule_cnt st =
     for_range 0 rule_cnt (\<lambda>i st. do {
       users \<leftarrow> vec_at (fs_graphT st) (to_u32 (i + vertex_cnt));
       row \<leftarrow> vec_at (fs_graph st) (to_u32 (i + vertex_cnt));
       let info = \<lparr>len = to_i32 (int (length row)), freq = to_i32 (int (length users))\<rparr>;
       rif' \<leftarrow> vec_set (fs_rif st) i info;
       flag \<leftarrow> par_judgeRule threshold (len info) (freq info);
       merge_flag' \<leftarrow> vec_set (fs_flag st) i flag;
       Some (st\<lparr>fs_rif := rif', fs_flag := merge_flag'\<rparr>)
     }) st"

definition csr_convert_filter :: "graph \<Rightarrow> int list \<Rightarrow> int list \<Rightarrow> int \<Rightarrow> graph option" where
  "csr_convert_filter graph vlist elist vertex_cnt =
     for_range 0 vertex_cnt (\<lambda>v graph. do {
       start \<leftarrow> vec_at vlist v;
       end \<leftarrow> vec_at vlist (v + 1);
       for_range start end (\<lambda>e graph. do { x \<leftarrow> vec_at elist e; push_at graph v x }) graph
     }) graph"

definition csr_convert_filter_idx :: "graph \<Rightarrow> int list \<Rightarrow> int list \<Rightarrow> int \<Rightarrow> graph option" where
  "csr_convert_filter_idx graph vlist elist vertex_cnt =
     for_range 0 vertex_cnt (\<lambda>v graph. do {
       start \<leftarrow> vec_at vlist v;
       end \<leftarrow> vec_at vlist (v + 1);
       for_range start end (\<lambda>e graph. do { x \<leftarrow> vec_at elist e; push_at graph x v }) graph
     }) graph"

text \<open>The number of edges written so far is a \<open>uint32_t\<close>.\<close>

definition par_genNewGraphCSR ::
  "int list \<Rightarrow> int list \<Rightarrow> graph \<Rightarrow> int list \<Rightarrow> bool list \<Rightarrow> int \<Rightarrow> (int list \<times> int list) option" where
  "par_genNewGraphCSR vlist elist graph newRuleId merge_flag vertex_cnt =
     for_range 0 (to_u32 (int (length graph))) (\<lambda>v (vlist, elist). do {
       row \<leftarrow> vec_at graph v;
       merged \<leftarrow> is_merged merge_flag vertex_cnt v;
       if merged then Some (vlist, elist)
       else do {
         elist' \<leftarrow> for_range 0 (to_u32 (int (length row))) (\<lambda>e elist. do {
           dstID \<leftarrow> vec_at row e;
           n_dstID \<leftarrow> new_id newRuleId vertex_cnt dstID;
           Some (elist @ [n_dstID])
         }) elist;
         Some (vlist @ [to_u32 (int (length elist'))], elist')
       }
     }) (vlist @ [0], elist)"

definition par_genNewIdForRule ::
  "int list \<Rightarrow> bool list \<Rightarrow> int \<Rightarrow> int \<Rightarrow> (int list \<times> int) option" where
  "par_genNewIdForRule newRuleId merge_flag vertex_cnt rule_cnt =
     map_option (\<lambda>(ids, cur). (ids, to_u32 (cur - vertex_cnt)))
       (for_range 0 rule_cnt (\<lambda>i (ids, cur). do {
          ids' \<leftarrow> vec_set ids i cur;
          flag \<leftarrow> vec_at merge_flag i;
          Some (ids', if flag = False then to_u32 (cur + 1) else cur)
        }) (newRuleId, vertex_cnt))"

definition par_filter_step :: "int \<times> int \<Rightarrow> int \<Rightarrow> filter_state \<Rightarrow> filter_state option" where
  "par_filter_step c i st = do {
     flag \<leftarrow> vec_at (fs_flag st) i;
     if flag = True then par_mergeRule (fst c) (snd c) i st else Some st
   }"

definition par_filter_csr ::
  "int list \<Rightarrow> int list \<Rightarrow> int \<Rightarrow> int \<Rightarrow> int \<Rightarrow> (int list \<times> int list \<times> int \<times> int) option" where
  "par_filter_csr vlist elist vertex_cnt rule_cnt threshold = do {
     let size = to_u32 (vertex_cnt + rule_cnt);
     graph \<leftarrow> csr_convert_filter (replicate (nat size) []) vlist elist size;
     graphT \<leftarrow> csr_convert_filter_idx (replicate (nat size) []) vlist elist size;
     st \<leftarrow> par_initInfoForRule threshold vertex_cnt rule_cnt
       \<lparr>fs_graph = graph, fs_graphT = graphT,
        fs_rif = replicate (nat rule_cnt) \<lparr>len = 0, freq = 0\<rparr>, fs_flag = replicate (nat rule_cnt) False\<rparr>;
     st \<leftarrow> for_range 0 rule_cnt (par_filter_step (threshold, vertex_cnt)) st;
     (newRuleId, newRule_cnt) \<leftarrow>
       par_genNewIdForRule (replicate (nat rule_cnt) 0) (fs_flag st) vertex_cnt rule_cnt;
     (new_vlist, new_elist) \<leftarrow> par_genNewGraphCSR [] [] (fs_graph st) newRuleId (fs_flag st) vertex_cnt;
     Some (new_vlist, new_elist, vertex_cnt, newRule_cnt)
   }"

subsection \<open>Lengths, uses and flags\<close>

lemma par_judgeRule_eq: "par_judgeRule = judgeRule"
  by (intro ext) (simp add: par_judgeRule_def judgeRule_def)

text \<open>
  Before the rule \<open>j\<close> is visited, the rules from \<open>j\<close> on have their exact number of uses, and each earlier rule
  that was not merged at least this number, at most \<open>K\<close> more, and no flag.  The rules \<open>D\<close> are merged and flagged.
\<close>

definition par_info_ok :: "int \<Rightarrow> nat \<Rightarrow> nat \<Rightarrow> nat \<Rightarrow> nat set \<Rightarrow> filter_state \<Rightarrow> bool" where
  "par_info_ok threshold n j K D st \<longleftrightarrow>
     length (fs_graph st) = n + length (fs_rif st) \<and> length (fs_graphT st) = n + length (fs_rif st) \<and>
     length (fs_flag st) = length (fs_rif st) \<and>
     (\<forall>i<length (fs_rif st). if n + i \<in> D then fs_flag st ! i else
        len (fs_rif st ! i) = int (length (fs_graph st ! (n + i))) \<and>
        int (length (fs_graphT st ! (n + i))) \<le> freq (fs_rif st ! i) \<and>
        freq (fs_rif st ! i) \<le> int (length (fs_graphT st ! (n + i)) + K) \<and>
        (j \<le> i \<longrightarrow> freq (fs_rif st ! i) = int (length (fs_graphT st ! (n + i)))) \<and>
        (i < j \<longrightarrow> \<not> fs_flag st ! i) \<and>
        fs_flag st ! i = judges threshold (len (fs_rif st ! i)) (freq (fs_rif st ! i)))"

lemma par_info_okD:
  assumes "par_info_ok threshold n j K D st"
  shows "length (fs_graph st) = n + length (fs_rif st)" "length (fs_graphT st) = n + length (fs_rif st)"
    "length (fs_flag st) = length (fs_rif st)"
    and "i < length (fs_rif st) \<Longrightarrow> n + i \<in> D \<Longrightarrow> fs_flag st ! i"
    and "i < length (fs_rif st) \<Longrightarrow> n + i \<notin> D \<Longrightarrow> len (fs_rif st ! i) = int (length (fs_graph st ! (n + i)))"
    and "i < length (fs_rif st) \<Longrightarrow> n + i \<notin> D \<Longrightarrow> int (length (fs_graphT st ! (n + i))) \<le> freq (fs_rif st ! i)"
    and "i < length (fs_rif st) \<Longrightarrow> n + i \<notin> D \<Longrightarrow> freq (fs_rif st ! i) \<le> int (length (fs_graphT st ! (n + i)) + K)"
    and "i < length (fs_rif st) \<Longrightarrow> n + i \<notin> D \<Longrightarrow> j \<le> i \<Longrightarrow> freq (fs_rif st ! i) = int (length (fs_graphT st ! (n + i)))"
    and "i < length (fs_rif st) \<Longrightarrow> n + i \<notin> D \<Longrightarrow> i < j \<Longrightarrow> \<not> fs_flag st ! i"
    and "i < length (fs_rif st) \<Longrightarrow> n + i \<notin> D \<Longrightarrow> fs_flag st ! i = judges threshold (len (fs_rif st ! i)) (freq (fs_rif st ! i))"
  using assms unfolding par_info_ok_def by (auto split: if_splits)

lemma par_info_ok_start: "info_ok threshold n {} st \<Longrightarrow> par_info_ok threshold n 0 K {} st"
  by (auto simp: par_info_ok_def info_ok_def)

lemma par_info_ok_mono: "par_info_ok threshold n j K D st \<Longrightarrow> K \<le> K' \<Longrightarrow> par_info_ok threshold n j K' D st"
  unfolding par_info_ok_def by (auto intro: order_trans split: if_splits)

lemma par_merge_parent_ok:
  assumes ok: "par_info_ok threshold n j K D st" and w: "w < length (fs_graph st)" "w \<notin> D" "w \<noteq> ID"
    "w < n \<or> n + j < w" and ID: "ID < length (fs_graph st)"
    and row: "splice_first (int ID) (fs_graph st ! ID) (fs_graph st ! w) = Some row'"
    and fits: "rule_fits n ((fs_graph st)[w := row']) (fs_graphT st) w"
  shows "\<exists>st'. par_merge_parent threshold (int n) (int ID) (int w) st = Some st' \<and>
    par_info_ok threshold n j K D st' \<and> fs_graph st' = (fs_graph st)[w := row'] \<and> fs_graphT st' = fs_graphT st"
proof (cases "n \<le> w")
  case False
  then show ?thesis using assms by (auto simp: par_merge_parent_def par_info_ok_def vec_simps)
next
  case True
  then obtain i where i: "w = n + i" using le_Suc_ex by blast
  have lens: "length (fs_graph st) = n + length (fs_rif st)" "length (fs_flag st) = length (fs_rif st)"
    "i < length (fs_rif st)" "length (fs_graphT st) = n + length (fs_rif st)"
    using par_info_okD(1,2,3) [OF ok] w i by auto
  have "j < i" using w(4) i by simp
  then have info: "len (fs_rif st ! i) = int (length (fs_graph st ! w))" "freq (fs_rif st ! i) = int (length (fs_graphT st ! w))"
    using par_info_okD(5,8) [OF ok lens(3)] w i by simp_all
  have fit: "judge_fits (int (length row')) (int (length (fs_graphT st ! w)))"
    using fits True w by (simp add: rule_fits_def)
  have len': "to_i32 (int (length (fs_graph st ! w)) + (int (length (fs_graph st ! ID)) - 1)) = int (length row')"
    using length_splice_first [OF row] judge_fits_bounds [OF fit] by simp
  let ?st' = "st\<lparr>fs_graph := (fs_graph st)[w := row'],
      fs_rif := (fs_rif st)[i := (fs_rif st ! i)\<lparr>len := int (length row')\<rparr>],
      fs_flag := (fs_flag st)[i := judges threshold (int (length row')) (int (length (fs_graphT st ! w)))]\<rparr>"
  have "par_merge_parent threshold (int n) (int ID) (int w) st = Some ?st'"
    using w ID row lens i info len' judgeRule_judges [OF fit]
    by (simp add: par_merge_parent_def vec_simps Let_def par_judgeRule_eq)
  moreover have "par_info_ok threshold n j K D ?st'"
    using ok lens w i info \<open>j < i\<close> unfolding par_info_ok_def by (auto simp: nth_list_update)
  ultimately show ?thesis using lens i by auto
qed

lemma par_merge_child_ok:
  assumes ok: "par_info_ok threshold n j K D st" and w: "w < length (fs_graphT st)" "w \<notin> D" "w \<noteq> ID" "w < n + j"
    and ID: "ID < length (fs_graphT st)"
    and row: "splice_first (int ID) (fs_graphT st ! ID) (fs_graphT st ! w) = Some row'"
    and T: "length (fs_graphT st ! w) \<le> T" "n \<le> w \<Longrightarrow> fs_graph st ! w \<noteq> []" "n \<le> w \<Longrightarrow> row' \<noteq> []"
    and fits: "n \<le> w \<Longrightarrow> judge_fits (int (length (fs_graph st ! w))) (int (length row' + K + T))"
  shows "\<exists>st'. par_merge_child threshold (int n) (int ID) (int w) st = Some st' \<and>
    par_info_ok threshold n j (K + T) D st' \<and> fs_graphT st' = (fs_graphT st)[w := row'] \<and> fs_graph st' = fs_graph st"
proof (cases "n \<le> w")
  case False
  have "par_info_ok threshold n j (K + T) D st" using par_info_ok_mono [OF ok] by simp
  then show ?thesis using False assms by (auto simp: par_merge_child_def par_info_ok_def vec_simps)
next
  case True
  then obtain i where i: "w = n + i" using le_Suc_ex by blast
  have lens: "length (fs_graph st) = n + length (fs_rif st)" "length (fs_flag st) = length (fs_rif st)"
    "i < length (fs_rif st)" "length (fs_graphT st) = n + length (fs_rif st)"
    using par_info_okD(1,2,3) [OF ok] w i by auto
  have "i < j" using w(4) i by simp
  define f where "f = freq (fs_rif st ! i)"
  have info: "len (fs_rif st ! i) = int (length (fs_graph st ! w))" "int (length (fs_graphT st ! w)) \<le> f"
    "f \<le> int (length (fs_graphT st ! w) + K)"
    using par_info_okD(5,6,7) [OF ok lens(3)] w i by (simp_all add: f_def)
  have "0 < int (length row')" using T(3) [OF True] by simp
  moreover have "0 \<le> f" using info(2) by linarith
  ultimately have f': "0 < f + int (length row')" "f + int (length row') \<le> int (length row' + K + T)"
    using info T by linarith+
  have fit: "judge_fits (int (length (fs_graph st ! w))) (f + int (length row'))"
    using judge_fits_mono [OF fits [OF True]] f' T(2) [OF True] by auto
  have freq': "to_i32 (f + int (length row')) = f + int (length row')"
    using judge_fits_bounds [OF fit] f' by simp
  have "\<not> judges threshold (int (length (fs_graph st ! w))) f"
    using par_info_okD(9,10) [OF ok lens(3)] w i \<open>i < j\<close> info by (simp add: f_def)
  moreover have "1 \<le> int (length (fs_graph st ! w))" using T(2) [OF True] by (cases "fs_graph st ! w") auto
  ultimately have unflagged: "\<not> judges threshold (int (length (fs_graph st ! w))) (f + int (length row'))"
    using judges_mono [of threshold "int (length (fs_graph st ! w))" "f + int (length row')" f] by auto
  let ?st' = "st\<lparr>fs_graphT := (fs_graphT st)[w := row'],
      fs_rif := (fs_rif st)[i := (fs_rif st ! i)\<lparr>freq := f + int (length row')\<rparr>],
      fs_flag := (fs_flag st)[i := False]\<rparr>"
  have "par_merge_child threshold (int n) (int ID) (int w) st = Some ?st'"
    using w ID row lens i info freq' judgeRule_judges [OF fit] unflagged
    by (simp add: par_merge_child_def vec_simps Let_def par_judgeRule_eq flip: f_def)
  moreover have "par_info_ok threshold n j (K + T) D ?st'"
    using par_info_ok_mono [OF ok, of "K + T"] lens w i info f' \<open>i < j\<close> unflagged
    unfolding par_info_ok_def by (auto simp: nth_list_update)
  ultimately show ?thesis using lens i by auto
qed

subsection \<open>Merging one rule\<close>

text \<open>
  Sizes for which no \<open>int\<close> of the filter overflows.  A rule gets at most as many uses too many as there are
  symbols in all the merged rows, times the uses it can have.
\<close>

definition par_filter_sizes :: "nat \<Rightarrow> graph \<Rightarrow> bool" where
  "par_filter_sizes n g \<longleftrightarrow> length g < 2 ^ 31 \<and> total_expansion n g < 2 ^ 31 \<and>
     (\<forall>x. n \<le> x \<and> x < length g \<longrightarrow>
        length (expand_row (rows g) (int n) (g ! x)) * (total_expansion n g + total_expansion n g * total_expansion n g) < 2 ^ 31)"

lemma par_filter_sizesD:
  assumes "par_filter_sizes n g"
  shows "filter_sizes n g" "length g < 2 ^ 31" "total_expansion n g < 2 ^ 31"
    "n \<le> x \<Longrightarrow> x < length g \<Longrightarrow>
      length (expand_row (rows g) (int n) (g ! x)) * (total_expansion n g + total_expansion n g * total_expansion n g) < 2 ^ 31"
proof -
  have "length (expand_row (rows g) (int n) (g ! y)) * total_expansion n g < 2 ^ 31" if "n \<le> y" "y < length g" for y
    using assms that unfolding par_filter_sizes_def
    by (metis (no_types, lifting) add_mult_distrib2 add_lessD1)
  then show "filter_sizes n g" using assms by (simp add: filter_sizes_def par_filter_sizes_def)
qed (use assms in \<open>auto simp: par_filter_sizes_def\<close>)

definition spread :: "nat \<Rightarrow> graph \<Rightarrow> nat set \<Rightarrow> nat" where
  "spread n g D = (\<Sum>x\<in>D. length (expand_row (rows g) (int n) (g ! x)))"

lemma spread_le: "D \<subseteq> {..<length g} \<Longrightarrow> spread n g D \<le> total_expansion n g"
proof -
  assume "D \<subseteq> {..<length g}"
  then have "spread n g D \<le> (\<Sum>x<length g. length (expand_row (rows g) (int n) (g ! x)))"
    unfolding spread_def by (intro sum_mono2) auto
  then show ?thesis by (simp add: total_expansion_def sum_list_sum_nth atLeast0LessThan)
qed

text \<open>Midway through the loops of \<open>mergeRule\<close> the rows are no longer than at their end.\<close>

lemma midway_lengths:
  assumes M: "merged_away n g0 g t D" and sound: "sound_rules n g0"
    and ID: "n \<le> ID" "ID < length g" "ID \<notin> D" and w: "w < length g" "w \<notin> D" "w \<noteq> ID"
    and pre: "count_list pre (int w) \<le> count_list (g ! ID) (int w)"
  shows "length (inline_rule ID g t ! w) \<le> length (expand_row (rows g0) (int n) (g0 ! w))"
    and "length (inline_upto ID t pre ! w) \<le> total_expansion n g0"
proof -
  note tr = merged_awayD(3) [OF M] and lent [simp] = merged_awayD(9) [OF M]
  have wf0: "wf_grammar g0 (int n)" using sound by (simp add: sound_rules_def)
  note M' = merged_away_inline [OF M wf0 ID]
  show "length (inline_rule ID g t ! w) \<le> length (expand_row (rows g0) (int n) (g0 ! w))"
    using merged_row_length [OF M' sound] w by simp
  have "length (inline_upto ID t pre ! w) \<le> length (inline_upto ID t (g ! ID) ! w)"
    using w merged_awayD(7) [OF M ID] pre transposes_count [OF tr w(1,2) ID(2,3)]
    by (intro length_inline_upto_le) simp_all
  also have "\<dots> \<le> total_expansion n g0"
    unfolding inline_upto_all using merged_occurrences [OF M' sound] w by simp
  finally show "length (inline_upto ID t pre ! w) \<le> total_expansion n g0" .
qed

lemma par_mergeRule_ok:
  assumes M: "merged_away n g0 (fs_graph st) (fs_graphT st) D" and sound: "sound_rules n g0"
    and sizes: "par_filter_sizes n g0" and ok: "par_info_ok threshold n j (S * total_expansion n g0) D st"
    and j: "n + j < length g0" "n + j \<notin> D"
    and S: "S + length (expand_row (rows g0) (int n) (g0 ! (n + j))) \<le> total_expansion n g0"
  shows "\<exists>st'. par_mergeRule threshold (int n) (int j) st = Some st' \<and>
    par_info_ok threshold n j ((S + length (expand_row (rows g0) (int n) (g0 ! (n + j)))) * total_expansion n g0) D st' \<and>
    fs_graph st' = inline_rule (n + j) (fs_graph st) (fs_graphT st) \<and>
    fs_graphT st' = inline_rule (n + j) (fs_graphT st) (fs_graph st)"
proof -
  define ID g t where "ID = n + j" and "g = fs_graph st" and "t = fs_graphT st"
  define T where "T = total_expansion n g0"
  have M': "merged_away n g0 g t D" using M by (simp add: g_def t_def)
  have ID: "n \<le> ID" "ID < length g" "ID \<notin> D" using j merged_awayD(2) [OF M'] by (auto simp: ID_def)
  note lent [simp] = merged_awayD(9) [OF M'] and self = merged_away_self [OF M' ID(1,2)]
  note leng = merged_awayD(2) [OF M']
  have selfT: "int ID \<notin> set (t ! ID)"
    using transposes_count [OF merged_awayD(3) [OF M'] ID(2,3) ID(2,3)] self
    by (simp add: count_list_0_iff)
  note fits = rule_fits_midway [OF M' sound par_filter_sizesD(1) [OF sizes] ID]
  let ?I1 = "\<lambda>pre st. par_info_ok threshold n j (S * T) D st \<and> fs_graph st = inline_upto ID g pre \<and> fs_graphT st = t"
  have "\<exists>st1. for_each (par_merge_parent threshold (int n) (int ID)) (t ! ID) st = Some st1 \<and> ?I1 (t ! ID) st1"
  proof (rule for_each_rule [where I = ?I1])
    show "?I1 [] st" using ok by (simp add: inline_upto_Nil g_def t_def T_def)
    fix pre x post s assume split: "t ! ID = pre @ x # post" and I: "?I1 pre s"
    obtain w where w: "x = int w" "w < length g" "w \<notin> D" "w \<noteq> ID"
      "count_list (t ! ID) x = count_list (g ! w) (int ID)" "count_list pre x < count_list (g ! w) (int ID)"
      by (rule merged_away_user [OF M' ID split])
    have "int ID \<in> set (g ! w)" using w(6) by (metis count_list_0_iff not_less_zero)
    then have above: "w < n \<or> n + j < w"
      using orderedD(2) [OF wf_grammar_ordered [OF merged_awayD(1) [OF M']], of "int w" "int ID"] w(2)
      by (cases "n \<le> w") (auto simp: ID_def)
    have "rule_fits n (inline_upto ID g (pre @ [x])) t w"
      using fits [of w "pre @ [x]" "[]"] w by (simp add: inline_upto_Nil)
    then show "\<exists>s'. par_merge_parent threshold (int n) (int ID) x s = Some s' \<and> ?I1 (pre @ [x]) s'"
      using par_merge_parent_ok [of threshold n j "S * T" D s w ID "inline_upto ID g (pre @ [x]) ! w"]
        inline_upto_snoc [of w g ID pre] inline_upto_self [of ID g pre] I w ID self above by simp
  qed
  then obtain st1 where st1: "for_each (par_merge_parent threshold (int n) (int ID)) (t ! ID) st = Some st1"
    "par_info_ok threshold n j (S * T) D st1" "fs_graph st1 = inline_rule ID g t" "fs_graphT st1 = t"
    by (auto simp: inline_upto_all)
  have row: "inline_rule ID g t ! ID = g ! ID"
    using inline_upto_self [OF ID(2) self] by (simp flip: inline_upto_all)
  have len: "length (g ! ID) \<le> length (expand_row (rows g0) (int n) (g0 ! ID))"
    by (rule merged_row_length [OF M' sound ID(2)])
  let ?I2 = "\<lambda>pre st. par_info_ok threshold n j ((S + length pre) * T) D st \<and> fs_graphT st = inline_upto ID t pre \<and>
      fs_graph st = inline_rule ID g t"
  have "\<exists>st2. for_each (par_merge_child threshold (int n) (int ID)) (g ! ID) st1 = Some st2 \<and> ?I2 (g ! ID) st2"
  proof (rule for_each_rule [where I = ?I2])
    show "?I2 [] st1" using st1 by (simp add: inline_upto_Nil)
    fix pre x post s assume split: "g ! ID = pre @ x # post" and I: "?I2 pre s"
    obtain w where w: "x = int w" "w < length g" "w \<notin> D" "w < ID"
      "count_list (g ! ID) x = count_list (t ! w) (int ID)" "count_list pre x < count_list (t ! w) (int ID)"
      by (rule merged_away_child [OF M' ID split])
    have cnt: "count_list pre x \<le> count_list (g ! ID) x" "count_list (pre @ [x]) x \<le> count_list (g ! ID) x"
      using split by simp_all
    have "w \<noteq> ID" using w(4) by simp
    note mid = midway_lengths [OF M' sound ID w(2,3) this]
    have ne: "inline_rule ID g t ! w \<noteq> []" "inline_upto ID t (pre @ [x]) ! w \<noteq> []" if "n \<le> w"
      using merged_awayD(6) [OF M'] merged_awayD(7) [OF M'] ID w that by (simp_all add: inline_n_nonempty inline_rule_nth)
    have "judge_fits (int (length (inline_rule ID g t ! w))) (int (length (inline_upto ID t (pre @ [x]) ! w) + (S + length pre) * T + T))"
      if "n \<le> w"
    proof -
      have "S + length pre + 1 \<le> T" using S len split by (simp add: T_def ID_def)
      then have "(S + length pre + 1) * T \<le> T * T" by (rule mult_le_mono1)
      then have "length (inline_upto ID t (pre @ [x]) ! w) + (S + length pre) * T + T \<le> T + T * T"
        using mid(2) [of "pre @ [x]"] cnt(2) w(1) by (simp add: T_def algebra_simps)
      moreover have "length (inline_rule ID g t ! w) \<le> length (expand_row (rows g0) (int n) (g0 ! w))"
        using mid(1) [of "[]"] by simp
      ultimately have "length (inline_rule ID g t ! w) * (length (inline_upto ID t (pre @ [x]) ! w) + (S + length pre) * T + T) < 2 ^ 31"
        using par_filter_sizesD(4) [OF sizes that, folded T_def] w(2) leng mult_le_mono le_less_trans by metis
      then show ?thesis
        using ne [OF that] unfolding judge_fits_def
        by (metis (no_types, lifting) add_gr_0 length_greater_0_conv of_nat_0_less_iff of_nat_less_iff of_nat_mult of_nat_numeral of_nat_power)
    qed
    then show "\<exists>s'. par_merge_child threshold (int n) (int ID) x s = Some s' \<and> ?I2 (pre @ [x]) s'"
      using par_merge_child_ok [of threshold n j "(S + length pre) * T" D s w ID "inline_upto ID t (pre @ [x]) ! w" T]
        inline_upto_snoc [of w t ID pre] inline_upto_self [of ID t pre] I w ID selfT ne mid(2) [of pre] cnt(1)
      by (simp add: ID_def T_def algebra_simps)
  qed
  then obtain st2 where st2: "for_each (par_merge_child threshold (int n) (int ID)) (g ! ID) st1 = Some st2"
    "par_info_ok threshold n j ((S + length (g ! ID)) * T) D st2" "fs_graphT st2 = inline_rule ID t g"
    "fs_graph st2 = inline_rule ID g t"
    by (auto simp: inline_upto_all)
  have "vec_at (fs_graphT st) (int ID) = Some (t ! ID)" "vec_at (fs_graph st1) (int ID) = Some (g ! ID)"
    using st1 row ID by (simp_all add: vec_simps flip: t_def)
  moreover have "to_u32 (int j + int n) = int ID"
    using ID(2) leng par_filter_sizesD(2) [OF sizes] by (simp add: ID_def to_u32_def)
  ultimately have run: "par_mergeRule threshold (int n) (int j) st = Some st2"
    using st1(1) st2(1) by (simp add: par_mergeRule_def Let_def)
  have "par_info_ok threshold n j ((S + length (expand_row (rows g0) (int n) (g0 ! ID))) * T) D st2"
    by (rule par_info_ok_mono [OF st2(2)]) (use len in simp)
  then show ?thesis using run st2 by (auto simp: ID_def g_def t_def T_def)
qed

subsection \<open>The pass over the rules\<close>

definition par_filter_aux :: "int \<times> int \<Rightarrow> nat \<Rightarrow> nat \<Rightarrow> graph \<Rightarrow> nat set \<Rightarrow> filter_state \<Rightarrow> bool" where
  "par_filter_aux c n j g0 D st \<longleftrightarrow> snd c = int n \<and> par_filter_sizes n g0 \<and> D \<subseteq> {n..<n + j} \<and>
     par_info_ok (fst c) n j (spread n g0 D * total_expansion n g0) D st"

lemma par_filter_merges:
  assumes M: "merged_away n g0 (fs_graph s) (fs_graphT s) D" and sound: "sound_rules n g0"
    and aux: "par_filter_aux c n j g0 D s" and j: "n + j < length g0" and pick: "filter_picks c j s"
  shows "n + j \<notin> D \<and> (\<exists>s'. par_filter_step c (int j) s = Some s' \<and>
    fs_graph s' = inline_rule (n + j) (fs_graph s) (fs_graphT s) \<and>
    fs_graphT s' = inline_rule (n + j) (fs_graphT s) (fs_graph s) \<and>
    par_filter_aux c n (Suc j) g0 (insert (n + j) D) s')"
proof -
  define ID where "ID = n + j"
  have ok: "par_info_ok (fst c) n j (spread n g0 D * total_expansion n g0) D s" and sizes: "par_filter_sizes n g0"
    and c: "snd c = int n" and D: "D \<subseteq> {n..<n + j}"
    using aux by (auto simp: par_filter_aux_def)
  have ID: "n \<le> ID" "ID < length (fs_graph s)" "ID \<notin> D" using j merged_awayD(2) [OF M] D by (auto simp: ID_def)
  note tr = merged_awayD(3) [OF M] and self = merged_away_self [OF M ID(1,2)] and lens = par_info_okD(1,2,3) [OF ok]
  have jr: "j < length (fs_rif s)" using ID lens by (simp add: ID_def)
  have "finite D" using D finite_subset by blast
  then have spread: "spread n g0 (insert ID D) = spread n g0 D + length (expand_row (rows g0) (int n) (g0 ! ID))"
    using ID by (simp add: spread_def)
  have "spread n g0 (insert ID D) \<le> total_expansion n g0" using D j by (intro spread_le) (auto simp: ID_def)
  then obtain s' where s': "par_mergeRule (fst c) (int n) (int j) s = Some s'"
    "par_info_ok (fst c) n j (spread n g0 (insert ID D) * total_expansion n g0) D s'"
    "fs_graph s' = inline_rule ID (fs_graph s) (fs_graphT s)" "fs_graphT s' = inline_rule ID (fs_graphT s) (fs_graph s)"
    using par_mergeRule_ok [OF M sound sizes ok j] ID spread by (auto simp: ID_def)
  have step: "par_filter_step c (int j) s = Some s'"
    using s'(1) pick c jr lens by (simp add: par_filter_step_def filter_picks_def vec_simps)
  have len': "length (fs_rif s') = length (fs_rif s)"
    using par_info_okD(1) [OF s'(2)] lens s'(3) by simp
  have row: "fs_graph s' ! ID = fs_graph s ! ID" "fs_graphT s' ! ID = fs_graphT s ! ID"
    using self ID merged_awayD(9) [OF M] transposes_count [OF tr ID(2,3) ID(2,3)] s'(3,4) by (simp_all add: inline_rule_nth)
  have "len (fs_rif s' ! j) = len (fs_rif s ! j)" "freq (fs_rif s' ! j) = freq (fs_rif s ! j)"
    using par_info_okD(5,8) [OF ok jr] par_info_okD(5,8) [OF s'(2), of j] jr len' ID row by (simp_all add: ID_def)
  then have "fs_flag s' ! j"
    using par_info_okD(10) [OF ok jr] par_info_okD(10) [OF s'(2), of j] jr len' ID pick by (simp add: ID_def filter_picks_def)
  then have "par_info_ok (fst c) n (Suc j) (spread n g0 (insert ID D) * total_expansion n g0) (insert ID D) s'"
    using s'(2) unfolding par_info_ok_def by (auto simp: ID_def less_Suc_eq)
  then have "par_filter_aux c n (Suc j) g0 (insert ID D) s'" using sizes c D by (auto simp: par_filter_aux_def ID_def)
  then show ?thesis using step s'(3,4) ID by (auto simp: ID_def)
qed

lemma par_filter_skips:
  assumes "merged_away n g0 (fs_graph s) (fs_graphT s) D" "par_filter_aux c n j g0 D s" "n + j < length g0"
    and "\<not> filter_picks c j s"
  shows "\<exists>s'. par_filter_step c (int j) s = Some s' \<and> fs_graph s' = fs_graph s \<and> fs_graphT s' = fs_graphT s \<and>
    par_filter_aux c n (Suc j) g0 D s'"
proof -
  have ok: "par_info_ok (fst c) n j (spread n g0 D * total_expansion n g0) D s" using assms(2) by (simp add: par_filter_aux_def)
  have jr: "j < length (fs_rif s)" using par_info_okD(1) [OF ok] merged_awayD(2) [OF assms(1)] assms(3) by simp
  have "par_info_ok (fst c) n (Suc j) (spread n g0 D * total_expansion n g0) D s"
    using par_info_okD [OF ok] assms(4) unfolding par_info_ok_def filter_picks_def by (auto simp: less_Suc_eq)
  moreover have "par_filter_step c (int j) s = Some s"
    using jr par_info_okD(3) [OF ok] assms(4) by (simp add: par_filter_step_def filter_picks_def vec_simps)
  ultimately show ?thesis using assms(2) by (auto simp: par_filter_aux_def)
qed

interpretation par_filtering: rule_merger fs_graph fs_graphT par_filter_step filter_picks par_filter_aux
  by unfold_locales (use par_filter_merges par_filter_skips in blast)+

subsection \<open>Reading and writing the graph\<close>

lemma csr_convert_filter_eq: "csr_convert_filter = csr_convert" "csr_convert_filter_idx = csr_convert_idx"
  by (intro ext; simp add: csr_convert_filter_def csr_convert_def csr_convert_filter_idx_def csr_convert_idx_def)+

text \<open>A loop whose steps agree as long as a growing quantity stays under a bound.\<close>

lemma for_range_bounded:
  assumes "for_range lo hi f s = Some s'" and "L \<le> \<mu> s" and "\<mu> s' \<le> (M :: int)"
    and grows: "\<And>i s s'. lo \<le> i \<Longrightarrow> i < hi \<Longrightarrow> f i s = Some s' \<Longrightarrow> \<mu> s \<le> \<mu> s'"
    and same: "\<And>i s s'. lo \<le> i \<Longrightarrow> i < hi \<Longrightarrow> L \<le> \<mu> s \<Longrightarrow> f i s = Some s' \<Longrightarrow> \<mu> s' \<le> M \<Longrightarrow> g i s = Some s'"
  shows "for_range lo hi g s = Some s'"
  using assms
proof (induction lo hi f s rule: for_range.induct)
  case (1 lo hi f s)
  show ?case
  proof (cases "lo < hi")
    case True
    then obtain t where t: "f lo s = Some t" "for_range (lo + 1) hi f t = Some s'"
      using 1(2) by (auto simp: for_range_step split: option.splits)
    have grows: "\<mu> x \<le> \<mu> y" if "lo \<le> i" "i < hi" "f i x = Some y" for i x y using 1(5) that by blast
    have "\<mu> t \<le> \<mu> s'"
    proof (rule for_range_mono_Some [OF t(2), where I = "\<lambda>_ s. \<mu> t \<le> \<mu> s"])
      fix i x y assume "lo + 1 \<le> i" "i < hi" "\<mu> t \<le> \<mu> x" "f i x = Some y"
      then show "\<mu> t \<le> \<mu> y" using grows [of i x y] by simp
    qed (use True in simp_all)
    then have "g lo s = Some t" using 1(6) [OF order_refl True 1(3) t(1)] 1(4) by simp
    moreover have "for_range (lo + 1) hi g t = Some s'"
    proof (rule 1(1) [OF True t(1) t(2) _ 1(4)])
      show "L \<le> \<mu> t" using grows [OF order_refl True t(1)] 1(3) by simp
      fix i x y assume "lo + 1 \<le> i" "i < hi" "f i x = Some y"
      then show "\<mu> x \<le> \<mu> y" using grows [of i x y] by simp
      assume "L \<le> \<mu> x" "\<mu> y \<le> M"
      then show "g i x = Some y" using 1(6) [of i x y] \<open>lo + 1 \<le> i\<close> \<open>i < hi\<close> \<open>f i x = Some y\<close> by simp
    qed
    ultimately show ?thesis using True by (simp add: for_range_step)
  qed (use 1(2) in \<open>simp add: for_range.simps\<close>)
qed

lemma par_initInfoForRule_eq:
  assumes "initInfoForRule threshold (int n) (int r) st = Some st'" "n + r < 2 ^ 32"
  shows "par_initInfoForRule threshold (int n) (int r) st = Some st'"
proof -
  have "to_u32 (i + int n) = i + int n" if "0 \<le> i" "i < int r" for i
    using that assms(2) by (simp add: to_u32_def)
  then show ?thesis using assms(1) unfolding par_initInfoForRule_def initInfoForRule_def par_judgeRule_eq
    by (elim for_range_bounded [where \<mu> = "\<lambda>_. 0" and M = 0 and L = 0]) simp_all
qed

lemma par_genNewIdForRule_eq:
  assumes "genNewIdForRule ids flag (int n) (int r) = Some (ids', c)" "0 \<le> c" "int n + c < 2 ^ 32"
  shows "par_genNewIdForRule ids flag (int n) (int r) = Some (ids', c)"
proof -
  let ?f = "\<lambda>i (ids, cur). do {
      ids' \<leftarrow> vec_set ids i cur;
      flag \<leftarrow> vec_at flag i;
      Some (ids', if flag = False then cur + 1 else cur) }"
  let ?g = "\<lambda>i (ids, cur). do {
      ids' \<leftarrow> vec_set ids i cur;
      flag \<leftarrow> vec_at flag i;
      Some (ids', if flag = False then to_u32 (cur + 1) else cur) }"
  have run: "for_range 0 (int r) ?f (ids, int n) = Some (ids', int n + c)"
    using assms(1) by (auto simp: genNewIdForRule_def)
  have "for_range 0 (int r) ?g (ids, int n) = Some (ids', int n + c)"
    using run
  proof (rule for_range_bounded [where \<mu> = snd and M = "2 ^ 32 - 1" and L = 0])
    fix i and s s' :: "int list \<times> int"
    assume st: "?f i s = Some s'"
    obtain us cur where s: "s = (us, cur)" by (cases s)
    obtain us' fl where fl: "vec_set us i cur = Some us'" "vec_at flag i = Some fl"
      and s': "s' = (us', if fl = False then cur + 1 else cur)"
      using st unfolding s by (cases "vec_set us i cur"; cases "vec_at flag i") simp_all
    show "snd s \<le> snd s'" by (simp add: s s')
    assume "0 \<le> snd s" "snd s' \<le> 2 ^ 32 - 1"
    then show "?g i s = Some s'" by (cases fl) (simp_all add: s s' fl to_u32_def)
  qed (use assms in simp_all)
  then show ?thesis using assms(2,3) by (simp add: par_genNewIdForRule_def to_u32_def)
qed

lemma par_genNewGraphCSR_eq:
  assumes "genNewGraphCSR vl el g ids flag n = Some (vl', el')" "int (length el') < 2 ^ 32" "int (length g) < 2 ^ 32"
    "\<And>row. row \<in> set g \<Longrightarrow> int (length row) < 2 ^ 32"
  shows "par_genNewGraphCSR vl el g ids flag n = Some (vl', el')"
proof -
  have row: "to_u32 (int (length row)) = int (length row)" if "vec_at g v = Some row" for row v
    using that assms(4) by (auto simp: vec_at_def to_u32_def split: if_splits)
  have mono: "length el \<le> length el'" if "for_range 0 k (\<lambda>e elist. do {
           dstID \<leftarrow> vec_at row e;
           n_dstID \<leftarrow> new_id ids n dstID;
           Some (elist @ [n_dstID])
         }) el = Some el'" "0 \<le> k" for row k el el'
    by (rule for_range_mono_Some [OF that(1), where I = "\<lambda>_ s. length el \<le> length s"])
      (use that in \<open>auto simp: bind_eq_Some_conv\<close>)
  let ?row = "\<lambda>row. \<lambda>e elist. do {
           dstID \<leftarrow> vec_at row e;
           n_dstID \<leftarrow> new_id ids n dstID;
           Some (elist @ [n_dstID])
         }"
  let ?f = "\<lambda>v (vlist, elist). do {
       row \<leftarrow> vec_at g v;
       merged \<leftarrow> is_merged flag n v;
       if merged then Some (vlist, elist)
       else do { elist' \<leftarrow> for_range 0 (int (length row)) (?row row) elist; Some (vlist @ [int (length elist')], elist') } }"
  let ?g = "\<lambda>v (vlist, elist). do {
       row \<leftarrow> vec_at g v;
       merged \<leftarrow> is_merged flag n v;
       if merged then Some (vlist, elist)
       else do { elist' \<leftarrow> for_range 0 (to_u32 (int (length row))) (?row row) elist;
         Some (vlist @ [to_u32 (int (length elist'))], elist') } }"
  have run: "for_range 0 (int (length g)) ?f (vl @ [0], el) = Some (vl', el')"
    using assms(1) unfolding genNewGraphCSR_def .
  have "for_range 0 (int (length g)) ?g (vl @ [0], el) = Some (vl', el')"
    using run
  proof (rule for_range_bounded [where \<mu> = "\<lambda>s. int (length (snd s))" and M = "2 ^ 32 - 1" and L = 0])
    fix v and s s' :: "int list \<times> int list"
    assume st: "?f v s = Some s'"
    obtain vs es where s: "s = (vs, es)" by (cases s)
    obtain w merged where w: "vec_at g v = Some w" "is_merged flag n v = Some merged"
      using st unfolding s by (cases "vec_at g v"; cases "is_merged flag n v") simp_all
    show "int (length (snd s)) \<le> int (length (snd s'))"
      using st w mono [of "int (length w)" w es] by (cases merged) (auto simp: s bind_eq_Some_conv)
    assume "int (length (snd s')) \<le> 2 ^ 32 - 1"
    then show "?g v s = Some s'"
      using st w row [OF w(1)] by (cases merged) (auto simp: s bind_eq_Some_conv to_u32_def)
  qed (use assms(2) in simp_all)
  moreover have "to_u32 (int (length g)) = int (length g)" using assms(3) by (simp add: to_u32_def)
  ultimately show ?thesis by (simp only: par_genNewGraphCSR_def)
qed

subsection \<open>The filter\<close>

lemma par_filter_csr_run:
  fixes vlist elist n r
  defines "g0 \<equiv> csr_graph (n + r) vlist elist"
  assumes wf: "wf_csr (n + r) vlist elist" and sound: "sound_rules n g0" and sizes: "par_filter_sizes n g0"
  obtains g t D flag where "merged_away n g0 g t D" "flags_merged n D flag" "length g = n + length flag"
    "par_filter_csr vlist elist (int n) (int r) threshold =
       Some (offsets (drop_rows (keeps n flag) g (length g)), concat (drop_rows (keeps n flag) g (length g)),
         int n, int (length (drop_rows (keeps n flag) g (length g)) - n))"
proof -
  have len: "length g0 = n + r" by (simp add: g0_def)
  have small: "n + r < 2 ^ 31" "total_expansion n g0 < 2 ^ 31" using par_filter_sizesD(2,3) [OF sizes] len by simp_all
  then have u32: "to_u32 (int n + int r) = int n + int r" by (simp add: to_u32_def)
  note start = merged_away_start [OF sound]
  note conv = input_graphs [OF wf sound [unfolded g0_def], folded g0_def]
  obtain st0 where st0: "initInfoForRule threshold (int n) (int r)
      \<lparr>fs_graph = g0, fs_graphT = transposed g0, fs_rif = replicate r \<lparr>len = 0, freq = 0\<rparr>, fs_flag = replicate r False\<rparr>
      = Some st0" "fs_graph st0 = g0" "fs_graphT st0 = transposed g0" "info_ok threshold n {} st0"
    using initInfoForRule_ok [of g0 n r "transposed g0" threshold "\<lparr>len = 0, freq = 0\<rparr>"]
      merged_rule_fits [OF start sound par_filter_sizesD(1) [OF sizes]] len by (auto simp: transposed_def)
  have init: "par_initInfoForRule threshold (int n) (int r)
      \<lparr>fs_graph = g0, fs_graphT = transposed g0, fs_rif = replicate r \<lparr>len = 0, freq = 0\<rparr>, fs_flag = replicate r False\<rparr>
      = Some st0"
    using par_initInfoForRule_eq [OF st0(1)] small by simp
  have "par_filter_aux (threshold, int n) n 0 g0 {} st0"
    using par_info_ok_start [OF st0(4)] sizes by (simp add: par_filter_aux_def)
  then obtain st D where st: "for_range 0 (int r) (par_filter_step (threshold, int n)) st0 = Some st"
    "merged_away n g0 (fs_graph st) (fs_graphT st) D" "par_filter_aux (threshold, int n) n r g0 D st"
    using par_filtering.pass [of n g0 st0 "{}" "(threshold, int n)" r] start sound st0 len by auto
  define g flag g' where "g = fs_graph st" and "flag = fs_flag st"
    and "g' = drop_rows (keeps n (fs_flag st)) (fs_graph st) (length (fs_graph st))"
  have ok: "par_info_ok threshold n r (spread n g0 D * total_expansion n g0) D st"
    using st(3) by (simp add: par_filter_aux_def)
  note M = st(2) [folded g_def]
  have lg: "length g = n + r" "length flag = r" "length (fs_rif st) = r"
    using par_info_okD(1,3) [OF ok] merged_awayD(2) [OF M] len by (auto simp: g_def flag_def)
  have F: "flags_merged n D flag" "length g = n + length flag"
    using st(3) lg par_info_okD(4,9) [OF ok] by (auto simp: flags_merged_def par_filter_aux_def flag_def)
  have g': "g' = drop_rows (keeps n flag) g (length g)" by (simp add: g'_def g_def flag_def)
  note arrays = merged_arrays [OF M sound F(1) lg(2) lg(1) small(2,1), folded g']
    and out = merged_output [OF M sound F, folded g']
  have ids: "par_genNewIdForRule (replicate r 0) flag (int n) (int r)
      = Some (map (\<lambda>i. int (kept_index (keeps n flag) (n + i))) [0..<r], int (length g' - n))"
  proof (rule par_genNewIdForRule_eq [OF arrays(1)])
    have "length g' < 2 ^ 31" using out(5) small len by linarith
    then have "int (length g') < 2 ^ 31" by (metis of_nat_less_numeral_power_cancel_iff)
    moreover have "int n + int (length g' - n) = int (length g')" using out(4) by (simp add: of_nat_diff)
    ultimately have "int n + int (length g' - n) < 2 ^ 31" by (simp only:)
    then show "int n + int (length g' - n) < 2 ^ 32" by (rule less_trans) simp
  qed (rule of_nat_0_le_iff)
  have row: "length row < 2 ^ 31" if row: "row \<in> set g" for row
  proof -
    obtain w where w: "w < length g" "row = g ! w" using row unfolding in_set_conv_nth by blast
    have "length (g ! w) \<le> (\<Sum>w<length g. length (g ! w))" using w(1) by (intro member_le_sum) auto
    then show ?thesis using merged_total_length [OF M sound] small(2) unfolding w(2) by linarith
  qed
  have up: "int m < 2 ^ 32" if "m < 2 ^ 31" for m
    using that by simp
  have "par_genNewGraphCSR [] [] g (map (\<lambda>i. int (kept_index (keeps n flag) (n + i))) [0..<r]) flag (int n)
      = Some (offsets g', concat g')"
    by (rule par_genNewGraphCSR_eq [OF arrays(2)]) (rule up, use out(3) small lg row in simp)+
  then have "par_filter_csr vlist elist (int n) (int r) threshold = Some (offsets g', concat g', int n, int (length g' - n))"
    using conv init st(1) ids u32
    by (simp add: par_filter_csr_def csr_convert_filter_eq Let_def flip: g_def flag_def)
  then show thesis using that [of g "fs_graphT st" D flag] M F by (simp add: g')
qed

lemma par_example_sizes: "par_filter_sizes 2 [[2, 1], [2, 0], [0, 1]]"
proof -
  have "total_expansion 2 [[2, 1], [2, 0], [0, 1]] = 8" by code_simp
  moreover have "length (expand_row (rows [[2, 1], [2, 0], [0, 1]]) (int 2) ([[2, 1], [2, 0], [0, 1]] ! 2)) = 2"
    by code_simp
  moreover have "x = 2" if "2 \<le> x" "x < 3" for x :: nat using that by linarith
  ultimately show ?thesis by (auto simp: par_filter_sizes_def)
qed

text \<open>
  Property C32.  On a sound compressed graph, whose rules use only vertices and rules with smaller identifiers, and
  of moderate size, the filter of the parallel compressor returns, without an access out of range or
  an overflow, a well-formed compressed graph with no more rules, in which every vertex has exactly the
  neighbours it had, in the same order: that \<open>freq\<close> grows too fast does no harm there.
\<close>

theorem par_filter_csr_preserves:
  assumes "wf_csr (n + r) vlist elist" and "sound_rules n (csr_graph (n + r) vlist elist)"
    and "par_filter_sizes n (csr_graph (n + r) vlist elist)"
  shows "\<exists>vlist' elist' r'. par_filter_csr vlist elist (int n) (int r) threshold = Some (vlist', elist', int n, int r') \<and>
    r' \<le> r \<and> wf_csr (n + r') vlist' elist' \<and> wf_grammar (csr_graph (n + r') vlist' elist') (int n) \<and>
    (\<forall>v<n. neighbours (csr_graph (n + r') vlist' elist') (int n) v
       = neighbours (csr_graph (n + r) vlist elist) (int n) v)"
proof (rule par_filter_csr_run [OF assms, of threshold])
  fix g t D flag
  assume M: "merged_away n (csr_graph (n + r) vlist elist) g t D"
    and F: "flags_merged n D flag" "length g = n + length flag"
    and run: "par_filter_csr vlist elist (int n) (int r) threshold =
       Some (offsets (drop_rows (keeps n flag) g (length g)), concat (drop_rows (keeps n flag) g (length g)),
         int n, int (length (drop_rows (keeps n flag) g (length g)) - n))"
  define g' where "g' = drop_rows (keeps n flag) g (length g)"
  note out = merged_output [OF M assms(2) F, folded g'_def]
  have len: "n + (length g' - n) = length g'" using out(4) by simp
  show ?thesis
    using run out wf_offsets [of g'] csr_graph_offsets [of g']
    unfolding g'_def [symmetric]
    by (intro exI [of _ "offsets g'"] exI [of _ "concat g'"] exI [of _ "length g' - n"]) (simp add: len)
qed

theorem par_filter_csr_preserves_witness:
  "par_filter_csr [0, 2, 4, 6] [2, 1, 2, 0, 0, 1] 2 1 16 = Some ([0, 3, 6], [0, 1, 1, 0, 1, 0], 2, 0) \<and>
   wf_csr 2 [0, 3, 6] [0, 1, 1, 0, 1, 0] \<and>
   map (neighbours (csr_graph 2 [0, 3, 6] [0, 1, 1, 0, 1, 0]) 2) [0, 1] = map (neighbours [[2, 1], [2, 0], [0, 1]] 2) [0, 1]"
proof -
  have run: "par_filter_csr [0, 2, 4, 6] [2, 1, 2, 0, 0, 1] 2 1 16 = Some ([0, 3, 6], [0, 1, 1, 0, 1, 0], 2, 0)"
    by code_simp
  show ?thesis
    using par_filter_csr_preserves [of 2 1 "[0, 2, 4, 6]" "[2, 1, 2, 0, 0, 1]" 16] example_graph par_example_sizes
    by (simp add: run flip: numeral_2_eq_2)
qed

subsection \<open>The uses are counted twice\<close>


end
