(* ===== verification/Atomics.thy ===== *)
theory Atomics
  imports Laconic_Prelude "HOL-Library.Word"
begin

text \<open>
  The atomic helpers of the parallel compressor, \<open>Laconic_parallel/core/atomic.h\<close>.

  \<open>write_min\<close> and \<open>write_add\<close> read a shared cell, compute a new value and try to store it with a
  compare-and-swap, again and again until this succeeds.  Any number of threads that run such a
  loop on one cell are a step relation on the cell and the states of the threads:
  \<open>step\<close> is a read or a compare-and-swap of one thread.
\<close>

subsection \<open>Compare and swap\<close>

definition cas :: "'v \<Rightarrow> 'v \<Rightarrow> 'v \<Rightarrow> 'v \<times> bool" where
  "cas mem old_val new_val = (if mem = old_val then (new_val, True) else (mem, False))"

text \<open>
  A thread has its argument and a place in the loop: before the read, before the
  compare-and-swap of the value it has read, or after the loop, with the result of the last
  compare-and-swap.
\<close>

datatype 'v place = Reading | Swapping 'v | is_Finished: Finished bool

type_synonym ('a, 'v) config = "'v \<times> ('a \<times> 'v place) list"

text \<open>The new value for an argument and the value read, or \<^term>\<open>None\<close> when the loop ends without a store.\<close>

definition write_min_next :: "'v::linorder \<Rightarrow> 'v \<Rightarrow> 'v option" where
  "write_min_next val curr_val = (if curr_val > val then Some val else None)"

definition write_add_next :: "'w::len word \<Rightarrow> 'w word \<Rightarrow> 'w word option" where
  "write_add_next val old_val = Some (old_val + val)"

inductive step :: "('a \<Rightarrow> 'v \<Rightarrow> 'v option) \<Rightarrow> ('a, 'v) config \<Rightarrow> ('a, 'v) config \<Rightarrow> bool"
  for nxt :: "'a \<Rightarrow> 'v \<Rightarrow> 'v option" where
  read: "i < length ts \<Longrightarrow> ts ! i = (a, Reading) \<Longrightarrow>
    step nxt (mem, ts) (mem, ts[i := (a, case nxt a mem of None \<Rightarrow> Finished False | Some v \<Rightarrow> Swapping mem)])"
| swap: "i < length ts \<Longrightarrow> ts ! i = (a, Swapping old) \<Longrightarrow> nxt a old = Some new \<Longrightarrow> cas mem old new = (mem', ok) \<Longrightarrow>
    step nxt (mem, ts) (mem', ts[i := (a, if ok then Finished True else Reading)])"

inductive_cases stepE: "step nxt c c'"

text \<open>One call after the other: what a run of the loop without interruption does to the cell.\<close>

definition effect :: "('a \<Rightarrow> 'v \<Rightarrow> 'v option) \<Rightarrow> 'a \<Rightarrow> 'v \<Rightarrow> 'v" where
  "effect nxt a mem = (case nxt a mem of None \<Rightarrow> mem | Some v \<Rightarrow> v)"

definition begin_all :: "'v \<Rightarrow> 'a list \<Rightarrow> ('a, 'v) config" where
  "begin_all mem xs = (mem, map (\<lambda>a. (a, Reading)) xs)"

definition all_finished :: "('a, 'v) config \<Rightarrow> bool" where
  "all_finished c \<longleftrightarrow> (\<forall>t\<in>set (snd c). is_Finished (snd t))"

definition finished :: "('a, 'v) config \<Rightarrow> 'a list" where
  "finished c = map fst (filter (\<lambda>t. is_Finished (snd t)) (snd c))"

subsection \<open>Every run has the effect of the calls one after the other\<close>

lemma mset_finished_update:
  assumes "i < length ts" "ts ! i = (a, p)" "\<not> is_Finished p"
  shows "mset (finished (m, ts[i := (a, q)])) =
    mset (finished (m', ts)) + (if is_Finished q then {#a#} else {#})"
proof -
  have ts: "ts = take i ts @ (a, p) # drop (Suc i) ts" using id_take_nth_drop [OF assms(1)] assms(2) by simp
  have upd: "ts[i := (a, q)] = take i ts @ (a, q) # drop (Suc i) ts" using assms(1) by (rule upd_conv_take_nth_drop)
  have "mset (finished (m', ts)) = mset (finished (m', take i ts @ (a, p) # drop (Suc i) ts))" using ts by simp
  then show ?thesis unfolding upd using assms(3) by (auto simp: finished_def)
qed

lemma map_fst_update: "i < length ts \<Longrightarrow> ts ! i = (a, p) \<Longrightarrow> map fst (ts[i := (a, q)]) = map fst ts"
  by (simp add: map_update) (metis fst_conv list_update_id nth_map)

text \<open>
  The cell holds the effects of the finished calls in some order, and a thread about to swap has
  read a value for which its loop has a new value.
\<close>

definition serial :: "('a \<Rightarrow> 'v \<Rightarrow> 'v option) \<Rightarrow> 'v \<Rightarrow> 'a list \<Rightarrow> ('a, 'v) config \<Rightarrow> bool" where
  "serial nxt mem0 xs c \<longleftrightarrow> map fst (snd c) = xs \<and>
     (\<exists>ys. mset ys = mset (finished c) \<and> fst c = fold (effect nxt) ys mem0) \<and>
     (\<forall>t\<in>set (snd c). \<forall>old. snd t = Swapping old \<longrightarrow> nxt (fst t) old \<noteq> None)"

lemma serial_step:
  assumes "serial nxt mem0 xs c" "step nxt c c'"
  shows "serial nxt mem0 xs c'"
  using assms(2)
proof (cases rule: step.cases)
  case (read i ts a mem)
  let ?q = "case nxt a mem of None \<Rightarrow> Finished False | Some v \<Rightarrow> Swapping mem"
  obtain ys where ys: "mset ys = mset (finished (mem, ts))" "mem = fold (effect nxt) ys mem0"
    using assms(1) read by (auto simp: serial_def)
  have "\<exists>ys'. mset ys' = mset (finished (mem, ts[i := (a, ?q)])) \<and> mem = fold (effect nxt) ys' mem0"
  proof (cases "nxt a mem")
    case None
    then have "effect nxt a mem = mem" by (simp add: effect_def)
    then have "mem = fold (effect nxt) (ys @ [a]) mem0" using ys(2) by simp
    moreover have "mset (ys @ [a]) = mset (finished (mem, ts[i := (a, ?q)]))"
      using mset_finished_update [OF read(3,4), of mem ?q mem] None ys(1) by simp
    ultimately show ?thesis by blast
  next
    case (Some v)
    then show ?thesis using mset_finished_update [OF read(3,4), of mem ?q mem] ys by auto
  qed
  moreover have "nxt (fst t) old \<noteq> None" if "t \<in> set (ts[i := (a, ?q)])" "snd t = Swapping old" for t old
    using that set_update_subset_insert [of ts i "(a, ?q)"] assms(1) read by (auto simp: serial_def split: option.splits)
  ultimately show ?thesis
    using assms(1) map_fst_update [OF read(3,4)] unfolding read(1,2) serial_def by simp
next
  case (swap i ts a old new mem mem' ok)
  let ?q = "if ok then Finished True else Reading"
  obtain ys where ys: "mset ys = mset (finished (mem, ts))" "mem = fold (effect nxt) ys mem0"
    using assms(1) swap by (auto simp: serial_def)
  have "\<exists>ys'. mset ys' = mset (finished (mem', ts[i := (a, ?q)])) \<and> mem' = fold (effect nxt) ys' mem0"
  proof (cases ok)
    case True
    then have "mem = old" "mem' = new" using swap(6) by (auto simp: cas_def split: if_splits)
    then have "mem' = effect nxt a mem" using swap(5) by (simp add: effect_def)
    then have "mem' = fold (effect nxt) (ys @ [a]) mem0" using ys(2) by simp
    moreover have "mset (ys @ [a]) = mset (finished (mem', ts[i := (a, ?q)]))"
      using mset_finished_update [OF swap(3,4), of mem' ?q mem] True ys(1) by simp
    ultimately show ?thesis by blast
  next
    case False
    then have "mem' = mem" using swap(6) by (auto simp: cas_def split: if_splits)
    then show ?thesis using mset_finished_update [OF swap(3,4), of mem' ?q mem] False ys by auto
  qed
  moreover have "nxt (fst t) old' \<noteq> None" if "t \<in> set (ts[i := (a, ?q)])" "snd t = Swapping old'" for t old'
    using that set_update_subset_insert [of ts i "(a, ?q)"] assms(1) swap by (auto simp: serial_def split: if_splits)
  ultimately show ?thesis
    using assms(1) map_fst_update [OF swap(3,4)] unfolding swap(1,2) serial_def by simp
qed

lemma serial_begin: "serial nxt mem0 xs (begin_all mem0 xs)"
  by (auto simp: serial_def begin_all_def finished_def comp_def intro: exI [of _ "[]"])

lemma serial_run: "(step nxt)\<^sup>*\<^sup>* (begin_all mem0 xs) c \<Longrightarrow> serial nxt mem0 xs c"
  by (induction rule: rtranclp_induct) (auto intro: serial_begin serial_step)

text \<open>
  Calls whose effects commute: any complete run ends with the effects of all calls, in
  the order of the threads.
\<close>

locale commuting_calls =
  fixes nxt :: "'a \<Rightarrow> 'v \<Rightarrow> 'v option"
  assumes commute: "effect nxt a (effect nxt b m) = effect nxt b (effect nxt a m)"
begin

lemma fold_effect: "mset ys = mset xs \<Longrightarrow> fold (effect nxt) ys m = fold (effect nxt) xs m"
  using fold_multiset_equiv [of ys "effect nxt" xs] by (simp add: commute fun_eq_iff)

lemma complete_run:
  assumes "(step nxt)\<^sup>*\<^sup>* (begin_all mem0 xs) c" "all_finished c"
  shows "fst c = fold (effect nxt) xs mem0"
proof -
  obtain ys where s: "map fst (snd c) = xs" "mset ys = mset (finished c)" "fst c = fold (effect nxt) ys mem0"
    using serial_run [OF assms(1)] unfolding serial_def by blast
  have "finished c = map fst (snd c)" using assms(2) by (simp add: finished_def all_finished_def filter_id_conv)
  then show ?thesis using fold_effect [of ys xs mem0] s by simp
qed

end

interpretation adding: commuting_calls "write_add_next :: 'w::len word \<Rightarrow> 'w word \<Rightarrow> 'w word option"
  by unfold_locales (simp add: effect_def write_add_next_def add.assoc add.commute add.left_commute)

interpretation minimum: commuting_calls "write_min_next :: 'v::linorder \<Rightarrow> 'v \<Rightarrow> 'v option"
  by unfold_locales (auto simp: effect_def write_min_next_def)

subsection \<open>Some schedule finishes all threads\<close>

lemma finish_thread:
  assumes "serial nxt mem0 xs (mem, ts)" "i < length ts"
  shows "\<exists>mem' r. (step nxt)\<^sup>*\<^sup>* (mem, ts) (mem', ts[i := (fst (ts ! i), Finished r)])"
proof -
  have start: "\<exists>mem' r. (step nxt)\<^sup>*\<^sup>* (mem, ts) (mem', ts[i := (a, Finished r)])" if i: "i < length ts" "ts ! i = (a, Reading)" for mem ts a
  proof (cases "nxt a mem")
    case None
    then have "step nxt (mem, ts) (mem, ts[i := (a, Finished False)])" using step.read [OF i, of nxt mem] by simp
    then show ?thesis by blast
  next
    case (Some v)
    then have 1: "step nxt (mem, ts) (mem, ts[i := (a, Swapping mem)])" using step.read [OF i, of nxt mem] by simp
    have "step nxt (mem, ts[i := (a, Swapping mem)]) (v, ts[i := (a, Finished True)])"
      using step.swap [of i "ts[i := (a, Swapping mem)]" a mem nxt v mem v True] i Some by (simp add: cas_def)
    then show ?thesis using 1 by (meson converse_rtranclp_into_rtranclp r_into_rtranclp)
  qed
  obtain a p where p: "ts ! i = (a, p)" by (cases "ts ! i")
  show ?thesis
  proof (cases p)
    case Reading
    then show ?thesis using start [OF assms(2), of a mem] p by simp
  next
    case (Finished r)
    then have "ts[i := (a, Finished r)] = ts" using p by (metis list_update_id)
    then show ?thesis using p by (metis fst_conv rtranclp.rtrancl_refl)
  next
    case (Swapping old)
    then obtain new where new: "nxt a old = Some new" using assms p unfolding serial_def by (metis fst_conv not_None_eq nth_mem snd_conv)
    show ?thesis
    proof (cases "mem = old")
      case True
      then have "step nxt (mem, ts) (new, ts[i := (a, Finished True)])"
        using step.swap [of i ts a old nxt new mem new True] assms(2) p Swapping new by (simp add: cas_def)
      then show ?thesis using p by auto
    next
      case False
      then have 1: "step nxt (mem, ts) (mem, ts[i := (a, Reading)])"
        using step.swap [of i ts a old nxt new mem mem False] assms(2) p Swapping new by (simp add: cas_def)
      obtain mem' r where "(step nxt)\<^sup>*\<^sup>* (mem, ts[i := (a, Reading)]) (mem', ts[i := (a, Finished r)])"
        using start [of "ts[i := (a, Reading)]" a mem] assms(2) by auto
      then show ?thesis using 1 p by (metis converse_rtranclp_into_rtranclp fst_conv)
    qed
  qed
qed


lemma finish_first:
  assumes "k \<le> length xs" "(step nxt)\<^sup>*\<^sup>* (begin_all mem0 xs) c"
  shows "\<exists>c'. (step nxt)\<^sup>*\<^sup>* c c' \<and> (\<forall>i<k. is_Finished (snd (snd c' ! i)))"
  using assms(1)
proof (induction k)
  case 0
  then show ?case by blast
next
  case (Suc k)
  then obtain mem ts where c': "(step nxt)\<^sup>*\<^sup>* c (mem, ts)" "\<forall>i<k. is_Finished (snd (ts ! i))" by auto
  have s: "serial nxt mem0 xs (mem, ts)" using assms(2) c'(1) by (blast intro: serial_run rtranclp_trans)
  then have k: "k < length ts" using Suc.prems by (auto simp: serial_def)
  obtain mem' r where "(step nxt)\<^sup>*\<^sup>* (mem, ts) (mem', ts[k := (fst (ts ! k), Finished r)])"
    using finish_thread [OF s k] by blast
  moreover have "\<forall>i<Suc k. is_Finished (snd (ts[k := (fst (ts ! k), Finished r)] ! i))"
    using c'(2) k by (simp add: less_Suc_eq nth_list_update)
  ultimately show ?case using c'(1) by (metis rtranclp_trans snd_conv)
qed

lemma finish_all:
  assumes "(step nxt)\<^sup>*\<^sup>* (begin_all mem0 xs) c"
  shows "\<exists>c'. (step nxt)\<^sup>*\<^sup>* c c' \<and> all_finished c'"
proof -
  obtain c' where c': "(step nxt)\<^sup>*\<^sup>* c c'" "\<forall>i<length xs. is_Finished (snd (snd c' ! i))"
    using finish_first [OF order_refl assms] by blast
  have "serial nxt mem0 xs c'" using assms c'(1) by (blast intro: serial_run rtranclp_trans)
  then have "length (snd c') = length xs" by (auto simp: serial_def)
  then have "all_finished c'" using c'(2) by (simp add: all_finished_def all_set_conv_all_nth)
  then show ?thesis using c'(1) by blast
qed

lemma fold_add: "fold (effect write_add_next) xs m = m + sum_list (xs :: 'w::len word list)"
  by (induction xs arbitrary: m) (simp_all add: effect_def write_add_next_def add.assoc)

lemma fold_min: "fold (effect write_min_next) xs m = Min (insert m (set (xs :: 'v::linorder list)))"
proof (induction xs arbitrary: m)
  case (Cons a xs)
  have "effect write_min_next a m = min m a" by (auto simp: effect_def write_min_next_def min_def)
  then show ?case using Cons [of "min m a"] by (cases "xs = []") (simp_all add: min.assoc)
qed simp

lemma two_threads:
  "(step nxt)\<^sup>*\<^sup>* (m, [(a, Reading), (b, Reading)]) (m, [(a, Swapping m), (b, Swapping m)])"
  if nx: "nxt a m \<noteq> None" "nxt b m \<noteq> None"
proof -
  have "step nxt (m, [(a, Reading), (b, Reading)]) (m, [(a, Swapping m), (b, Reading)])"
    using step.read [of 0 "[(a, Reading), (b, Reading)]" a nxt m] nx by auto
  moreover have "step nxt (m, [(a, Swapping m), (b, Reading)]) (m, [(a, Swapping m), (b, Swapping m)])"
    using step.read [of 1 "[(a, Swapping m), (b, Reading)]" b nxt m] nx by auto
  ultimately show ?thesis by (meson converse_rtranclp_into_rtranclp r_into_rtranclp)
qed

text \<open>
  A run in which both threads read, the first one stores its value, and the second one fails,
  reads again and ends.
\<close>

lemma contended_run:
  assumes "nxt a m = Some v" "nxt b m = Some u" "m \<noteq> v" "nxt b v = w"
  shows "(step nxt)\<^sup>*\<^sup>* (begin_all m [a, b])
    (case w of None \<Rightarrow> (v, [(a, Finished True), (b, Finished False)])
     | Some w' \<Rightarrow> (w', [(a, Finished True), (b, Finished True)]))"
proof -
  have 1: "(step nxt)\<^sup>*\<^sup>* (begin_all m [a, b]) (m, [(a, Swapping m), (b, Swapping m)])"
    using two_threads [of nxt a m b] assms by (simp add: begin_all_def)
  have 2: "step nxt (m, [(a, Swapping m), (b, Swapping m)]) (v, [(a, Finished True), (b, Swapping m)])"
    using step.swap [of 0 "[(a, Swapping m), (b, Swapping m)]" a m nxt v m v True] assms by (simp add: cas_def)
  have 3: "step nxt (v, [(a, Finished True), (b, Swapping m)]) (v, [(a, Finished True), (b, Reading)])"
    using step.swap [of 1 "[(a, Finished True), (b, Swapping m)]" b m nxt u v v False] assms by (simp add: cas_def)
  have 4: "(step nxt)\<^sup>*\<^sup>* (begin_all m [a, b]) (v, [(a, Finished True), (b, Reading)])"
    using 1 2 3 by (meson rtranclp.rtrancl_into_rtrancl)
  show ?thesis
  proof (cases w)
    case None
    have "step nxt (v, [(a, Finished True), (b, Reading)]) (v, [(a, Finished True), (b, Finished False)])"
      using step.read [of 1 "[(a, Finished True), (b, Reading)]" b nxt v] assms None by simp
    then show ?thesis using 4 None by (simp add: rtranclp.rtrancl_into_rtrancl)
  next
    case (Some w')
    have 5: "step nxt (v, [(a, Finished True), (b, Reading)]) (v, [(a, Finished True), (b, Swapping v)])"
      using step.read [of 1 "[(a, Finished True), (b, Reading)]" b nxt v] assms Some by simp
    have 6: "step nxt (v, [(a, Finished True), (b, Swapping v)]) (w', [(a, Finished True), (b, Finished True)])"
      using step.swap [of 1 "[(a, Finished True), (b, Swapping v)]" b v nxt w' v w' True] assms Some
      by (simp add: cas_def)
    show ?thesis using rtranclp.rtrancl_into_rtrancl [OF rtranclp.rtrancl_into_rtrancl [OF 4 5] 6] Some by simp
  qed
qed

subsection \<open>The helpers without a loop\<close>

text \<open>
  \<open>atomic_append\<close>, run by one thread at a time: a thread that writes \<open>array[idx]\<close> while another
  one resizes the vector is a data race, which has no defined behaviour.  \<open>resize\<close> fills up with
  the value \<open>T()\<close>.
\<close>

definition atomic_append :: "'a \<Rightarrow> 'a list \<Rightarrow> int \<Rightarrow> 'a \<Rightarrow> ('a list \<times> int \<times> int) option" where
  "atomic_append zero array len data = do {
     let idx = len;
     let len' = to_u64 (len + 1);
     let array' =
       (if idx \<ge> int (length array) then
          if length array < 1024 then array @ replicate (1024 - length array) zero
          else array @ replicate (length array) zero
        else array);
     array'' \<leftarrow> vec_set array' idx data;
     Some (array'', len', idx)
   }"

definition append_all :: "'a \<Rightarrow> 'a list \<Rightarrow> 'a list \<times> int \<Rightarrow> ('a list \<times> int) option" where
  "append_all zero xs st = for_each (\<lambda>x (array, len). do {
     (array', len', idx) \<leftarrow> atomic_append zero array len x;
     Some (array', len')
   }) xs st"

text \<open>
  \<open>myTBBMalloc\<close> and \<open>myTBBRealloc\<close>, over the allocator of the library TBB: an address, or 0 for \<open>NULL\<close>.
  The result \<^term>\<open>None\<close> stands for \<open>exit(1)\<close>.
\<close>

definition myTBBMalloc :: "(int \<Rightarrow> int) \<Rightarrow> int \<Rightarrow> int option" where
  "myTBBMalloc scalable_malloc n =
    (if n = 0 then Some 0
     else let p = scalable_malloc n in if p = 0 then None else Some p)"

definition myTBBRealloc :: "(int \<Rightarrow> int) \<Rightarrow> (int \<Rightarrow> int \<Rightarrow> int) \<Rightarrow> int \<Rightarrow> int \<Rightarrow> int option" where
  "myTBBRealloc scalable_malloc scalable_realloc p n =
    (if n = 0 then Some 0
     else if p = 0 then myTBBMalloc scalable_malloc n
     else let new_p = scalable_realloc p n in if p = 0 then None else Some p)"

lemma atomic_append_Some:
  assumes "n \<le> length array" "n + 1 < 2 ^ 64"
  shows "\<exists>array'. atomic_append zero array (int n) x = Some (array', int (n + 1), int n) \<and>
    take (n + 1) array' = take n array @ [x] \<and> n + 1 \<le> length array'"
proof -
  define A where "A = (if int n \<ge> int (length array) then
      if length array < 1024 then array @ replicate (1024 - length array) zero
      else array @ replicate (length array) zero else array)"
  have n: "n < length A" and tk: "take n A = take n array" using assms(1) by (auto simp: A_def)
  have len: "to_u64 (int n + 1) = int (n + 1)" using assms(2) by (simp add: to_u64_def)
  have "atomic_append zero array (int n) x = Some (A[n := x], int (n + 1), int n)"
    unfolding atomic_append_def Let_def A_def [symmetric] len using n by (simp add: vec_simps)
  moreover have "take (n + 1) (A[n := x]) = take n array @ [x]"
    using n tk by (simp add: take_Suc_conv_app_nth)
  ultimately show ?thesis using n by auto
qed

lemma append_all_Some:
  assumes "n \<le> length array" "n + length xs < 2 ^ 64"
  shows "\<exists>array'. append_all zero xs (array, int n) = Some (array', int (n + length xs)) \<and>
    take (n + length xs) array' = take n array @ xs"
  using assms
proof (induction xs arbitrary: array n)
  case Nil
  then show ?case by (simp add: append_all_def)
next
  case (Cons x xs)
  obtain B where B: "atomic_append zero array (int n) x = Some (B, int (n + 1), int n)"
    "take (n + 1) B = take n array @ [x]" "n + 1 \<le> length B"
    using atomic_append_Some [of n array zero x] Cons.prems by auto
  obtain C where "append_all zero xs (B, int (n + 1)) = Some (C, int (n + 1 + length xs))"
    "take (n + 1 + length xs) C = take (n + 1) B @ xs"
    using Cons.IH [of "n + 1" B] B(3) Cons.prems by auto
  then show ?case using B by (simp add: append_all_def)
qed

text \<open>
  Calls of \<open>atomic_append\<close> that do not overlap, on a vector that is empty at first, never write out of
  range, and leave the appended values in the order of the calls.
\<close>

lemma append_all_in_order:
  "length xs < 2 ^ 64 \<Longrightarrow>
    \<exists>array. append_all zero xs ([], 0) = Some (array, int (length xs)) \<and> take (length xs) array = xs"
  using append_all_Some [of 0 "[]" xs zero] by simp

subsection \<open>Properties\<close>





text \<open>
  Property C37.  From every state that threads running \<open>write_add\<close> or \<open>write_min\<close> on one cell can reach, some
  schedule lets every thread return: no interleaving of the loops leaves them blocked.
\<close>
theorem atomics_can_finish:
  "((step write_add_next)\<^sup>*\<^sup>* (begin_all (m :: 'w::len word) xs) c \<longrightarrow>
      (\<exists>c'. (step write_add_next)\<^sup>*\<^sup>* c c' \<and> all_finished c')) \<and>
   ((step write_min_next)\<^sup>*\<^sup>* (begin_all (n :: 'v::linorder) ys) d \<longrightarrow>
      (\<exists>d'. (step write_min_next)\<^sup>*\<^sup>* d d' \<and> all_finished d'))"
  by (blast intro: finish_all)

theorem atomics_can_finish_witness:
  "(\<exists>c'. (step write_add_next)\<^sup>*\<^sup>* (0 :: 8 word, [(1, Swapping 0), (2, Swapping 0)]) c' \<and> all_finished c') \<and>
   (\<exists>d'. (step write_min_next)\<^sup>*\<^sup>* (9 :: int, [(1, Swapping 9), (2, Swapping 9)]) d' \<and> all_finished d')"
  using atomics_can_finish [of "0 :: 8 word" "[1, 2]" "(0, [(1, Swapping 0), (2, Swapping 0)])"
      "9 :: int" "[1, 2]" "(9, [(1, Swapping 9), (2, Swapping 9)])"]
    two_threads [of "write_add_next :: 8 word \<Rightarrow> _" 1 0 2] two_threads [of "write_min_next :: int \<Rightarrow> _" 1 9 2]
  by (simp add: begin_all_def write_add_next_def write_min_next_def)

end
