(* ===== verification/Reorder.thy ===== *)
theory Reorder
  imports Csr
begin

text \<open>
  The renumbering of a graph by a traversal, the script \<open>Encoding&Apps/bfs_reorder.py\<close>, and the file that
  \<open>Encoding&Apps/gen_csr.py\<close> writes of the result.

  The arrays of the script are lists; an index below 0 counts from the end, as in NumPy, and
  \<^term>\<open>None\<close> stands for an exception.  The files are the lists of the numbers written, one on
  each line.
\<close>

subsection \<open>The code\<close>

definition np_index :: "'a list \<Rightarrow> int \<Rightarrow> nat option" where
  "np_index xs i =
     (if 0 \<le> i \<and> i < int (length xs) then Some (nat i)
      else if - int (length xs) \<le> i \<and> i < 0 then Some (nat (int (length xs) + i))
      else None)"

definition np_at :: "'a list \<Rightarrow> int \<Rightarrow> 'a option" where
  "np_at xs i = map_option (\<lambda>k. xs ! k) (np_index xs i)"

definition np_set :: "'a list \<Rightarrow> int \<Rightarrow> 'a \<Rightarrow> 'a list option" where
  "np_set xs i x = map_option (\<lambda>k. xs[k := x]) (np_index xs i)"

text \<open>The global variables of the script.  The top of \<open>bfs_queue\<close> is its last element.\<close>

record traversal =
  o_queue :: "int list"
  o_visited :: "bool list"
  o_new_id :: int
  o_new_vertex_id :: "int list"
  o_reverse_id :: "int list"

definition visit :: "int list \<Rightarrow> int \<Rightarrow> traversal \<Rightarrow> traversal option" where
  "visit elist i st = do {
     neighbor \<leftarrow> np_at elist i;
     seen \<leftarrow> np_at (o_visited st) neighbor;
     if \<not> seen then do {
       visited' \<leftarrow> np_set (o_visited st) neighbor True;
       Some (st\<lparr>o_visited := visited', o_queue := o_queue st @ [neighbor]\<rparr>)
     } else Some st
   }"

partial_function (option) bfs :: "int list \<Rightarrow> int list \<Rightarrow> traversal \<Rightarrow> traversal option" where
  "bfs vlist elist st =
     (if o_queue st = [] then Some st
      else do {
        let curr_node = last (o_queue st);
        new_vertex_id' \<leftarrow> np_set (o_new_vertex_id st) (o_new_id st) curr_node;
        reverse_id' \<leftarrow> np_set (o_reverse_id st) curr_node (o_new_id st);
        start \<leftarrow> np_at vlist curr_node;
        end \<leftarrow> np_at vlist (curr_node + 1);
        st' \<leftarrow> for_range start end (visit elist)
          (st\<lparr>o_queue := butlast (o_queue st), o_new_vertex_id := new_vertex_id',
             o_reverse_id := reverse_id', o_new_id := o_new_id st + 1\<rparr>);
        bfs vlist elist st'
      })"

declare bfs.simps [code]

definition reorder_step :: "int list \<Rightarrow> int list \<Rightarrow> int \<Rightarrow> traversal \<Rightarrow> traversal option" where
  "reorder_step vlist elist i st = do {
     seen \<leftarrow> np_at (o_visited st) i;
     if \<not> seen then do {
       visited' \<leftarrow> np_set (o_visited st) i True;
       bfs vlist elist (st\<lparr>o_queue := [i], o_visited := visited'\<rparr>)
     } else Some st
   }"

text \<open>
  The loop that writes the two files: the numbers in \<open>reordered_vlist.txt\<close> and
  \<open>reordered_elist.txt\<close>, and \<open>count\<close>.
\<close>

definition write_node :: "int list \<Rightarrow> int list \<Rightarrow> int list \<Rightarrow> int list \<Rightarrow> int \<Rightarrow>
    int list \<times> int list \<times> int \<Rightarrow> (int list \<times> int list \<times> int) option" where
  "write_node vlist elist new_vertex_id reverse_id i = (\<lambda>(f1, f2, count). do {
     node \<leftarrow> np_at new_vertex_id i;
     end_pos \<leftarrow> (if node + 1 \<ge> int (length vlist) then Some (int (length elist)) else np_at vlist (node + 1));
     start \<leftarrow> np_at vlist node;
     (f2', count') \<leftarrow> for_range start end_pos (\<lambda>j (f2, count). do {
       e \<leftarrow> np_at elist j;
       x \<leftarrow> np_at reverse_id e;
       Some (f2 @ [x], count + 1)
     }) (f2, count);
     Some (f1 @ [count'], f2', count')
   })"

text \<open>\<open>np.max\<close> of an empty array and \<open>np.zeros(-1)\<close> raise an exception.\<close>

definition bfs_reorder :: "int list \<Rightarrow> int list \<Rightarrow> (int list \<times> int list) option" where
  "bfs_reorder vlist elist =
     (if elist = [] \<or> vlist = [] then None
      else do {
        let n = int (length vlist);
        st \<leftarrow> for_range 0 (n - 1) (reorder_step vlist elist)
          \<lparr>o_queue = [], o_visited = replicate (nat (n - 1)) False, o_new_id = 0,
           o_new_vertex_id = replicate (nat (n - 1)) 0, o_reverse_id = replicate (nat (n - 1)) 0\<rparr>;
        (f1, f2, count) \<leftarrow> for_range 0 (n - 1)
          (write_node vlist elist (o_new_vertex_id st) (o_reverse_id st)) ([0], [], 0);
        Some (f1, f2)
      })"

text \<open>The lines that \<open>gen_csr.py\<close> writes after the line \<open>AdjacencyGraph\<close>.\<close>

definition gen_csr :: "int list \<Rightarrow> int list \<Rightarrow> int list" where
  "gen_csr vlist elist = [int (length vlist), int (length elist)] @ vlist @ elist"

subsection \<open>The traversal numbers every node once\<close>

lemma np_at_nat [simp]: "i < length xs \<Longrightarrow> np_at xs (int i) = Some (xs ! i)"
  by (simp add: np_at_def np_index_def)

lemma np_set_nat [simp]: "i < length xs \<Longrightarrow> np_set xs (int i) x = Some (xs[i := x])"
  by (simp add: np_set_def np_index_def)

text \<open>
  The nodes \<open>done\<close> have the numbers from 0 on, those in the queue are visited and have none yet.
\<close>

definition order_ok :: "nat \<Rightarrow> nat list \<Rightarrow> nat list \<Rightarrow> traversal \<Rightarrow> bool" where
  "order_ok m ns q st \<longleftrightarrow>
     o_queue st = map int q \<and> o_new_id st = int (length ns) \<and> distinct (ns @ q) \<and> set (ns @ q) \<subseteq> {..<m} \<and>
     length (o_visited st) = m \<and> (\<forall>x<m. o_visited st ! x \<longleftrightarrow> x \<in> set (ns @ q)) \<and>
     length (o_new_vertex_id st) = m \<and> take (length ns) (o_new_vertex_id st) = map int ns \<and>
     length (o_reverse_id st) = m \<and> (\<forall>k<length ns. o_reverse_id st ! (ns ! k) = int k)"

definition csr_graph_ok :: "nat \<Rightarrow> int list \<Rightarrow> int list \<Rightarrow> bool" where
  "csr_graph_ok m vlist elist \<longleftrightarrow> length vlist = Suc m \<and> wf_csr m vlist elist \<and>
     (\<forall>x\<in>set elist. 0 \<le> x \<and> x < int m)"

lemma visit_ok:
  assumes ok: "order_ok m ns q st" and i: "i < length elist" "0 \<le> elist ! i" "elist ! i < int m"
  shows "\<exists>q' st'. visit elist (int i) st = Some st' \<and> order_ok m ns (q @ q') st'"
proof -
  define x where "x = nat (elist ! i)"
  have x: "elist ! i = int x" "x < m" using i by (simp_all add: x_def)
  have vis: "length (o_visited st) = m" "o_visited st ! x \<longleftrightarrow> x \<in> set (ns @ q)"
    using ok x by (simp_all add: order_ok_def)
  show ?thesis
  proof (cases "o_visited st ! x")
    case True
    then have "visit elist (int i) st = Some st" using i x vis by (simp add: visit_def)
    then show ?thesis using ok by (metis append_Nil2)
  next
    case False
    let ?st = "st\<lparr>o_visited := (o_visited st)[x := True], o_queue := o_queue st @ [int x]\<rparr>"
    have "visit elist (int i) st = Some ?st" using i x vis False by (simp add: visit_def)
    moreover have "order_ok m ns (q @ [x]) ?st"
      using ok x vis False unfolding order_ok_def by (auto simp: nth_list_update)
    ultimately show ?thesis by blast
  qed
qed

lemma visits_ok:
  assumes ok: "order_ok m ns q st" and g: "csr_graph_ok m vlist elist" and x: "x < m"
  shows "\<exists>q' st'. for_range (vlist ! x) (vlist ! Suc x) (visit elist) st = Some st' \<and> order_ok m ns (q @ q') st'"
proof -
  have b: "0 \<le> vlist ! x" "vlist ! x \<le> vlist ! Suc x" "vlist ! Suc x \<le> int (length elist)"
    using g x by (auto simp: csr_graph_ok_def wf_csr_def)
  have "\<exists>st'. for_range (vlist ! x) (vlist ! Suc x) (visit elist) st = Some st' \<and>
      (\<lambda>_ s. \<exists>q'. order_ok m ns (q @ q') s) (vlist ! Suc x) st'"
  proof (rule for_range_rule [where I = "\<lambda>_ s. \<exists>q'. order_ok m ns (q @ q') s"])
    fix i s assume i: "vlist ! x \<le> i" "i < vlist ! Suc x" and "\<exists>q'. order_ok m ns (q @ q') s"
    then obtain q' where q': "order_ok m ns (q @ q') s" by blast
    have "nat i < length elist" "i = int (nat i)" using i b by linarith+
    moreover from this have "0 \<le> elist ! nat i" "elist ! nat i < int m" using g by (auto simp: csr_graph_ok_def)
    ultimately show "\<exists>s'. visit elist i s = Some s' \<and> (\<exists>q'. order_ok m ns (q @ q') s')"
      using visit_ok [OF q', of "nat i" elist] by (metis append.assoc)
  qed (use ok b in \<open>auto intro: exI [of _ "[]"]\<close>)
  then show ?thesis by blast
qed

text \<open>Taking the last node off the queue gives it the next number.\<close>

lemma pop_ok:
  assumes ok: "order_ok m ns (q @ [x]) st"
  shows "x < m" "length ns < m"
    "order_ok m (ns @ [x]) q (st\<lparr>o_queue := map int q, o_new_vertex_id := (o_new_vertex_id st)[length ns := int x],
       o_reverse_id := (o_reverse_id st)[x := int (length ns)], o_new_id := int (Suc (length ns))\<rparr>)"
proof -
  have d: "distinct (ns @ q @ [x])" "set (ns @ q @ [x]) \<subseteq> {..<m}" using ok by (simp_all add: order_ok_def)
  then have "card (set (ns @ q @ [x])) \<le> m" by (metis card_mono card_lessThan finite_lessThan)
  then show n: "length ns < m" using distinct_card [OF d(1)] by simp
  show x: "x < m" using d by simp
  have "ns ! k \<noteq> x" if "k < length ns" for k using d(1) that nth_mem by fastforce
  then show "order_ok m (ns @ [x]) q (st\<lparr>o_queue := map int q, o_new_vertex_id := (o_new_vertex_id st)[length ns := int x],
       o_reverse_id := (o_reverse_id st)[x := int (length ns)], o_new_id := int (Suc (length ns))\<rparr>)"
    using ok n x unfolding order_ok_def
    by (auto simp: nth_append less_Suc_eq nth_list_update take_Suc_conv_app_nth)
qed

lemma bfs_ok:
  assumes g: "csr_graph_ok m vlist elist" and ok: "order_ok m ns q st"
  shows "\<exists>ns' st'. bfs vlist elist st = Some st' \<and> order_ok m (ns @ ns') [] st' \<and> set q \<subseteq> set ns'"
  using ok
proof (induction "m - length ns" arbitrary: ns q st rule: less_induct)
  case less
  show ?case
  proof (cases q rule: rev_cases)
    case Nil
    then have "bfs vlist elist st = Some st" using less.prems by (subst bfs.simps) (simp add: order_ok_def)
    then show ?thesis using less.prems Nil by (metis append_Nil2 empty_set empty_subsetI)
  next
    case (snoc q0 x)
    note pop = pop_ok [OF less.prems [unfolded snoc]]
    define st1 where "st1 = st\<lparr>o_queue := map int q0, o_new_vertex_id := (o_new_vertex_id st)[length ns := int x],
       o_reverse_id := (o_reverse_id st)[x := int (length ns)], o_new_id := int (Suc (length ns))\<rparr>"
    obtain q' st2 where st2: "for_range (vlist ! x) (vlist ! Suc x) (visit elist) st1 = Some st2"
      "order_ok m (ns @ [x]) (q0 @ q') st2"
      using visits_ok [OF pop(3) g pop(1)] by (auto simp: st1_def)
    have "m - length (ns @ [x]) < m - length ns" using pop(2) by simp
    then obtain ns' st3 where st3: "bfs vlist elist st2 = Some st3" "order_ok m ((ns @ [x]) @ ns') [] st3"
      "set (q0 @ q') \<subseteq> set ns'"
      using less.hyps [OF _ st2(2)] by blast
    have f: "o_queue st = map int (q0 @ [x])" "o_new_id st = int (length ns)" "length (o_new_vertex_id st) = m"
      "length (o_reverse_id st) = m" "length vlist = Suc m"
      using less.prems g by (simp_all add: order_ok_def snoc csr_graph_ok_def)
    have "np_at vlist (int x + 1) = Some (vlist ! Suc x)" using np_at_nat [of "Suc x" vlist] f pop(1) by (simp add: add.commute)
    moreover have "st\<lparr>o_queue := map int q0, o_new_vertex_id := (o_new_vertex_id st)[length ns := int x],
        o_reverse_id := (o_reverse_id st)[x := int (length ns)], o_new_id := int (length ns) + 1\<rparr> = st1"
      by (simp add: st1_def)
    ultimately have "bfs vlist elist st = Some st3"
      using f pop(1,2) st2(1) st3(1) by (subst bfs.simps) simp
    then show ?thesis using st3 by (intro exI [of _ "x # ns'"] exI [of _ st3]) (auto simp: snoc)
  qed
qed

lemma reorder_step_ok:
  assumes g: "csr_graph_ok m vlist elist" and ok: "order_ok m ns [] st" and i: "i < m"
  shows "\<exists>ns' st'. reorder_step vlist elist (int i) st = Some st' \<and> order_ok m (ns @ ns') [] st' \<and> i \<in> set (ns @ ns')"
proof (cases "o_visited st ! i")
  case True
  then have "reorder_step vlist elist (int i) st = Some st" "i \<in> set ns"
    using ok i by (auto simp: reorder_step_def order_ok_def)
  then show ?thesis using ok by (metis append_Nil2)
next
  case False
  let ?st = "st\<lparr>o_queue := [int i], o_visited := (o_visited st)[i := True]\<rparr>"
  have "order_ok m ns [i] ?st" using ok i False unfolding order_ok_def by (auto simp: nth_list_update)
  moreover have "reorder_step vlist elist (int i) st = bfs vlist elist ?st"
    using ok i False by (simp add: reorder_step_def order_ok_def)
  ultimately show ?thesis using bfs_ok [OF g, of ns "[i]" ?st] by auto
qed

lemma reorder_loop:
  assumes g: "csr_graph_ok m vlist elist"
  obtains ns st where "for_range 0 (int m) (reorder_step vlist elist)
      \<lparr>o_queue = [], o_visited = replicate m False, o_new_id = 0,
       o_new_vertex_id = replicate m 0, o_reverse_id = replicate m 0\<rparr> = Some st"
    "distinct ns" "set ns = {..<m}" "length ns = m" "o_new_vertex_id st = map int ns" "length (o_reverse_id st) = m"
    "\<And>k. k < m \<Longrightarrow> o_reverse_id st ! (ns ! k) = int k"
proof -
  let ?st0 = "\<lparr>o_queue = [], o_visited = replicate m False, o_new_id = 0,
       o_new_vertex_id = replicate m 0, o_reverse_id = replicate m 0\<rparr>"
  have "\<exists>st. for_range 0 (int m) (reorder_step vlist elist) ?st0 = Some st \<and>
      (\<lambda>i st. \<exists>ns. order_ok m ns [] st \<and> {..<i} \<subseteq> set ns) m st"
  proof (rule for_range_nat_rule [where I = "\<lambda>i st. \<exists>ns. order_ok m ns [] st \<and> {..<i} \<subseteq> set ns"])
    show "\<exists>ns. order_ok m ns [] ?st0 \<and> {..<0} \<subseteq> set ns" by (auto simp: order_ok_def intro: exI [of _ "[]"])
    fix i s assume i: "i < m" and "\<exists>ns. order_ok m ns [] s \<and> {..<i} \<subseteq> set ns"
    then obtain ns where ns: "order_ok m ns [] s" "{..<i} \<subseteq> set ns" by blast
    then show "\<exists>s'. reorder_step vlist elist (int i) s = Some s' \<and> (\<exists>ns. order_ok m ns [] s' \<and> {..<Suc i} \<subseteq> set ns)"
      using reorder_step_ok [OF g ns(1) i] by (force simp: lessThan_Suc)
  qed
  then obtain st ns where st: "for_range 0 (int m) (reorder_step vlist elist) ?st0 = Some st"
    and ok: "order_ok m ns [] st" and all: "{..<m} \<subseteq> set ns" by blast
  have d: "distinct ns" "set ns = {..<m}" using ok all by (auto simp: order_ok_def)
  then have len: "length ns = m" using distinct_card [of ns] by simp
  then have "o_new_vertex_id st = map int ns" using ok by (auto simp: order_ok_def)
  then show thesis using that [OF st d len] ok len by (auto simp: order_ok_def)
qed

subsection \<open>The files\<close>

text \<open>The rows in the new order, with the new numbers.\<close>

definition reordered :: "int list \<Rightarrow> int list \<Rightarrow> nat list \<Rightarrow> int list \<Rightarrow> graph" where
  "reordered vlist elist ns rev_id = map (\<lambda>x. map (\<lambda>e. rev_id ! nat e) (csr_row vlist elist x)) ns"

lemma write_node_ok:
  assumes g: "csr_graph_ok m vlist elist" and ns: "length ns = m" "set ns = {..<m}" "length rev_id = m" and i: "i < m"
  defines "h \<equiv> reordered vlist elist ns rev_id"
  shows "write_node vlist elist (map int ns) rev_id (int i)
      (offsets (take i h), concat (take i h), int (length (concat (take i h)))) =
    Some (offsets (take (Suc i) h), concat (take (Suc i) h), int (length (concat (take (Suc i) h))))"
proof -
  define x where "x = ns ! i"
  have x: "x < m" using i ns nth_mem [of i ns] by (auto simp: x_def)
  have len: "length vlist = Suc m" and b: "0 \<le> vlist ! x" "vlist ! x \<le> vlist ! Suc x" "vlist ! Suc x \<le> int (length elist)"
    using g x by (auto simp: csr_graph_ok_def wf_csr_def)
  have at: "np_at (map int ns) (int i) = Some (int x)" "np_at vlist (int x) = Some (vlist ! x)"
    "np_at vlist (int x + 1) = Some (vlist ! Suc x)" "\<not> int x + 1 \<ge> int (length vlist)"
    using i ns x len np_at_nat [of "Suc x" vlist] by (simp_all add: x_def add.commute)
  let ?row = "\<lambda>k. map (\<lambda>e. rev_id ! nat e) (slice (nat (vlist ! x)) (nat k) elist)"
  let ?f = "\<lambda>j (f2, count). do {
       e \<leftarrow> np_at elist j;
       y \<leftarrow> np_at rev_id e;
       Some (f2 @ [y], count + 1) }"
  let ?I = "\<lambda>k s. s = (concat (take i h) @ ?row k, int (length (concat (take i h) @ ?row k)))"
  have "\<exists>s. for_range (vlist ! x) (vlist ! Suc x) ?f (concat (take i h), int (length (concat (take i h)))) = Some s
      \<and> ?I (vlist ! Suc x) s"
  proof (rule for_range_rule [where I = ?I])
    show "?I (vlist ! x) (concat (take i h), int (length (concat (take i h))))" by (simp add: slice_def)
    fix j s assume j: "vlist ! x \<le> j" "j < vlist ! Suc x" and I: "?I j s"
    have nj: "nat j < length elist" "j = int (nat j)" using j b by linarith+
    define e where "e = nat (elist ! nat j)"
    have "0 \<le> elist ! nat j" "elist ! nat j < int m" using g nth_mem [OF nj(1)] unfolding csr_graph_ok_def by blast+
    then have e: "elist ! nat j = int e" "e < m" by (simp_all add: e_def)
    have at: "np_at elist j = Some (int e)" "np_at rev_id (int e) = Some (rev_id ! e)"
      using np_at_nat [OF nj(1)] nj(2) e ns by simp_all
    have "nat (j + 1) = Suc (nat j)" "nat (vlist ! x) \<le> nat j" using j b by linarith+
    then have "?row (j + 1) = ?row j @ [rev_id ! e]"
      using nj(1) e by (simp add: slice_Suc)
    then show "\<exists>s'. ?f j s = Some s' \<and> ?I (j + 1) s'" using at I by simp
  qed (use b in simp)
  moreover have "?row (vlist ! Suc x) = h ! i" using i ns by (simp add: h_def reordered_def csr_row_def x_def)
  moreover have "i < length h" using i ns by (simp add: h_def reordered_def)
  ultimately show ?thesis
    using at by (simp add: write_node_def take_Suc_conv_app_nth offsets_snoc)
qed


lemma bfs_reorder_run:
  assumes g: "csr_graph_ok m vlist elist" and "elist \<noteq> []"
  obtains ns rev_id where "bfs_reorder vlist elist =
      Some (offsets (reordered vlist elist ns rev_id), concat (reordered vlist elist ns rev_id))"
    "distinct ns" "set ns = {..<m}" "length ns = m" "\<And>k. k < m \<Longrightarrow> rev_id ! (ns ! k) = int k"
proof -
  have len: "length vlist = Suc m" using g by (simp add: csr_graph_ok_def)
  then have ne: "vlist \<noteq> []" by auto
  obtain ns st where st: "for_range 0 (int m) (reorder_step vlist elist)
      \<lparr>o_queue = [], o_visited = replicate m False, o_new_id = 0,
       o_new_vertex_id = replicate m 0, o_reverse_id = replicate m 0\<rparr> = Some st"
    and ns: "distinct ns" "set ns = {..<m}" "length ns = m" "o_new_vertex_id st = map int ns" "length (o_reverse_id st) = m"
      "\<And>k. k < m \<Longrightarrow> o_reverse_id st ! (ns ! k) = int k"
    using reorder_loop [OF g] by metis
  define h where "h = reordered vlist elist ns (o_reverse_id st)"
  have lh: "length h = m" using ns(3) by (simp add: h_def reordered_def)
  have "for_range 0 (int m) (write_node vlist elist (map int ns) (o_reverse_id st))
      (offsets (take 0 h), concat (take 0 h), int (length (concat (take 0 h)))) =
    Some (offsets (take m h), concat (take m h), int (length (concat (take m h))))"
    using write_node_ok [OF g ns(3,2,5)] unfolding h_def by (intro for_range_nat_eq) blast
  then have "bfs_reorder vlist elist = Some (offsets h, concat h)"
    using st ns(4) lh assms(2) ne by (simp add: bfs_reorder_def len)
  then show thesis using that ns by (simp add: h_def)
qed

text \<open>
  Property C38.  On a well-formed graph with at least one edge the script ends without an exception, and the two
  files hold a well-formed graph that is the same up to a renumbering \<open>p\<close> of its nodes: the row of the node
  \<open>i\<close>, with every neighbour \<open>x\<close> replaced by \<open>p x\<close>, is the row of the node \<open>p i\<close> of the original graph.
\<close>

theorem bfs_reorder_isomorphic:
  assumes "csr_graph_ok m vlist elist" and "elist \<noteq> []"
  shows "\<exists>f1 f2 p. bfs_reorder vlist elist = Some (f1, f2) \<and> wf_csr m f1 f2 \<and> bij_betw p {..<m} {..<m} \<and>
    (\<forall>i<m. map (\<lambda>x. int (p (nat x))) (csr_row f1 f2 i) = csr_row vlist elist (p i))"
proof (rule bfs_reorder_run [OF assms])
  fix ns rev_id
  define h where "h = reordered vlist elist ns rev_id"
  assume run: "bfs_reorder vlist elist =
      Some (offsets (reordered vlist elist ns rev_id), concat (reordered vlist elist ns rev_id))"
    and ns: "distinct ns" "set ns = {..<m}" "length ns = m" and rev_id: "\<And>k. k < m \<Longrightarrow> rev_id ! (ns ! k) = int k"
  have lh: "length h = m" using ns by (simp add: h_def reordered_def)
  have bij: "bij_betw ((!) ns) {..<m} {..<m}" by (rule bij_betw_nth [OF ns(1)]) (simp_all add: ns)
  have "map (\<lambda>x. int (ns ! nat x)) (csr_row (offsets h) (concat h) i) = csr_row vlist elist (ns ! i)" if i: "i < m" for i
  proof -
    have lt: "ns ! i < m" using i ns nth_mem [of i ns] by auto
    have "csr_row (offsets h) (concat h) i = map (\<lambda>e. rev_id ! nat e) (csr_row vlist elist (ns ! i))"
      using i ns lh by (simp add: csr_row_offsets) (simp add: h_def reordered_def)
    moreover have "int (ns ! nat (rev_id ! nat e)) = e" if "e \<in> set (csr_row vlist elist (ns ! i))" for e
    proof -
      have "e \<in> set elist" using that set_slice by (fastforce simp: csr_row_def)
      then have e: "0 \<le> e" "e < int m" using assms(1) by (auto simp: csr_graph_ok_def)
      then have "nat e \<in> set ns" using ns(2) by auto
      then obtain k where k: "k < m" "ns ! k = nat e" using ns(3) by (auto simp: in_set_conv_nth)
      show ?thesis using rev_id [OF k(1)] k e by simp
    qed
    ultimately show ?thesis by (simp add: map_idI)
  qed
  then show ?thesis using run bij wf_offsets [of h] lh unfolding h_def [symmetric] by blast
qed

theorem bfs_reorder_isomorphic_witness:
  "bfs_reorder [0, 2, 3, 3] [1, 2, 0] = Some ([0, 2, 2, 3], [2, 1, 0]) \<and>
   (\<exists>p. bij_betw p {..<3} {..<3} \<and> (\<forall>i<3. map (\<lambda>x. int (p (nat x))) (csr_row [0, 2, 2, 3] [2, 1, 0] i) =
      csr_row [0, 2, 3, 3] [1, 2, 0] (p i)))"
proof -
  have "bfs_reorder [0, 2, 3, 3] [1, 2, 0] = Some ([0, 2, 2, 3], [2, 1, 0])" by code_simp
  moreover have "csr_graph_ok 3 [0, 2, 3, 3] [1, 2, 0]"
    by (simp add: csr_graph_ok_def wf_csr_def less_Suc_eq numeral_3_eq_3)
  ultimately show ?thesis using bfs_reorder_isomorphic [of 3 "[0, 2, 3, 3]" "[1, 2, 0]"] by simp
qed

end
