(* ===== verification/Spec2Isabelle.thy ===== *)
theory Spec2Isabelle
  imports Check Rule_Filter Merge_Parts Self_Loop Edge_Order Depth_Filter Splice Norm Graph_IO Fusion Heap_Max Repair Parallel_Check Parallel_Filter Atomics Reorder
begin

text \<open>
  Laconic compresses graphs with grammar rules.  A graph in compressed sparse rows is
  written as a text, a Re-Pair compressor replaces frequent pairs of neighbours by rules, and
  the result is a compressed graph: rows for the vertices, which may mention rules, and a row
  for every rule.  A family of operations then works on compressed graphs: rules that do not pay
  off are merged away, separately compressed parts are joined, orders and masks for the
  evaluation of a graph neural network are computed, weights are normalised, parts are cut out,
  and a check compares the compressed graph with the original.  The repository has a serial
  implementation (C++ behind a Python module, below
  \<open>Re-Pair&Laconic_serial/rule_compress/compress_op\<close>), a parallel one (\<open>Laconic_parallel\<close>), and
  scripts.

  \<^bold>\<open>Conventions.\<close>  A function of the source is a HOL function of the same name.  Code without a defined
  result on some inputs (an access out of range, a signed overflow, a failed \<open>assert\<close>, an
  exception, a loop that does not end) returns an option, with \<^term>\<open>None\<close> for such runs; so a theorem
  that a call equals \<^term>\<open>Some r\<close> also excludes all of these.  Integers are \<^typ>\<open>int\<close> with the conversions
  \<open>to_i32\<close>, \<open>to_u32\<close>, \<open>to_u64\<close> and the overflow check \<open>i32_arith\<close> where the width matters.  Counting loops
  are \<open>for_range\<close>, worklist loops are partial functions whose termination is part of the theorems;
  no fuel is used.  What the source leaves open is an argument of the model: the order in which
  threads enter a critical section, the content of fresh or foreign memory, the order of
  iteration of a hash map, the operations of \<open>float\<close>, the allocator.

  \<^bold>\<open>Foundations.\<close>

  \<^item> \<open>Laconic_Prelude\<close>: indexed access, loops and their rules, machine integers, slices.
  \<^item> \<open>Grammar\<close>: what a compressed graph means (\<open>expand\<close>, \<open>neighbours\<close>) and when it is well formed
    (\<open>wf_grammar\<close>).
  \<^item> \<open>Csr\<close>: \<open>util.h\<close>, the conversions between arrays and rows (\<open>csr_convert\<close>, \<open>coo_convert\<close> with its threads,
    \<open>genNewGraphCSR\<close>, \<open>genNewIdForRule\<close>, \<open>insert_spliter\<close>).
  \<^item> \<open>Inlining\<close>: merging a rule away and the invariant of the graph and its transpose meanwhile
    (\<open>merged_away\<close>); the locale \<open>rule_merger\<close> is the contract of a pass that merges rules, interpreted
    for the serial filter, the parallel filter and the depth filter.

  \<^bold>\<open>The serial operations.\<close>

  \<^item> \<open>Check\<close> (\<open>check.h\<close>): both checks end and decide whether the compressed graph is
    the original one; the locale \<open>graph_loader\<close> covers the two input formats.
  \<^item> \<open>Rule_Filter\<close> (\<open>filter.h\<close>): the filter keeps all neighbours in order and leaves only rules that pay off.
  \<^item> \<open>Depth_Filter\<close> (\<open>depth_filter.h\<close>): whole levels of rules are merged away, the neighbours stay.
  \<^item> \<open>Convert\<close> (\<open>convert.h\<close>): the two formats are inverse to each other.
  \<^item> \<open>Merge_Parts\<close> (\<open>merge.h\<close>): joining parts keeps the neighbours of every part.
  \<^item> \<open>Self_Loop\<close> (\<open>add_self_loop.h\<close>): exactly the missing self loops are added.
  \<^item> \<open>Masks\<close>, \<open>Edge_Order\<close> (\<open>gen_mask.h\<close>): the worklist algorithms end and compute the depths.
  \<^item> \<open>Fusion\<close> (\<open>fusion.h\<close>): every step of the fused order respects the dependencies.
  \<^item> \<open>Splice\<close> (\<open>splice.h\<close>, \<open>get_part_graph_info.h\<close>): the parts that are cut out.
  \<^item> \<open>Norm\<close> (\<open>norm.h\<close>): the weights along paths through rules multiply to those of the original graph; the
    data race of one of the loops, as a step relation on threads.
  \<^item> \<open>Graph_IO\<close> (\<open>graphIO.h\<close>, \<open>core/IO.h\<close>): reading and writing text files.

  \<^bold>\<open>The serial compressor.\<close>

  \<^item> \<open>Pair_Array\<close> (\<open>array.cc\<close>, \<open>basics.cc\<close>): the growing array is a stack (locale
    \<open>id_stack\<close>).
  \<^item> \<open>Pair_Hash\<close> (\<open>hash.cc\<close>): the open hash table is a finite map (locale \<open>pair_dict\<close>), and when a search
    does not end.
  \<^item> \<open>Pair_Heap\<close> (\<open>heap.cc\<close>): the priority queue of pairs, with arrays for the infrequent pairs and linked lists for the
    frequent ones.  \<open>Links\<close> and \<open>Heap_Cells\<close> describe the links as lists of indices, \<open>Heap_Order\<close> shows what every
    operation does to the frequent pairs, \<open>Heap_Queue\<close> has the invariant of the whole heap and its records
    (\<open>heap_ok\<close>), and \<open>Heap_Max\<close> the refinement of the abstract queue \<open>queue_step\<close> and the order of extraction
    (locale \<open>max_queue\<close>).
  \<^item> \<open>Repair\<close> (\<open>records.cc\<close>, \<open>compress.h\<close>): the records of pairs and the whole of \<open>compress_csr\<close>, as executable
    definitions.

  \<^bold>\<open>The parallel compressor.\<close>

  \<^item> \<open>Parallel_Repair\<close> (\<open>core/hash.h\<close>, \<open>core/compress.h\<close>, \<open>src/compress.cc\<close>): three turns of
    replacement lose nothing, whatever the number of threads and the order of iteration; and the
    inputs on which it has no defined result.
  \<^item> \<open>Parallel_Check\<close> (\<open>core/check.h\<close>) and \<open>Parallel_Filter\<close> (\<open>core/filter.h\<close>): the checks and the filter, with
    the places where they differ from the serial code.
  \<^item> \<open>Atomics\<close> (\<open>core/atomic.h\<close>): the compare-and-swap loops, for any number of threads, as a step relation;
    every complete run has the effect of the calls one after the other (locale \<open>commuting_calls\<close>).

  \<^bold>\<open>Scripts.\<close>

  \<^item> \<open>Reorder\<close> (\<open>Encoding&Apps\<close>): the renumbering gives an isomorphic graph.

  \<^bold>\<open>Bounds.\<close>  The theorems about filters ask for sizes at which no \<open>int\<close> overflows (\<open>filter_sizes\<close>,
  \<open>par_filter_sizes\<close>, \<open>depth_sizes\<close>): products of expanded lengths below \<open>2\<^sup>3\<^sup>1\<close>.  The array of the serial
  compressor is bounded by \<open>2\<^sup>3\<^sup>0 - 64\<close> elements, its hash table by \<open>2\<^sup>2\<^sup>9\<close> cells.

  \<^bold>\<open>Not modelled.\<close>  The table of the Python bindings (\<open>function.cpp\<close>) computes nothing.  The copy of \<open>util.h\<close> in the
  parallel tree is not used by it.  Below \<open>Laconic_parallel/deps\<close> is third-party code.  The driver scripts
  in \<open>compression\<close> load arrays, call the functions above and save the results; progress messages, timing and
  the opening of files are left out everywhere.
\<close>

end
